(* ===== verification/Prelude.thy ===== *)
theory Prelude
  imports Main "HOL-Library.List_Lexorder" "HOL-Library.Char_ord" "HOL-Library.Word"
begin

text \<open>
  Shared vocabulary of the development: C++ characters and strings (a \<open>std::string\<close> is
  a list of bytes), the ways a call can leave without a value, the standard library's
  string operations the sources use, and the generic lemmas about them.

  An exception of the library, a read outside every object and a call the language gives
  no meaning to are values of \<open>exn\<close>; a fallible function returns \<open>exn + 'a\<close>. Only
  \<open>Format_error\<close> is an exception a \<open>catch\<close> of the sources can see.
\<close>

section \<open>Lemma collections\<close>

named_theorems scan_simps \<open>rewriting of the scanners over a known prefix\<close>
named_theorems len_rules \<open>length bounds on what a scanner leaves\<close>

section \<open>Characters\<close>

abbreviation nul :: char where "nul \<equiv> CHR 0x00"
abbreviation newline :: char where "newline \<equiv> CHR 0x0A"
abbreviation tab :: char where "tab \<equiv> CHR 0x09"
abbreviation dquote :: char where "dquote \<equiv> CHR 0x22"
abbreviation squote :: char where "squote \<equiv> CHR 0x27"
abbreviation bslash :: char where "bslash \<equiv> CHR 0x5C"

text \<open>The value of a plain \<open>char\<close>, signed as on the platforms the library builds on.\<close>

definition schar :: "char \<Rightarrow> int" where
  "schar c = (let n = int (of_char c) in if n < 128 then n else n - 256)"

section \<open>Exceptions and outcomes\<close>

text \<open>
  \<open>Format_error what origin data location\<close> is \<open>ztd::format_error\<close>, \<open>Runtime_error what\<close> is
  \<open>std::runtime_error\<close>; \<open>Segfault\<close> is a read past the mapped memory; \<open>Undefined\<close> is a call
  without a defined meaning.
\<close>

datatype exn =
    Format_error (what: string) (origin: string) (sdat: string) (location: int)
  | Runtime_error (reason: string)
  | Segfault
  | Undefined

text \<open>What the scanners and the parser can leave with.\<close>

fun parse_exn :: "exn \<Rightarrow> bool" where
  "parse_exn (Runtime_error w) = False"
| "parse_exn _ = True"

text \<open>
  \<open>catch(ztd::format_error& e) { throw f(e); }\<close> around a computation: the other outcomes
  are not exceptions and pass.
\<close>

fun catch_format :: "(string \<Rightarrow> string \<Rightarrow> int \<Rightarrow> exn) \<Rightarrow> exn \<Rightarrow> exn" where
  "catch_format f (Format_error w src d i) = f w src i"
| "catch_format f (Runtime_error w) = Runtime_error w"
| "catch_format f Segfault = Segfault"
| "catch_format f Undefined = Undefined"

lemma catch_format_Segfault [simp]:
  "(\<And>w src i. f w src i \<noteq> Segfault) \<Longrightarrow> catch_format f e = Segfault \<longleftrightarrow> e = Segfault"
  by (cases e) auto

lemma catch_parse_exn: "parse_exn e \<Longrightarrow> (\<And>w src i. parse_exn (f w src i)) \<Longrightarrow> parse_exn (catch_format f e)"
  by (cases e) auto

section \<open>Strings of the standard library\<close>

text \<open>A \<open>std::string\<close> rebuilt from its \<open>c_str()\<close> stops at the first NUL.\<close>

definition cstr :: "string \<Rightarrow> string" where
  "cstr s = takeWhile (\<lambda>c. c \<noteq> nul) s"

lemma cstr_id [simp]: "nul \<notin> set s \<Longrightarrow> cstr s = s"
  by (auto simp: cstr_def)

text \<open>\<open>std::string::find(c)\<close>: \<open>None\<close> is \<open>npos\<close>.\<close>

fun string_find :: "char \<Rightarrow> string \<Rightarrow> nat option" where
  "string_find c [] = None"
| "string_find c (x # xs) = (if x = c then Some 0 else map_option Suc (string_find c xs))"

lemma string_find_None [simp]: "string_find c s = None \<longleftrightarrow> c \<notin> set s"
  by (induction s) auto

lemma string_find_absent [simp]: "c \<notin> set s \<Longrightarrow> string_find c s = None"
  by simp

lemma string_find_Some:
  "string_find c s = Some n \<Longrightarrow> n < length s \<and> s ! n = c \<and> c \<notin> set (take n s)"
proof (induction s arbitrary: n)
  case (Cons x xs)
  then show ?case by (cases n) (auto split: if_splits)
qed simp

lemma string_find_append [simp]:
  "c \<notin> set s \<Longrightarrow> string_find c (s @ c # t) = Some (length s)"
  by (induction s) auto

text \<open>\<open>std::to_string\<close> of an unsigned value.\<close>

fun to_string :: "nat \<Rightarrow> string" where
  "to_string n = (if n < 10 then [char_of (n + 48)]
                  else to_string (n div 10) @ [char_of (n mod 10 + 48)])"

declare to_string.simps [simp del]

section \<open>Lists\<close>

lemma dropWhile_tl_last [simp]:
  "xs \<noteq> [] \<Longrightarrow> \<not> P (last xs) \<Longrightarrow> rev (dropWhile P (rev xs)) = xs"
  by (cases xs rule: rev_cases) auto

lemma rev_dropWhile_append_all [simp]:
  "\<forall>c \<in> set ys. P c \<Longrightarrow> rev (dropWhile P (rev (xs @ ys))) = rev (dropWhile P (rev xs))"
  by (simp add: dropWhile_append)

lemma length_rev_dropWhile: "length (rev (dropWhile P (rev xs))) \<le> length xs"
  by (metis length_dropWhile_le length_rev)

end
