(* ===== verification/StdMap.thy ===== *)
theory StdMap
  imports Prelude
begin

text \<open>
  \<open>std::map\<close> as the sources use it (\<open>chunk_map::values\<close> in src/include/filedat.hpp): an
  association list in strictly ascending key order, which is also its iteration order.
  \<open>insert\<close> never replaces a value and reports whether it inserted; the update through an
  iterator is \<open>map_assign\<close>. The contract the rest of the development relies on is the
  locale \<open>std_map\<close>, interpreted at the end on this model.
\<close>

section \<open>The contract\<close>

locale std_map =
  fixes inv :: "'m \<Rightarrow> bool"
    and items :: "'m \<Rightarrow> ('k \<times> 'v) list"
    and find :: "'k \<Rightarrow> 'm \<Rightarrow> 'v option"
    and insert :: "'k \<Rightarrow> 'v \<Rightarrow> 'm \<Rightarrow> 'm \<times> bool"
    and assign :: "'k \<Rightarrow> 'v \<Rightarrow> 'm \<Rightarrow> 'm"
    and erase :: "'k \<Rightarrow> 'm \<Rightarrow> 'm"
  assumes ext: "inv m \<Longrightarrow> inv m' \<Longrightarrow> (\<And>k. find k m = find k m') \<Longrightarrow> m = m'"
    and items_find: "inv m \<Longrightarrow> find k m = map_of (items m) k"
    and items_distinct: "inv m \<Longrightarrow> distinct (map fst (items m))"
    and inv_insert: "inv m \<Longrightarrow> inv (fst (insert k v m))"
    and insert_second: "inv m \<Longrightarrow> snd (insert k v m) \<longleftrightarrow> find k m = None"
    and find_insert: "inv m \<Longrightarrow> find j (fst (insert k v m)) =
          (if j = k \<and> find k m = None then Some v else find j m)"
    and inv_assign: "inv m \<Longrightarrow> inv (assign k v m)"
    and find_assign: "inv m \<Longrightarrow> find j (assign k v m) =
          (if j = k \<and> find k m \<noteq> None then Some v else find j m)"
    and inv_erase: "inv m \<Longrightarrow> inv (erase k m)"
    and find_erase: "inv m \<Longrightarrow> find j (erase k m) = (if j = k then None else find j m)"
begin

lemma insert_present: "inv m \<Longrightarrow> find k m \<noteq> None \<Longrightarrow> insert k v m = (m, False)"
  by (rule prod_eqI) (auto intro!: ext simp: inv_insert find_insert insert_second)

lemma erase_insert:
  "inv m \<Longrightarrow> find k m = None \<Longrightarrow> erase k (fst (insert k v m)) = m"
  by (auto intro!: ext simp: inv_insert inv_erase find_insert find_erase)

lemma insert_commute:
  "inv m \<Longrightarrow> j \<noteq> k \<Longrightarrow>
     fst (insert j u (fst (insert k v m))) = fst (insert k v (fst (insert j u m)))"
  by (auto intro!: ext simp: inv_insert find_insert)

lemma assign_same: "inv m \<Longrightarrow> find k m = Some v \<Longrightarrow> assign k v m = m"
  by (auto intro!: ext simp: inv_assign find_assign)

lemma find_Some_items: "inv m \<Longrightarrow> find k m = Some v \<longleftrightarrow> (k, v) \<in> set (items m)"
  by (simp add: items_find items_distinct)

end

section \<open>The model\<close>

definition map_ok :: "('k::linorder \<times> 'v) list \<Rightarrow> bool" where
  "map_ok m = sorted_wrt (<) (map fst m)"

fun map_find :: "'k \<Rightarrow> ('k \<times> 'v) list \<Rightarrow> 'v option" where
  "map_find k [] = None"
| "map_find k ((k', v) # m) = (if k' = k then Some v else map_find k m)"

fun map_insert :: "'k::linorder \<Rightarrow> 'v \<Rightarrow> ('k \<times> 'v) list \<Rightarrow> ('k \<times> 'v) list \<times> bool" where
  "map_insert k v [] = ([(k, v)], True)"
| "map_insert k v ((k', v') # m) =
     (if k < k' then ((k, v) # (k', v') # m, True)
      else if k = k' then ((k', v') # m, False)
      else (let (m', b) = map_insert k v m in ((k', v') # m', b)))"

fun map_assign :: "'k \<Rightarrow> 'v \<Rightarrow> ('k \<times> 'v) list \<Rightarrow> ('k \<times> 'v) list" where
  "map_assign k v [] = []"
| "map_assign k v ((k', v') # m) = (if k' = k then (k', v) # m else (k', v') # map_assign k v m)"

fun map_erase :: "'k \<Rightarrow> ('k \<times> 'v) list \<Rightarrow> ('k \<times> 'v) list" where
  "map_erase k [] = []"
| "map_erase k ((k', v') # m) = (if k' = k then m else (k', v') # map_erase k m)"

definition map_keys :: "('k \<times> 'v) list \<Rightarrow> 'k set" where
  "map_keys m = set (map fst m)"

lemma map_keys_simps [simp]: "map_keys [] = {}" "map_keys ((k, v) # m) = insert k (map_keys m)"
  by (simp_all add: map_keys_def)

lemma map_ok_simps [simp]:
  "map_ok []" "map_ok ((k, v) # m) \<longleftrightarrow> (\<forall>x \<in> map_keys m. k < x) \<and> map_ok m"
  by (auto simp: map_ok_def map_keys_def)

lemma map_find_map_of: "map_find k m = map_of m k"
  by (induction k m rule: map_find.induct) auto

lemma map_find_None: "map_find k m = None \<longleftrightarrow> k \<notin> map_keys m"
  by (induction k m rule: map_find.induct) auto

lemma map_find_absent: "k \<notin> map_keys m \<Longrightarrow> map_find k m = None"
  by (simp add: map_find_None)

lemma map_ok_distinct: "map_ok m \<Longrightarrow> distinct (map fst m)"
  by (auto simp: map_ok_def strict_sorted_iff)

lemma map_insert_Cons:
  "map_insert k v ((k', v') # m) =
     (if k < k' then ((k, v) # (k', v') # m, True)
      else if k = k' then ((k', v') # m, False)
      else ((k', v') # fst (map_insert k v m), snd (map_insert k v m)))"
  by (simp split: prod.splits)

declare map_insert.simps(2) [simp del] map_insert_Cons [simp]

lemma map_insert_keys: "map_keys (fst (map_insert k v m)) = insert k (map_keys m)"
  by (induction k v m rule: map_insert.induct) auto

lemma map_insert_ok: "map_ok m \<Longrightarrow> map_ok (fst (map_insert k v m))"
  by (induction k v m rule: map_insert.induct) (auto simp: map_insert_keys)

lemma map_insert_spec:
  "map_ok m \<Longrightarrow>
     map_find j (fst (map_insert k v m)) = (if j = k \<and> map_find k m = None then Some v else map_find j m)
     \<and> (snd (map_insert k v m) \<longleftrightarrow> map_find k m = None)"
proof (induction k v m rule: map_insert.induct)
  case (2 k v k' v' m)
  have above: "map_find k m = None" if "k < k'"
    by (rule map_find_absent) (use that 2(2) in auto)
  then show ?case using 2 by (cases k k' rule: linorder_cases) auto
qed simp

lemma map_assign_keys: "map fst (map_assign k v m) = map fst m"
  by (induction k v m rule: map_assign.induct) auto

lemma map_assign_find:
  "map_find j (map_assign k v m) = (if j = k \<and> map_find k m \<noteq> None then Some v else map_find j m)"
  by (induction k v m rule: map_assign.induct) auto

lemma map_erase_keys: "map_keys (map_erase k m) \<subseteq> map_keys m"
  by (induction k m rule: map_erase.induct) auto

lemma map_erase_ok: "map_ok m \<Longrightarrow> map_ok (map_erase k m)"
  by (induction k m rule: map_erase.induct) (use map_erase_keys in fastforce)+

lemma map_erase_find:
  "map_ok m \<Longrightarrow> map_find j (map_erase k m) = (if j = k then None else map_find j m)"
  by (induction k m rule: map_erase.induct) (auto simp: map_find_absent)

lemma map_find_hd:
  assumes "map_ok ((k, v) # m)" and "map_find j ((k, v) # m) \<noteq> None"
  shows "k \<le> j"
proof -
  from assms(2) have "j \<in> map_keys ((k, v) # m)" by (simp only: map_find_None not_not)
  with assms(1) show ?thesis by auto
qed

lemma map_find_ext:
  "map_ok m \<Longrightarrow> map_ok m' \<Longrightarrow> (\<And>k. map_find k m = map_find k m') \<Longrightarrow> m = m'"
proof (induction m arbitrary: m')
  case Nil
  then show ?case by (cases m') (force split: if_splits)+
next
  case (Cons p m)
  obtain k v where p: "p = (k, v)" by force
  have fk: "map_find k m' = Some v" using Cons.prems(3) [of k] p by simp
  then obtain k' v' r where m': "m' = (k', v') # r" by (cases m') auto
  have "map_find k' (p # m) \<noteq> None" using Cons.prems(3) [of k'] m' by simp
  then have "k \<le> k'" using map_find_hd [of k v m k'] Cons.prems(1) p by blast
  moreover have "k' \<le> k" using map_find_hd [of k' v' r k] fk Cons.prems(2) m' by auto
  ultimately have kk: "k' = k" by simp
  with fk m' have vv: "v' = v" by simp
  have "map_find j m = map_find j r" for j
  proof (cases "j = k")
    case True
    have "k \<notin> map_keys m" "k \<notin> map_keys r" using Cons.prems(1,2) p m' kk by auto
    with True show ?thesis by (simp add: map_find_absent)
  next
    case False
    then show ?thesis using Cons.prems(3) [of j] p m' kk by simp
  qed
  with Cons.IH Cons.prems(1,2) p m' have "m = r" by simp
  with p m' kk vv show ?case by simp
qed

interpretation kv: std_map "map_ok :: ('k::linorder \<times> 'v) list \<Rightarrow> bool" "\<lambda>m. m"
    map_find map_insert map_assign map_erase
proof unfold_locales
  show "map_ok m \<Longrightarrow> map_ok m' \<Longrightarrow> (\<And>k. map_find k m = map_find k m') \<Longrightarrow> m = m'"
    for m m' :: "('k \<times> 'v) list"
    by (rule map_find_ext)
  show "map_ok m \<Longrightarrow> map_ok (map_assign k v m)" for m :: "('k \<times> 'v) list" and k v
    by (simp add: map_ok_def map_assign_keys)
qed (auto simp: map_find_map_of [symmetric] map_ok_distinct map_insert_ok map_insert_spec
      map_assign_find map_erase_ok map_erase_find)

lemmas map_facts = kv.inv_insert kv.find_insert kv.insert_second
  kv.inv_assign kv.find_assign kv.inv_erase kv.find_erase

text \<open>Inserting a key above all present ones appends it: loading a sorted map keeps its order.\<close>

lemma map_insert_append:
  "(\<forall>x \<in> map_keys m. x < k) \<Longrightarrow> map_insert k v m = (m @ [(k, v)], True)"
  by (induction m) (auto simp: not_less_iff_gr_or_eq)

lemma map_insert_set: "set (fst (map_insert k v m)) \<subseteq> insert (k, v) (set m)"
  by (induction k v m rule: map_insert.induct) (auto split: prod.splits)

lemma map_assign_set: "set (map_assign k v m) \<subseteq> insert (k, v) (set m)"
  by (induction k v m rule: map_assign.induct) auto

lemma map_erase_set: "set (map_erase k m) \<subseteq> set m"
  by (induction k m rule: map_erase.induct) auto

lemma map_find_set: "map_find k m = Some v \<Longrightarrow> (k, v) \<in> set m"
  by (simp add: map_find_map_of map_of_SomeD)

end
