(* ===== verification/Scanner.thy ===== *)
theory Scanner
  imports Prelude
begin

text \<open>
  The tokenizer of the ZFD format (src/src/filedat.cpp): \<open>filedat::isRead\<close>, \<open>_skip\<close>,
  \<open>_getstrval\<close> and \<open>_getkeyval\<close>.

  The code walks a string with an index \<open>i\<close>. The model keeps \<open>i\<close> and, beside it, the
  unread suffix \<open>str.substr(i)\<close>, so that \<open>str[i]\<close> is the head of the suffix; the
  position is carried along as the code increments it, for the error locations.
  \<open>str[str.size()]\<close> is the terminating NUL. One loop of \<open>_getstrval\<close> goes on reading
  beyond it; for that loop the bytes mapped after the terminator are a parameter
  \<open>mem str\<close>, and reading beyond those too is \<open>Segfault\<close>. Positions are mathematical
  integers: the model speaks of strings shorter than 2 GiB, for which the \<open>int\<close>,
  \<open>uint32_t\<close> and \<open>size_t\<close> positions of the code agree.
\<close>

section \<open>Readable characters\<close>

definition isRead :: "char \<Rightarrow> bool" where
  "isRead c = (schar c \<ge> 33 \<and> schar c \<le> 126)"

lemma isRead_values [simp]:
  "isRead CHR ''{''" "isRead CHR ''}''" "isRead CHR ''[''" "isRead CHR '']''"
  "isRead CHR ''=''" "isRead CHR '';''" "isRead CHR '',''" "isRead dquote" "isRead squote"
  "isRead bslash" "\<not> isRead nul" "\<not> isRead newline" "\<not> isRead tab" "\<not> isRead CHR '' ''"
  by (simp_all add: isRead_def schar_def)

lemma unread_not [simp]:
  "\<not> isRead c \<Longrightarrow> (c = CHR ''{'') = False" "\<not> isRead c \<Longrightarrow> (c = CHR ''['') = False"
  "\<not> isRead c \<Longrightarrow> (c = dquote) = False" "\<not> isRead c \<Longrightarrow> (c = squote) = False"
  by auto

text \<open>\<open>_skip\<close>: the text from the first readable character on, and its position.\<close>

fun skip_loop :: "nat \<Rightarrow> string \<Rightarrow> string \<times> nat" where
  "skip_loop i [] = ([], i)"
| "skip_loop i (c # r) = (if isRead c then (c # r, i) else skip_loop (Suc i) r)"

definition skip :: "string \<Rightarrow> string \<times> nat" where
  "skip str = skip_loop 0 str"

lemma skip_loop_eq:
  "skip_loop i s = (dropWhile (\<lambda>c. \<not> isRead c) s, i + length (takeWhile (\<lambda>c. \<not> isRead c) s))"
  by (induction i s rule: skip_loop.induct) auto

lemma skip_eq:
  "skip s = (dropWhile (\<lambda>c. \<not> isRead c) s, length (takeWhile (\<lambda>c. \<not> isRead c) s))"
  by (simp add: skip_def skip_loop_eq)

lemma skip_first: "fst (skip s) = c # r \<Longrightarrow> isRead c"
  by (simp add: skip_eq dropWhile_eq_Cons_conv)

lemma skip_length: "length (fst (skip s)) \<le> length s"
  by (simp add: skip_eq length_dropWhile_le)

text \<open>The trailing blanks of a value that reached the end of its text are dropped.\<close>

fun pop_unread :: "string \<Rightarrow> string" where
  "pop_unread val =
     (if val \<noteq> [] \<and> \<not> isRead (last val) then pop_unread (butlast val) else val)"

declare pop_unread.simps [simp del]

lemma pop_unread_eq: "pop_unread v = rev (dropWhile (\<lambda>c. \<not> isRead c) (rev v))"
proof (induction v rule: pop_unread.induct)
  case (1 v)
  show ?case
    using 1 pop_unread.simps [of v] by (cases v rule: rev_cases) auto
qed

lemma pop_unread_len [len_rules]: "length (pop_unread v) \<le> length v"
  unfolding pop_unread_eq by (rule length_rev_dropWhile)

lemma pop_unread_blank [simp]:
  "\<forall>c \<in> set t. \<not> isRead c \<Longrightarrow> pop_unread (v @ t) = pop_unread v"
  unfolding pop_unread_eq by (rule rev_dropWhile_append_all) auto

lemma pop_unread_id [simp]: "v = [] \<or> isRead (last v) \<Longrightarrow> pop_unread v = v"
  by (auto simp: pop_unread.simps [of v])

section \<open>Quotes\<close>

text \<open>
  The text up to the closing quote \<open>q\<close> (lines 279-289, and 294-304 for single quotes): a
  backslash before \<open>q\<close> is dropped and the quote kept. \<open>None\<close> when the quote does not end.
  The result is the value, the position after the closing quote and the text there.
\<close>

fun quoted :: "char \<Rightarrow> nat \<Rightarrow> string \<Rightarrow> string \<Rightarrow> (string \<times> nat \<times> string) option" where
  "quoted q i [] val = None"
| "quoted q i (c # r) val =
     (if c = q then Some (val, Suc i, r)
      else if r \<noteq> [] \<and> c = bslash \<and> hd r = q then quoted q (i + 2) (tl r) (val @ [hd r])
      else quoted q (Suc i) r (val @ [c]))"

text \<open>
  Inside a nested map or list the quoted text is copied as it stands, quotes and
  backslashes included (lines 320-329 and 343).
\<close>

fun quoted_raw :: "char \<Rightarrow> nat \<Rightarrow> string \<Rightarrow> string \<Rightarrow> (string \<times> nat \<times> string) option" where
  "quoted_raw q i [] val = None"
| "quoted_raw q i (c # r) val =
     (if c = q then Some (val @ [c], Suc i, r)
      else if r \<noteq> [] \<and> c = bslash \<and> hd r = q then quoted_raw q (i + 2) (tl r) (val @ [c, hd r])
      else quoted_raw q (Suc i) r (val @ [c]))"

lemma quoted_len [len_rules]:
  "quoted q i r val = Some (v, i', r') \<Longrightarrow>
     length r' < length r \<and> length v + length r' < length val + length r"
  by (induction q i r val rule: quoted.induct)
    (force split: if_splits simp: neq_Nil_conv)+

lemma quoted_raw_len [len_rules]:
  "quoted_raw q i r val = Some (v, i', r') \<Longrightarrow>
     length r' < length r \<and> length v + length r' = length val + length r"
  by (induction q i r val rule: quoted_raw.induct)
    (force split: if_splits simp: neq_Nil_conv)+

section \<open>Nested maps and lists\<close>

text \<open>
  Copying a bracketed value (lines 308-349 for a map, 353-394 for a list) from behind its
  opening bracket at position \<open>j\<close>, with the \<open>uint32_t\<close> counter \<open>n\<close>: a map decrements it
  at \<open>}\<close> and increments it at \<open>{\<close>; a list decrements it at \<open>[\<close> and increments it at
  \<open>]\<close>, so there it runs below zero. \<open>cl\<close> is the closing bracket.
\<close>

function scan_nested :: "char \<Rightarrow> char \<Rightarrow> char \<Rightarrow> string \<Rightarrow> nat \<Rightarrow> 32 word \<Rightarrow> nat \<Rightarrow> string \<Rightarrow> string
    \<Rightarrow> exn + (string \<times> nat \<times> string)" where
  "scan_nested dec inc cl str j n i [] val =
     Inl (Format_error ''Brace does not close'' [] str (int j))"
| "scan_nested dec inc cl str j n i (c # r) val =
     (if n = 0 \<and> c = cl then Inr (val @ [c], Suc i, r)
      else if c = dec then scan_nested dec inc cl str j (n - 1) (Suc i) r (val @ [c])
      else if c = inc then scan_nested dec inc cl str j (n + 1) (Suc i) r (val @ [c])
      else if c = dquote then
        (case quoted_raw dquote (Suc i) r (val @ [c]) of
           None \<Rightarrow> Inl (Format_error ''Double quote does not close'' [] str (int i))
         | Some (val', i', r') \<Rightarrow> scan_nested dec inc cl str j n i' r' val')
      else if c = squote then
        (case quoted_raw squote (Suc i) r (val @ [c]) of
           None \<Rightarrow> Inl (Format_error ''Single quote does not close'' [] str (int i))
         | Some (val', i', r') \<Rightarrow> scan_nested dec inc cl str j n i' r' val')
      else scan_nested dec inc cl str j n (Suc i) r (val @ [c]))"
  by pat_completeness auto
termination
  by (relation "measure (\<lambda>(dec, inc, cl, str, j, n, i, r, val). length r)")
    (auto dest: quoted_raw_len)

text \<open>One step of the loop: it is done, or goes on with less to read and nothing lost.\<close>

lemma scan_nested_step:
  assumes "scan_nested dec inc cl str j n i (c # r) val = Inr res"
  obtains (closed) "res = (val @ [c], Suc i, r)"
  | (go_on) n' i2 r2 val2 where "scan_nested dec inc cl str j n' i2 r2 val2 = Inr res"
      "length r2 \<le> length r" "length val2 + length r2 = length val + Suc (length r)"
  using assms
  by (simp split: if_splits option.splits prod.splits)
    (fastforce dest: quoted_raw_len)+

lemma scan_nested_len [len_rules]:
  "scan_nested dec inc cl str j n i r val = Inr (v, i', r') \<Longrightarrow>
     length r' < length r \<and> length v + length r' = length val + length r"
proof (induction r arbitrary: n i val rule: length_induct)
  case (1 r)
  show ?case
  proof (cases r)
    case Nil
    with "1.prems" show ?thesis by simp
  next
    case (Cons c s)
    with "1.prems" have "scan_nested dec inc cl str j n i (c # s) val = Inr (v, i', r')" by simp
    then show ?thesis
    proof (cases rule: scan_nested_step)
      case closed
      with Cons show ?thesis by simp
    next
      case (go_on n2 i2 r2 val2)
      from go_on(2) Cons have "length r2 < length r" by simp
      with "1.IH" go_on(1) have "length r' < length r2 \<and> length v + length r' = length val2 + length r2"
        by blast
      with go_on Cons show ?thesis by simp
    qed
  qed
qed

definition scan_map :: "string \<Rightarrow> nat \<Rightarrow> string \<Rightarrow> string \<Rightarrow> exn + (string \<times> nat \<times> string)" where
  "scan_map str i r val =
     scan_nested CHR ''}'' CHR ''{'' CHR ''}'' str i 0 (Suc i) (tl r) (val @ [hd r])"

definition scan_list :: "string \<Rightarrow> nat \<Rightarrow> string \<Rightarrow> string \<Rightarrow> exn + (string \<times> nat \<times> string)" where
  "scan_list str i r val =
     scan_nested CHR ''['' CHR '']'' CHR '']'' str i 0 (Suc i) (tl r) (val @ [hd r])"

lemma scan_open_len [len_rules]:
  "r \<noteq> [] \<Longrightarrow> scan_map str i r val = Inr (v, i', r') \<Longrightarrow>
     length r' < length r \<and> length v + length r' = length val + length r"
  "r \<noteq> [] \<Longrightarrow> scan_list str i r val = Inr (v, i', r') \<Longrightarrow>
     length r' < length r \<and> length v + length r' = length val + length r"
  by (cases r; force simp: scan_map_def scan_list_def dest: scan_nested_len)+

section \<open>One value\<close>

text \<open>
  A quote at the current position is taken off first (lines 276-305); the rest of the
  loop body then runs on the character behind it, without asking again whether the text
  ended or another quote starts.
\<close>

definition unquote :: "string \<Rightarrow> nat \<Rightarrow> string \<Rightarrow> string \<Rightarrow> exn + (string \<times> nat \<times> string)" where
  "unquote str i r val =
     (if r \<noteq> [] \<and> hd r = dquote then
        (case quoted dquote (Suc i) (tl r) val of
           None \<Rightarrow> Inl (Format_error ''Double quote doesn't close'' [] str (int i))
         | Some res \<Rightarrow> Inr res)
      else if r \<noteq> [] \<and> hd r = squote then
        (case quoted squote (Suc i) (tl r) val of
           None \<Rightarrow> Inl (Format_error ''Single quote doesn't close'' [] str (int i))
         | Some res \<Rightarrow> Inr res)
      else Inr (val, i, r))"

text \<open>
  The run of unreadable characters (lines 401-402): it ends at a delimiter or a readable
  character, and has no other bound. \<open>None\<close> when the bytes given run out.
\<close>

fun nonread_loop :: "char \<Rightarrow> char \<Rightarrow> string \<Rightarrow> string \<Rightarrow> (string \<times> char) option" where
  "nonread_loop d a [] tval = None"
| "nonread_loop d a (c # cs) tval =
     (if \<not> isRead c \<and> \<not> (c = d \<or> c = a) then nonread_loop d a cs (tval @ [c])
      else Some (tval, c))"

text \<open>\<open>str[i]\<close>, with the terminator at \<open>i = str.size()\<close>.\<close>

definition cur :: "string \<Rightarrow> char" where
  "cur r = (case r of [] \<Rightarrow> nul | c # _ \<Rightarrow> c)"

lemma cur_simps [simp]: "cur [] = nul" "cur (c # r) = c"
  by (simp_all add: cur_def)

lemma cur_hd: "r \<noteq> [] \<Longrightarrow> cur r = hd r"
  by (cases r) auto

text \<open>The loop of \<open>_getstrval\<close> (lines 274-420); \<open>m\<close> are the bytes after the terminator.\<close>

function getstr_loop :: "string \<Rightarrow> string \<Rightarrow> char \<Rightarrow> char \<Rightarrow> nat \<Rightarrow> string \<Rightarrow> string
    \<Rightarrow> exn + (string \<times> nat \<times> string)" where
  "getstr_loop m str d a i r val =
     (if r = [] then Inr (val, i, r) else
      case unquote str i r val of Inl e \<Rightarrow> Inl e | Inr (val, i, r) \<Rightarrow>
      if cur r = CHR ''{'' then
        (case scan_map str i r val of Inl e \<Rightarrow> Inl e
         | Inr (val, i, r) \<Rightarrow> getstr_loop m str d a i r val)
      else if cur r = CHR ''['' then
        (case scan_list str i r val of Inl e \<Rightarrow> Inl e
         | Inr (val, i, r) \<Rightarrow> getstr_loop m str d a i r val)
      else if \<not> isRead (cur r) then
        (if d = nul then Inr (val, i, r) else
         case nonread_loop d a (r @ nul # m) [] of None \<Rightarrow> Inl Segfault
         | Some (tval, c) \<Rightarrow>
             (if c = d \<or> c = a
              then Inr (val, Suc (i + length tval), drop (Suc (length tval)) r)
              else getstr_loop m str d a (i + length tval) (drop (length tval) r) (val @ tval)))
      else if cur r = d \<or> cur r = a then Inr (val, Suc i, tl r)
      else getstr_loop m str d a (Suc i) (tl r) (val @ [cur r]))"
  by pat_completeness auto

lemma unquote_len:
  "unquote str i r val = Inr (v, i', r') \<Longrightarrow>
     length v + length r' \<le> length val + length r \<and>
     ((v, i', r') = (val, i, r) \<or> length r' < length r)"
  by (cases r) (auto simp: unquote_def split: if_splits option.splits dest: quoted_len)

lemma nonread_loop_progress:
  "nonread_loop d a cs tval = Some (t, c) \<Longrightarrow>
     \<exists>u. t = tval @ u \<and> (\<forall>x \<in> set u. \<not> isRead x) \<and> (u = [] \<longrightarrow> cs \<noteq> [] \<and> c = hd cs)
       \<and> (isRead c \<or> c = d \<or> c = a)"
proof (induction d a cs tval rule: nonread_loop.induct)
  case (2 d a c cs tval)
  then show ?case by (cases "\<not> isRead c \<and> \<not> (c = d \<or> c = a)") auto
qed simp

lemma nonread_moves:
  assumes "nonread_loop d a (b @ nul # m) [] = Some (t, c)"
    and "c \<noteq> d" "c \<noteq> a" "\<not> isRead (cur b)"
  shows "t \<noteq> []"
  using nonread_loop_progress [OF assms(1)] assms(2-4) by (cases b) auto

lemma cur_read_nonempty: "isRead (cur b) \<Longrightarrow> b \<noteq> []"
  by (cases b) auto

lemma unquote_le: "unquote str i r val = Inr (v, i', r') \<Longrightarrow> length r' \<le> length r"
  by (auto dest: unquote_len)

lemma scan_open_shorter:
  assumes "scan_map str i b v = Inr (v', i', r') \<and> cur b = CHR ''{''
         \<or> scan_list str i b v = Inr (v', i', r') \<and> cur b = CHR ''[''"
  shows "length r' < length b"
proof -
  from assms have "b \<noteq> []" by (auto intro: cur_read_nonempty)
  with assms show ?thesis by (auto dest: scan_open_len)
qed

termination getstr_loop
proof (relation "measure (\<lambda>(m, str, d, a, i, r, val). length r)", goal_cases)
  case (2 m str d a i r val)
  then show ?case
    using scan_open_shorter by (fastforce dest!: unquote_le)
next
  case (3 m str d a i r val)
  then show ?case
    using scan_open_shorter by (fastforce dest!: unquote_le)
next
  case (4 m str d a i r val)
  then show ?case
    by (auto dest!: unquote_len dest: nonread_moves)
next
  case (5 m str d a i r val)
  then show ?case
    by (auto dest!: unquote_le cur_read_nonempty simp: neq_Nil_conv)
qed auto

declare getstr_loop.simps [simp del]

lemma getstr_loop_Nil [simp]: "getstr_loop m str d a i [] val = Inr (val, i, [])"
  by (simp add: getstr_loop.simps)

text \<open>The branches of the loop body, by the character behind a possible quote.\<close>

lemma getstr_body:
  assumes ne: "r \<noteq> []" and uq: "unquote str i r val = Inr (vq, iq, rq)"
  shows getstr_map: "cur rq = CHR ''{'' \<Longrightarrow> getstr_loop m str d a i r val =
      (case scan_map str iq rq vq of Inl e \<Rightarrow> Inl e | Inr (v, i, r) \<Rightarrow> getstr_loop m str d a i r v)"
    and getstr_list: "cur rq = CHR ''['' \<Longrightarrow> getstr_loop m str d a i r val =
      (case scan_list str iq rq vq of Inl e \<Rightarrow> Inl e | Inr (v, i, r) \<Rightarrow> getstr_loop m str d a i r v)"
    and getstr_blank: "\<not> isRead (cur rq) \<Longrightarrow> d = nul \<Longrightarrow>
      getstr_loop m str d a i r val = Inr (vq, iq, rq)"
    and getstr_segv: "\<not> isRead (cur rq) \<Longrightarrow> d \<noteq> nul \<Longrightarrow> nonread_loop d a (rq @ nul # m) [] = None \<Longrightarrow>
      getstr_loop m str d a i r val = Inl Segfault"
    and getstr_blank_delim: "\<not> isRead (cur rq) \<Longrightarrow> d \<noteq> nul \<Longrightarrow>
      nonread_loop d a (rq @ nul # m) [] = Some (t, c) \<Longrightarrow> c = d \<or> c = a \<Longrightarrow>
      getstr_loop m str d a i r val = Inr (vq, Suc (iq + length t), drop (Suc (length t)) rq)"
    and getstr_blank_on: "\<not> isRead (cur rq) \<Longrightarrow> d \<noteq> nul \<Longrightarrow>
      nonread_loop d a (rq @ nul # m) [] = Some (t, c) \<Longrightarrow> \<not> (c = d \<or> c = a) \<Longrightarrow>
      getstr_loop m str d a i r val =
        getstr_loop m str d a (iq + length t) (drop (length t) rq) (vq @ t)"
    and getstr_delim: "isRead (cur rq) \<Longrightarrow> cur rq \<noteq> CHR ''{'' \<Longrightarrow> cur rq \<noteq> CHR ''['' \<Longrightarrow>
      cur rq = d \<or> cur rq = a \<Longrightarrow>
      getstr_loop m str d a i r val = Inr (vq, Suc iq, tl rq)"
    and getstr_char: "isRead (cur rq) \<Longrightarrow> cur rq \<noteq> CHR ''{'' \<Longrightarrow> cur rq \<noteq> CHR ''['' \<Longrightarrow>
      \<not> (cur rq = d \<or> cur rq = a) \<Longrightarrow>
      getstr_loop m str d a i r val = getstr_loop m str d a (Suc iq) (tl rq) (vq @ [cur rq])"
  by (subst getstr_loop.simps [of m str d a i r val]; simp add: uq ne)+

lemma getstr_unquote_error:
  "r \<noteq> [] \<Longrightarrow> unquote str i r val = Inl e \<Longrightarrow> getstr_loop m str d a i r val = Inl e"
  by (simp add: getstr_loop.simps [of m str d a i r val])

text \<open>
  One step of the loop: it stops, it ran past the end of the string over unreadable
  bytes, or it goes on with less to read and nothing invented.
\<close>

lemma getstr_branches:
  assumes run: "getstr_loop m str d a i r val = Inr (v, i', r')" and ne: "r \<noteq> []"
    and uq: "unquote str i r val = Inr (vq, iq, rq)"
  obtains (nested) vo io ro where "scan_map str iq rq vq = Inr (vo, io, ro) \<and> cur rq = CHR ''{''
         \<or> scan_list str iq rq vq = Inr (vo, io, ro) \<and> cur rq = CHR ''[''"
      "getstr_loop m str d a io ro vo = Inr (v, i', r')"
    | (blank) "\<not> isRead (cur rq)" "d = nul" "(v, i', r') = (vq, iq, rq)"
    | (unread) t c where "\<not> isRead (cur rq)" "d \<noteq> nul"
        "nonread_loop d a (rq @ nul # m) [] = Some (t, c)"
    | (delim) "isRead (cur rq)" "(v, i', r') = (vq, Suc iq, tl rq)"
    | (char) "isRead (cur rq)" "getstr_loop m str d a (Suc iq) (tl rq) (vq @ [cur rq]) = Inr (v, i', r')"
proof -
  note body = getstr_body [OF ne uq, where m = m and d = d and a = a]
  show thesis
  proof (cases "cur rq = CHR ''{'' \<or> cur rq = CHR ''[''")
    case True
    then show thesis using run body(1,2) nested by (fastforce split: sum.splits)
  next
    case False
    note plain = False
    show thesis
    proof (cases "isRead (cur rq)")
      case True
      show thesis
      proof (cases "cur rq = d \<or> cur rq = a")
        case False
        with True plain body(8) run have
          "getstr_loop m str d a (Suc iq) (tl rq) (vq @ [cur rq]) = Inr (v, i', r')" by simp
        with True show thesis by (rule char)
      next
        case d: True
        with True plain body(7) run have "(v, i', r') = (vq, Suc iq, tl rq)" by simp
        with True show thesis by (rule delim)
      qed
    next
      case unr: False
      show thesis
      proof (cases "d = nul")
        case True
        with unr body(3) run have "(v, i', r') = (vq, iq, rq)" by simp
        with unr True show thesis by (rule blank)
      next
        case False
        with unr body(4) run obtain t c where "nonread_loop d a (rq @ nul # m) [] = Some (t, c)"
          by (cases "nonread_loop d a (rq @ nul # m) []") auto
        with unr False show thesis by (rule unread)
      qed
    qed
  qed
qed

lemma getstr_step:
  assumes run: "getstr_loop m str d a i r val = Inr (v, i', r')" and ne: "r \<noteq> []"
  obtains (stop) "length v + length r' \<le> length val + length r"
      "length r' < length r \<or> (r' = r \<and> d = nul \<and> \<not> isRead (hd r))"
  | (past) u t where "r' = []" "v = u @ t" "\<forall>c \<in> set t. \<not> isRead c" "length u \<le> length val + length r"
  | (go_on) i2 r2 val2 where "getstr_loop m str d a i2 r2 val2 = Inr (v, i', r')"
      "length r2 < length r" "length val2 + length r2 \<le> length val + length r"
proof -
  from run ne obtain vq iq rq where uq: "unquote str i r val = Inr (vq, iq, rq)"
    by (auto simp: getstr_loop.simps [of m str d a i r val] split: sum.splits)
  have len: "length vq + length rq \<le> length val + length r" and le: "length rq \<le> length r"
    and same: "length rq < length r \<or> (vq, iq, rq) = (val, i, r)"
    using unquote_len [OF uq] by auto
  note body = getstr_body [OF ne uq, where m = m and d = d and a = a]
  from run ne uq show thesis
  proof (cases rule: getstr_branches)
    case (nested vo io ro)
    then have "rq \<noteq> []" by (auto intro: cur_read_nonempty)
    moreover from nested this have "length vo + length ro = length vq + length rq"
      by (auto dest: scan_open_len)
    ultimately show thesis using go_on [OF nested(2)] scan_open_shorter [OF nested(1)] len le by simp
  next
    case blank
    then show thesis using stop same len ne by (cases r) auto
  next
    case (unread t c)
    show thesis
    proof (cases "c = d \<or> c = a")
      case True
      with run body(5) unread have fin: "v = vq" "r' = drop (Suc (length t)) rq" by auto
      have "length r' < length r" using fin(2) le ne by simp (cases r; simp)
      then show thesis using stop fin len by simp
    next
      case False
      then have tne: "t \<noteq> []" using nonread_moves [OF unread(3)] unread(1) by blast
      from run body(6) unread False have rec:
        "getstr_loop m str d a (iq + length t) (drop (length t) rq) (vq @ t) = Inr (v, i', r')"
        by auto
      show thesis
      proof (cases "drop (length t) rq = []")
        case True
        with rec have "v = vq @ t" "r' = []" by auto
        moreover have "\<forall>x \<in> set t. \<not> isRead x" using nonread_loop_progress [OF unread(3)] by auto
        ultimately show thesis using past len by auto
      next
        case False
        then show thesis using go_on [OF rec] tne len le by (cases t) auto
      qed
    qed
  next
    case delim
    then show thesis using stop len le cur_read_nonempty [of rq] by (cases rq) auto
  next
    case char
    then show thesis using go_on [OF char(2)] len le cur_read_nonempty [of rq] by (cases rq) auto
  qed
qed

lemma getstr_loop_len [len_rules]:
  "getstr_loop m str d a i r val = Inr (v, i', r') \<Longrightarrow>
     length r' \<le> length r \<and> length (pop_unread v) + length r' \<le> length val + length r \<and>
     (r' \<noteq> [] \<longrightarrow> length v + length r' \<le> length val + length r)"
proof (induction r arbitrary: i val rule: length_induct)
  case (1 r)
  show ?case
  proof (cases "r = []")
    case True
    with "1.prems" show ?thesis by (auto simp: pop_unread_len)
  next
    case False
    from "1.prems" False show ?thesis
    proof (cases rule: getstr_step)
      case stop
      then show ?thesis using pop_unread_len [of v] False by auto
    next
      case (past u t)
      then show ?thesis using pop_unread_len [of u] by simp
    next
      case (go_on i2 r2 val2)
      with "1.IH" have "length r' \<le> length r2 \<and>
          length (pop_unread v) + length r' \<le> length val2 + length r2 \<and>
          (r' \<noteq> [] \<longrightarrow> length v + length r' \<le> length val2 + length r2)" by blast
      with go_on show ?thesis by linarith
    qed
  qed
qed

lemma getstr_loop_progress:
  assumes run: "getstr_loop m str d a i (c # r) val = Inr (v, i', r')" and "isRead c"
  shows "length r' \<le> length r"
  using run list.distinct(2)
proof (cases rule: getstr_step)
  case (go_on i2 r2 val2)
  then show ?thesis using getstr_loop_len [OF go_on(1)] by simp
qed (use assms(2) in auto)

text \<open>
  \<open>_getstrval\<close>: the value, the text behind the delimiter, its position, the position of
  the value, and whether text is left.
\<close>

definition getstrval :: "(string \<Rightarrow> string) \<Rightarrow> string \<Rightarrow> char \<Rightarrow> char
    \<Rightarrow> exn + (string \<times> string \<times> int \<times> int \<times> bool)" where
  "getstrval mem str delim altdelim =
     (let (r, i) = skip str; st = int i in
      if r = [] then Inr ([], [], 0, 0, False) else
      case getstr_loop (mem str) str delim altdelim i r [] of Inl e \<Rightarrow> Inl e
      | Inr (val, i, r) \<Rightarrow>
          (if r \<noteq> [] then Inr (val, r, int i, st, True)
           else Inr (pop_unread val, [], int (length str), st, False)))"

text \<open>A scanner of the format leaves no more than it was given, and moves on.\<close>

lemma getstrval_len [len_rules]:
  assumes "getstrval mem str d a = Inr (v, r, i, st, fnd)"
  shows "length v + length r \<le> length str" and "r \<noteq> [] \<Longrightarrow> length r < length str"
    and "fnd \<longleftrightarrow> r \<noteq> []"
proof -
  obtain r0 i0 where sk: "skip str = (r0, i0)" by force
  with skip_length [of str] have le: "length r0 \<le> length str" by simp
  have "length v + length r \<le> length str \<and> (r \<noteq> [] \<longrightarrow> length r < length str) \<and> (fnd \<longleftrightarrow> r \<noteq> [])"
  proof (cases r0)
    case Nil
    with assms sk show ?thesis by (simp add: getstrval_def)
  next
    case (Cons c r1)
    with sk skip_first [of str c r1] have c: "isRead c" by simp
    from assms sk Cons obtain w k where
      w: "getstr_loop (mem str) str d a i0 (c # r1) [] = Inr (w, k, r)" and
      v: "v = (if r \<noteq> [] then w else pop_unread w)" "fnd \<longleftrightarrow> r \<noteq> []"
      by (auto simp: getstrval_def Let_def split: sum.splits if_splits)
    show ?thesis
      using getstr_loop_len [OF w] getstr_loop_progress [OF w c] v le Cons by auto
  qed
  then show "length v + length r \<le> length str" "r \<noteq> [] \<Longrightarrow> length r < length str"
    "fnd \<longleftrightarrow> r \<noteq> []" by auto
qed

section \<open>One key and its value\<close>

text \<open>
  \<open>_getkeyval\<close>: key, value, rest, start of the rest, of the value and of the key. The
  two handlers build a relocated \<open>format_error\<close> but throw the one they caught, so the
  scanner's error leaves unchanged. \<open>in.find(dpos)\<close> (line 466) looks for the character
  of code \<open>dpos\<close>.
\<close>

definition getkeyval :: "(string \<Rightarrow> string) \<Rightarrow> string
    \<Rightarrow> exn + (string \<times> string \<times> string \<times> int \<times> int \<times> int)" where
  "getkeyval mem inp =
     (case getstrval mem inp CHR ''='' nul of Inl e \<Rightarrow> Inl e
      | Inr (key, rstr, dpos, keystart, eq_found) \<Rightarrow>
      if key \<noteq> [] \<and> hd key = CHR '';'' then
        Inr ([], [], tl key @ [] @ rstr, keystart + 1, -1, -1)
      else if key = [] \<and> fst (skip rstr) \<noteq> [] then
        Inl (Format_error ''Value has no Key'' [] inp
          (case string_find (char_of (nat (dpos mod 256))) inp of None \<Rightarrow> -1 | Some p \<Rightarrow> int p))
      else if key \<noteq> [] \<and> \<not> eq_found then
        Inl (Format_error (''Key '' @ [squote] @ key @ [squote] @ '' has no value'') [] inp
          (keystart + int (length key)))
      else
        (case getstrval mem rstr CHR '';'' newline of Inl e \<Rightarrow> Inl e
         | Inr (value, rstr', rpos, valstart, _) \<Rightarrow>
             let rr = (if rpos \<ge> 0 then dpos + rpos else int (length inp))
             in Inr (key, value, rstr', rr, valstart, keystart)))"

lemma getkeyval_len [len_rules]:
  assumes "getkeyval mem inp = Inr (k, v, r, rr, vs, ks)"
  shows "length v \<le> length inp" and "r \<noteq> [] \<Longrightarrow> length r < length inp"
proof -
  from assms obtain key rstr dpos kst fnd where
    sc: "getstrval mem inp CHR ''='' nul = Inr (key, rstr, dpos, kst, fnd)"
    by (auto simp: getkeyval_def split: sum.splits)
  note kl = getstrval_len [OF sc]
  have "length v \<le> length inp \<and> (r \<noteq> [] \<longrightarrow> length r < length inp)"
  proof (cases "key \<noteq> [] \<and> hd key = CHR '';''")
    case True
    with assms sc have "v = []" "r = tl key @ rstr" by (auto simp: getkeyval_def)
    with True kl(1) show ?thesis by (cases key) auto
  next
    case False
    with assms sc obtain rp vs' fnd' where
      vc: "getstrval mem rstr CHR '';'' newline = Inr (v, r, rp, vs', fnd')"
      by (auto simp: getkeyval_def Let_def split: sum.splits if_splits)
    note vl = getstrval_len [OF vc]
    show ?thesis
      using kl vl by (cases "rstr = []"; cases "r = []") auto
  qed
  then show "length v \<le> length inp" "r \<noteq> [] \<Longrightarrow> length r < length inp" by auto
qed

end
