(* ===== verification/Chunk.thy ===== *)
theory Chunk
  imports Scanner StdMap
begin

text \<open>
  The data objects \<open>chunkdat\<close>, \<open>chunk_abstract\<close> and its three kinds
  (src/include/filedat.hpp, src/src/filedat.cpp), the deep copy, the text form \<open>strval\<close>
  and the assignment from text \<open>set(std::string)\<close>, which is the parser of the ZFD format.

  A \<open>chunk_abstract*\<close> is owned by one \<open>chunkdat\<close>, so the objects form a tree and a null
  pointer is \<open>None\<close>. The \<open>filedat*\<close> kept for messages is an address, since it is not
  owned. The member functions take the object and return it updated; a call that throws
  returns the exception beside the object it leaves behind.
\<close>

section \<open>Data\<close>

datatype typeEnum = NoneT | StringT | MapT | ListT

datatype chunkdat =
    Chunkdat (m_parent: "nat option") (m_offset: int) (m_achunk: "chunk_abstract option")
and chunk_abstract =
    Chunk_string (chunk_val: string)
  | Chunk_map (chunk_values: "(string \<times> chunkdat) list")
  | Chunk_list (chunk_items: "chunkdat list")

fun abstract_type :: "chunk_abstract \<Rightarrow> typeEnum" where
  "abstract_type (Chunk_string s) = StringT"
| "abstract_type (Chunk_map m) = MapT"
| "abstract_type (Chunk_list l) = ListT"

definition chunk_type :: "chunkdat \<Rightarrow> typeEnum" where
  "chunk_type c = (case m_achunk c of Some a \<Rightarrow> abstract_type a | None \<Rightarrow> NoneT)"

definition new_chunkdat :: chunkdat where
  "new_chunkdat = Chunkdat None 0 None"

definition clear_chunk :: "chunkdat \<Rightarrow> chunkdat" where
  "clear_chunk c = Chunkdat (m_parent c) (m_offset c) None"

text \<open>Structural induction over the tree, one case per kind of object.\<close>

lemma chunk_induct [case_names none string map list]:
  assumes "\<And>p off. P (Chunkdat p off None)"
    and "\<And>p off s. P (Chunkdat p off (Some (Chunk_string s)))"
    and "\<And>p off m. (\<And>k c. (k, c) \<in> set m \<Longrightarrow> P c) \<Longrightarrow> P (Chunkdat p off (Some (Chunk_map m)))"
    and "\<And>p off l. (\<And>c. c \<in> set l \<Longrightarrow> P c) \<Longrightarrow> P (Chunkdat p off (Some (Chunk_list l)))"
  shows "P c"
proof (rule chunkdat.induct [where ?P1.0 = P and ?P2.0 = "\<lambda>a. \<forall>p off. P (Chunkdat p off (Some a))"])
  show "P (Chunkdat p off a)" if "\<And>b. b \<in> set_option a \<Longrightarrow> \<forall>p off. P (Chunkdat p off (Some b))"
    for p off a
    using that assms(1) by (cases a) auto
  show "\<forall>p off. P (Chunkdat p off (Some (Chunk_map m)))"
    if "\<And>x c. x \<in> set m \<Longrightarrow> c \<in> Basic_BNFs.snds x \<Longrightarrow> P c" for m
    using that assms(3) by (metis snds.intros snd_conv)
qed (use assms in auto)

lemma chunk_cases [case_names none string map list]:
  obtains p off where "c = Chunkdat p off None"
  | p off s where "c = Chunkdat p off (Some (Chunk_string s))"
  | p off m where "c = Chunkdat p off (Some (Chunk_map m))"
  | p off l where "c = Chunkdat p off (Some (Chunk_list l))"
  by (induction c rule: chunk_induct) blast+

lemma chunk_type_simps [simp]:
  "chunk_type (Chunkdat p off None) = NoneT"
  "chunk_type (Chunkdat p off (Some a)) = abstract_type a"
  by (simp_all add: chunk_type_def)

section \<open>Deep copy\<close>

text \<open>
  \<open>set(chunkdat const&)\<close> and the copy constructor: a fresh tree with the same trace
  information, built entry by entry; map entries go through \<open>insert\<close>.
\<close>

fun copy_chunk :: "chunkdat \<Rightarrow> chunkdat"
  and copy_values :: "(string \<times> chunkdat) list \<Rightarrow> (string \<times> chunkdat) list \<Rightarrow> (string \<times> chunkdat) list"
  and copy_items :: "chunkdat list \<Rightarrow> chunkdat list \<Rightarrow> chunkdat list" where
  "copy_chunk (Chunkdat p off a) = Chunkdat p off
     (case a of None \<Rightarrow> None
      | Some (Chunk_map m) \<Rightarrow> Some (Chunk_map (copy_values m []))
      | Some (Chunk_list l) \<Rightarrow> Some (Chunk_list (copy_items l []))
      | Some (Chunk_string s) \<Rightarrow> Some (Chunk_string s))"
| "copy_values [] tch = tch"
| "copy_values ((k, c) # m) tch = copy_values m (fst (map_insert k (copy_chunk c) tch))"
| "copy_items [] tch = tch"
| "copy_items (c # l) tch = copy_items l (tch @ [copy_chunk c])"

text \<open>
  The well-formed trees: every map is in the order \<open>std::map\<close> keeps. Every object the
  library builds is one.
\<close>

fun wf_chunk :: "chunkdat \<Rightarrow> bool"
  and wf_values :: "(string \<times> chunkdat) list \<Rightarrow> bool"
  and wf_items :: "chunkdat list \<Rightarrow> bool" where
  "wf_chunk (Chunkdat p off a) =
     (case a of Some (Chunk_map m) \<Rightarrow> map_ok m \<and> wf_values m
      | Some (Chunk_list l) \<Rightarrow> wf_items l
      | Some (Chunk_string s) \<Rightarrow> True
      | None \<Rightarrow> True)"
| "wf_values [] = True"
| "wf_values ((k, c) # m) = (wf_chunk c \<and> wf_values m)"
| "wf_items [] = True"
| "wf_items (c # l) = (wf_chunk c \<and> wf_items l)"

lemma wf_values_iff: "wf_values m \<longleftrightarrow> (\<forall>(k, c) \<in> set m. wf_chunk c)"
  by (induction m) auto

lemma wf_items_iff: "wf_items l \<longleftrightarrow> (\<forall>c \<in> set l. wf_chunk c)"
  by (induction l) auto

lemma copy_items_id: "(\<And>c. c \<in> set l \<Longrightarrow> copy_chunk c = c) \<Longrightarrow> copy_items l tch = tch @ l"
  by (induction l arbitrary: tch) auto

lemma copy_values_id:
  "map_ok (tch @ m) \<Longrightarrow> (\<And>k c. (k, c) \<in> set m \<Longrightarrow> copy_chunk c = c) \<Longrightarrow>
     copy_values m tch = tch @ m"
proof (induction m arbitrary: tch)
  case (Cons p m)
  obtain k c where p: "p = (k, c)" by force
  with Cons.prems have "\<forall>x \<in> map_keys tch. x < k" "copy_chunk c = c"
    by (auto simp: map_ok_def map_keys_def sorted_wrt_append)
  moreover have "copy_values m (tch @ [(k, c)]) = (tch @ [(k, c)]) @ m"
    using Cons.prems p by (intro Cons.IH) auto
  ultimately show ?case using p by (simp add: map_insert_append)
qed simp

lemma copy_chunk_id: "wf_chunk c \<Longrightarrow> copy_chunk c = c"
proof (induction c rule: chunk_induct)
  case (map p off m)
  then have "copy_values m [] = [] @ m"
    by (intro copy_values_id) (auto simp: wf_values_iff)
  then show ?case by simp
next
  case (list p off l)
  then have "copy_items l [] = [] @ l"
    by (intro copy_items_id) (auto simp: wf_items_iff)
  then show ?case by simp
qed auto

section \<open>Text form\<close>

fun repeatString :: "string \<Rightarrow> nat \<Rightarrow> string" where
  "repeatString str 0 = []"
| "repeatString str (Suc n) = str @ repeatString str n"

text \<open>\<open>escape\<close> (lines 19-29): a backslash in front of each occurrence of \<open>c\<close>, found in turn.\<close>

function escape_loop :: "string \<Rightarrow> string \<Rightarrow> char \<Rightarrow> string" where
  "escape_loop pre str c =
     (case string_find c str of None \<Rightarrow> pre @ str
      | Some pos \<Rightarrow> escape_loop (pre @ take pos str @ [bslash, c]) (drop (Suc pos) str) c)"
  by pat_completeness auto
termination
  by (relation "measure (\<lambda>(pre, str, c). length str)") (auto dest: string_find_Some)

definition escape :: "string \<Rightarrow> char \<Rightarrow> string" where
  "escape str c = escape_loop [] str c"

declare escape_loop.simps [simp del]

lemma escape_loop_eq: "escape_loop pre str c = pre @ concat (map (\<lambda>x. if x = c then [bslash, x] else [x]) str)"
proof (induction str arbitrary: pre rule: length_induct)
  case (1 str)
  show ?case
  proof (cases "string_find c str")
    case None
    then have "c \<notin> set str" by simp
    then have "concat (map (\<lambda>x. if x = c then [bslash, x] else [x]) str) = str"
      by (induction str) auto
    with None show ?thesis by (simp add: escape_loop.simps [of pre str c])
  next
    case (Some pos)
    let ?f = "\<lambda>x. if x = c then [bslash, x] else [x]"
    note found = string_find_Some [OF Some]
    define u v where "u = take pos str" and "v = drop (Suc pos) str"
    have split: "str = u @ c # v"
      unfolding u_def v_def using found by (metis id_take_nth_drop)
    have same: "concat (map ?f t) = t" if "c \<notin> set t" for t using that by (induction t) auto
    have "concat (map ?f str) = u @ [bslash, c] @ concat (map ?f v)"
      using found same [of u] unfolding split by (simp add: u_def)
    moreover have less: "length v < length str" using found by (simp add: v_def) arith
    moreover have "escape_loop pre str c = (pre @ u @ [bslash, c]) @ concat (map ?f v)"
      using Some "1.IH" less by (simp add: escape_loop.simps [of pre str c] flip: u_def v_def)
    ultimately show ?thesis by simp
  qed
qed

lemma escape_simps [simp]:
  "escape [] c = []"
  "escape (x # xs) c = (if x = c then bslash # x # escape xs c else x # escape xs c)"
  by (simp_all add: escape_def escape_loop_eq)

text \<open>\<open>std::string::erase(iterator)\<close>: one character.\<close>

definition erase_at :: "nat \<Rightarrow> string \<Rightarrow> string" where
  "erase_at i s = take i s @ drop (Suc i) s"

fun strval :: "nat \<Rightarrow> string \<Rightarrow> chunkdat \<Rightarrow> string"
  and strval_values :: "nat \<Rightarrow> string \<Rightarrow> (string \<times> chunkdat) list \<Rightarrow> string"
  and strval_items :: "nat \<Rightarrow> string \<Rightarrow> chunkdat list \<Rightarrow> string" where
  "strval alignment aligner (Chunkdat p off a) =
     (case a of
        Some (Chunk_string s) \<Rightarrow> s
      | Some (Chunk_map m) \<Rightarrow>
          (if m = [] then ''{}''
           else ''{'' @ [newline] @ strval_values alignment aligner m
                @ repeatString aligner alignment @ ''}'')
      | Some (Chunk_list l) \<Rightarrow>
          (if l = [] then ''[]''
           else (let ret = ''['' @ [newline] @ strval_items alignment aligner l
                 in erase_at (length ret - 2) ret @ repeatString aligner alignment @ '']''))
      | None \<Rightarrow> [])"
| "strval_values alignment aligner [] = []"
| "strval_values alignment aligner ((k, c) # m) =
     repeatString aligner (alignment + 1) @ k @ '' = '' @
     (if chunk_type c = StringT then [dquote] @ escape (strval 0 [tab] c) dquote @ [dquote]
      else strval (alignment + 1) aligner c) @ [newline] @
     strval_values alignment aligner m"
| "strval_items alignment aligner [] = []"
| "strval_items alignment aligner (c # l) =
     repeatString aligner (alignment + 1) @
     (if chunk_type c = StringT then [dquote] @ escape (strval 0 [tab] c) dquote @ [dquote]
      else strval (alignment + 1) aligner c) @ '','' @ [newline] @
     strval_items alignment aligner l"

lemma strval_list:
  assumes "l \<noteq> []"
  shows "\<exists>body. strval_items al ws l = body @ '','' @ [newline] \<and>
    strval al ws (Chunkdat p off (Some (Chunk_list l))) =
      ''['' @ [newline] @ body @ [newline] @ repeatString ws al @ '']''"
proof -
  have "\<exists>body. strval_items al ws l = body @ '','' @ [newline]"
    using assms by (induction l rule: induct_list012) (auto intro: exI)
  then obtain body where "strval_items al ws l = body @ '','' @ [newline]" ..
  with assms show ?thesis by (simp add: erase_at_def Let_def numeral_2_eq_2)
qed

section \<open>Assignment from text\<close>

text \<open>
  \<open>chunkdat::set(std::string const&, int, filedat*)\<close> (lines 494-621). The object is
  cleared first, so its former content does not matter; what is returned is the
  exception, if one leaves the call, and the object as it then is. A constructor that
  throws leaves no object.
\<close>

definition from_set :: "exn option \<times> chunkdat \<Rightarrow> exn + chunkdat" where
  "from_set res = (case fst res of None \<Rightarrow> Inr (snd res) | Some e \<Rightarrow> Inl e)"

lemma text_shrinks:
  assumes "getstrval mem inp d a = Inr (str, rest, i, j, f)" and "tl str \<noteq> []"
  shows "length (butlast (tl str)) < length inp - 1"
  using getstrval_len(1) [OF assms(1)] assms(2)
  by (cases str; cases "tl str") auto

function (sequential) set_str :: "(string \<Rightarrow> string) \<Rightarrow> string \<Rightarrow> int \<Rightarrow> nat option \<Rightarrow> exn option \<times> chunkdat"
  and map_loop :: "(string \<Rightarrow> string) \<Rightarrow> string \<Rightarrow> int \<Rightarrow> nat option \<Rightarrow> int \<Rightarrow> string
    \<Rightarrow> (string \<times> chunkdat) list \<Rightarrow> exn option \<times> (string \<times> chunkdat) list"
  and list_loop :: "(string \<Rightarrow> string) \<Rightarrow> string \<Rightarrow> int \<Rightarrow> nat option \<Rightarrow> int \<Rightarrow> string
    \<Rightarrow> chunkdat list \<Rightarrow> exn option \<times> chunkdat list" where
  "set_str mem inp offset parent =
     (case getstrval mem inp nul nul of Inl e \<Rightarrow> (Some e, Chunkdat parent offset None)
      | Inr (str, rest, i, j, _) \<Rightarrow>
      if str = [] then (None, Chunkdat parent offset (Some (Chunk_string [])))
      else if hd str = CHR ''{'' then
        (let p = skip rest in
         if fst p \<noteq> [] then
           (Some (Format_error ''Unexpected char'' [] inp (i + int (snd p))), Chunkdat parent offset None)
         else if tl str = [] then (Some Undefined, Chunkdat parent offset None)
         else
           (let str = butlast (tl str); i = j + 1 in
            if fst (skip str) = [] then (None, Chunkdat parent offset (Some (Chunk_map [])))
            else (case map_loop mem inp offset parent i str [] of (e, m) \<Rightarrow>
                    (e, Chunkdat parent offset (Some (Chunk_map m))))))
      else if hd str = CHR ''['' then
        (let p = skip rest in
         if fst p \<noteq> [] then
           (Some (Format_error ''Unexpected char'' [] inp (i + int (snd p))), Chunkdat parent offset None)
         else if tl str = [] then (Some Undefined, Chunkdat parent offset None)
         else
           (let str = butlast (tl str); i = j + 1 in
            if fst (skip str) = [] then (None, Chunkdat parent offset (Some (Chunk_list [])))
            else (case list_loop mem inp offset parent i str [] of (e, l) \<Rightarrow>
                    (e, Chunkdat parent offset (Some (Chunk_list l))))))
      else (None, Chunkdat parent offset (Some (Chunk_string inp))))"
| "map_loop mem inp offset parent i str m =
     (if cur (fst (skip str)) = CHR ''='' then
        (Some (Format_error ''Value has no key'' [] inp (i + int (snd (skip str)))), m)
      else case getkeyval mem str of
        Inl e \<Rightarrow> (Some (catch_format (\<lambda>w src p. Format_error (cstr w) (cstr src) inp (i + p)) e), m)
      | Inr (key, value, rest, rr, vs, ks) \<Rightarrow>
        (let valstart = i + vs; keystart = i + ks; i = i + rr;
             handler = catch_format (\<lambda>w src p. Format_error (cstr w) [] inp (p + valstart))
         in if key = [] then
              (if rest = [] then (None, m) else map_loop mem inp offset parent i rest m)
            else
              (case from_set (set_str mem value (offset + valstart) parent) of
                 Inl e \<Rightarrow> (Some (handler e), m)
               | Inr chk \<Rightarrow>
                 (case map_insert key chk m of (m', second) \<Rightarrow>
                    if \<not> second then
                      (Some (handler (Format_error (''Key '' @ [squote] @ key @ [squote] @ '' already present'')
                         [] inp keystart)), m')
                    else if rest = [] then (None, m')
                    else map_loop mem inp offset parent i rest m'))))"
| "list_loop mem inp offset parent i str l =
     (case getstrval mem str CHR '','' CHR '';'' of
        Inl e \<Rightarrow> (Some (catch_format (\<lambda>w src p. Format_error (cstr w) (cstr src) inp (p + i)) e), l)
      | Inr (value, rest, rp, vs, _) \<Rightarrow>
        (let valstart = i + vs; i = i + rp in
         (case from_set (set_str mem value (offset + valstart) parent) of
            Inl e \<Rightarrow> (Some (catch_format (\<lambda>w src p. Format_error (cstr w) (cstr src) inp (p + valstart)) e), l)
          | Inr chk \<Rightarrow>
             (if rest = [] then (None, l @ [chk])
              else list_loop mem inp offset parent i rest (l @ [chk])))))"
  by pat_completeness auto

termination
proof (relation "measure (\<lambda>x. case x of Inl (mem, inp, off, p) \<Rightarrow> 2 * length inp
      | Inr (Inl (mem, inp, off, p, i, str, m)) \<Rightarrow> 2 * length str + 1
      | Inr (Inr (mem, inp, off, p, i, str, l)) \<Rightarrow> 2 * length str + 1)", goal_cases)
qed (auto dest: getstrval_len getkeyval_len text_shrinks)

declare set_str.simps [simp del] map_loop.simps [simp del] list_loop.simps [simp del]

end
