(* ===== verification/Nesting.thy ===== *)
theory Nesting
  imports Chunk
begin

text \<open>
  What the bracket and quote scanners of \<open>_getstrval\<close> do: the wrapping counters against a
  depth that is a natural number, the text that passes a bracketed scan unchanged, and the
  reading of an escaped, quoted string.
\<close>

section \<open>Reference for the bracket counter\<close>

function scan_ref :: "char \<Rightarrow> char \<Rightarrow> string \<Rightarrow> nat \<Rightarrow> nat \<Rightarrow> nat \<Rightarrow> string \<Rightarrow> string
    \<Rightarrow> exn + (string \<times> nat \<times> string)" where
  "scan_ref op cl str j d i [] val = Inl (Format_error ''Brace does not close'' [] str (int j))"
| "scan_ref op cl str j d i (c # r) val =
     (if c = cl then
        (case d of 0 \<Rightarrow> Inr (val @ [c], Suc i, r)
         | Suc d' \<Rightarrow> scan_ref op cl str j d' (Suc i) r (val @ [c]))
      else if c = op then scan_ref op cl str j (Suc d) (Suc i) r (val @ [c])
      else if c = dquote then
        (case quoted_raw dquote (Suc i) r (val @ [c]) of
           None \<Rightarrow> Inl (Format_error ''Double quote does not close'' [] str (int i))
         | Some (val', i', r') \<Rightarrow> scan_ref op cl str j d i' r' val')
      else if c = squote then
        (case quoted_raw squote (Suc i) r (val @ [c]) of
           None \<Rightarrow> Inl (Format_error ''Single quote does not close'' [] str (int i))
         | Some (val', i', r') \<Rightarrow> scan_ref op cl str j d i' r' val')
      else scan_ref op cl str j d (Suc i) r (val @ [c]))"
  by pat_completeness auto
termination
  by (relation "measure (\<lambda>(op, cl, str, j, d, i, r, val). length r)")
    (auto dest: quoted_raw_len)

lemma counter_zero:
  assumes "d < 2 ^ 32"
  shows "(of_nat d :: 32 word) = 0 \<longleftrightarrow> d = 0"
  using assms nat_dvd_not_less [of d "2 ^ 32"] by (auto simp: word_of_nat_eq_0_iff)

lemma quoted_raw_bound:
  "quoted_raw q i r val = Some (v, i', r') \<Longrightarrow> d + Suc (length r) < k \<Longrightarrow> d + length r' < k"
  using quoted_raw_len [of q i r val v i' r'] by simp

text \<open>
  The two branches of the code agree with the reference as long as the text cannot hold
  2^32 brackets: the map's counter is the depth, the list's its negative.
\<close>

lemma scan_nested_map:
  "d + length r < 2 ^ 32 \<Longrightarrow>
     scan_nested CHR ''}'' CHR ''{'' CHR ''}'' str j (of_nat d) i r val =
     scan_ref CHR ''{'' CHR ''}'' str j d i r val"
proof (induction "CHR ''{''" "CHR ''}''" str j d i r val rule: scan_ref.induct)
  case (2 str j d i c r val)
  have zero: "(of_nat d :: 32 word) = 0 \<longleftrightarrow> d = 0" using 2(6) by (intro counter_zero) simp
  have up: "(of_nat d :: 32 word) + 1 = of_nat (Suc d)" by simp
  consider "c = CHR ''}''" | "c = CHR ''{''" | "c = dquote" | "c = squote"
    | "c \<notin> {CHR ''}'', CHR ''{'', dquote, squote}" by blast
  then show ?case
  proof cases
    case 1
    then show ?thesis using "2.hyps"(1) "2.prems" zero by (cases d) auto
  next
    case 2
    then show ?thesis using "2.hyps"(2) "2.prems" by (simp add: up del: of_nat_Suc)
  next
    case 3
    then show ?thesis using "2.hyps"(3) "2.prems" quoted_raw_bound
      by (cases "quoted_raw dquote (Suc i) r (val @ [c])") auto
  next
    case 4
    then show ?thesis using "2.hyps"(4) "2.prems" quoted_raw_bound
      by (cases "quoted_raw squote (Suc i) r (val @ [c])") auto
  next
    case 5
    then show ?thesis using "2.hyps"(5) "2.prems" by simp
  qed
qed simp

lemma scan_nested_list:
  "d + length r < 2 ^ 32 \<Longrightarrow>
     scan_nested CHR ''['' CHR '']'' CHR '']'' str j (- of_nat d) i r val =
     scan_ref CHR ''['' CHR '']'' str j d i r val"
proof (induction "CHR ''[''" "CHR '']''" str j d i r val rule: scan_ref.induct)
  case (2 str j d i c r val)
  have zero: "(of_nat d :: 32 word) = 0 \<longleftrightarrow> d = 0" using 2(6) by (intro counter_zero) simp
  have down: "- (of_nat d :: 32 word) - 1 = - of_nat (Suc d)"
    and up: "1 - (of_nat (Suc k) :: 32 word) = - of_nat k" for k by simp_all
  consider "c = CHR '']''" | "c = CHR ''[''" | "c = dquote" | "c = squote"
    | "c \<notin> {CHR '']'', CHR ''['', dquote, squote}" by blast
  then show ?case
  proof cases
    case 1
    show ?thesis
    proof (cases d)
      case 0
      with 1 show ?thesis by simp
    next
      case (Suc k)
      with zero have "- (of_nat (Suc k) :: 32 word) \<noteq> 0" by (simp del: of_nat_Suc)
      with 1 Suc "2.hyps"(1) [OF 1 Suc] "2.prems" show ?thesis by (simp add: up del: of_nat_Suc)
    qed
  next
    case 2
    then show ?thesis using "2.hyps"(2) "2.prems" by (simp add: down del: of_nat_Suc)
  next
    case 3
    then show ?thesis using "2.hyps"(3) "2.prems" quoted_raw_bound
      by (cases "quoted_raw dquote (Suc i) r (val @ [c])") auto
  next
    case 4
    then show ?thesis using "2.hyps"(4) "2.prems" quoted_raw_bound
      by (cases "quoted_raw squote (Suc i) r (val @ [c])") auto
  next
    case 5
    then show ?thesis using "2.hyps"(5) "2.prems" by simp
  qed
qed simp

section \<open>Escaped text between quotes\<close>

lemma escape_hd:
  "hd (escape s dquote @ dquote # r) = dquote \<longleftrightarrow> s = []"
  by (cases s) auto

lemma quoted_escape:
  "s = [] \<or> last s \<noteq> bslash \<Longrightarrow>
     quoted dquote i (escape s dquote @ dquote # r) val =
       Some (val @ s, i + length (escape s dquote) + 1, r)"
proof (induction s arbitrary: i val)
  case (Cons x xs)
  show ?case
  proof (cases "x = dquote")
    case True
    moreover from Cons.prems have "xs = [] \<or> last xs \<noteq> bslash" by (auto split: if_splits)
    ultimately show ?thesis using Cons.IH by simp
  next
    case False
    moreover from this have "\<not> (x = bslash \<and> xs = [])" using Cons.prems by auto
    moreover from Cons.prems have "xs = [] \<or> last xs \<noteq> bslash" by (auto split: if_splits)
    ultimately show ?thesis using Cons.IH by (auto simp: escape_hd)
  qed
qed simp

lemma quoted_raw_escape:
  "s = [] \<or> last s \<noteq> bslash \<Longrightarrow>
     quoted_raw dquote i (escape s dquote @ dquote # r) val =
       Some (val @ escape s dquote @ [dquote], i + length (escape s dquote) + 1, r)"
proof (induction s arbitrary: i val)
  case (Cons x xs)
  show ?case
  proof (cases "x = dquote")
    case True
    moreover from Cons.prems have "xs = [] \<or> last xs \<noteq> bslash" by (auto split: if_splits)
    ultimately show ?thesis using Cons.IH by simp
  next
    case False
    moreover from this have "\<not> (x = bslash \<and> xs = [])" using Cons.prems by auto
    moreover from Cons.prems have "xs = [] \<or> last xs \<noteq> bslash" by (auto split: if_splits)
    ultimately show ?thesis using Cons.IH by (auto simp: escape_hd)
  qed
qed simp

text \<open>A backslash at the end joins the closing quote to the text: reading goes on behind it.\<close>

lemma escape_runs_on:
  assumes "s \<noteq> []" "last s = bslash"
  shows "quoted dquote i (escape s dquote @ dquote # r) val =
      quoted dquote (i + length (escape s dquote) + 1) r (val @ butlast s @ [dquote])"
    and "quoted_raw dquote i (escape s dquote @ dquote # r) val =
      quoted_raw dquote (i + length (escape s dquote) + 1) r (val @ escape s dquote @ [dquote])"
  using assms
proof (induction s arbitrary: i val)
  case (Cons x xs)
  { case 1 with Cons.IH show ?case by (cases "xs = []"; cases "x = dquote") (auto simp: escape_hd) }
  { case 2 with Cons.IH show ?case by (cases "xs = []"; cases "x = dquote") (auto simp: escape_hd) }
qed simp_all

section \<open>Text that passes a bracketed scan\<close>

definition passes :: "char \<Rightarrow> char \<Rightarrow> string \<Rightarrow> bool" where
  "passes op cl t \<longleftrightarrow> (\<forall>str j d i r val.
     scan_ref op cl str j d i (t @ r) val = scan_ref op cl str j d (i + length t) r (val @ t))"

lemma passes_Nil [intro, simp]: "passes op cl []"
  by (simp add: passes_def)

lemma passes_append [intro]: "passes op cl s \<Longrightarrow> passes op cl t \<Longrightarrow> passes op cl (s @ t)"
  by (simp add: passes_def add.assoc)

lemma passes_char: "c \<notin> {op, cl, dquote, squote} \<Longrightarrow> passes op cl [c]"
  by (simp add: passes_def)

lemma passes_plain: "(\<forall>c \<in> set t. c \<notin> {op, cl, dquote, squote}) \<Longrightarrow> passes op cl t"
proof (induction t)
  case (Cons c t)
  then have "passes op cl ([c] @ t)" by (intro passes_append passes_char) auto
  then show ?case by simp
qed simp

lemma passes_quoted:
  "s = [] \<or> last s \<noteq> bslash \<Longrightarrow> op \<noteq> dquote \<Longrightarrow> cl \<noteq> dquote \<Longrightarrow>
     passes op cl ([dquote] @ escape s dquote @ [dquote])"
  by (auto simp: passes_def quoted_raw_escape)

lemma passes_nest:
  assumes "passes op cl t" and "op \<noteq> cl"
  shows "passes op cl (op # t @ [cl])"
  using assms by (simp add: passes_def)

end
