(* ===== verification/Roundtrip.thy ===== *)
theory Roundtrip
  imports Nesting
begin

text \<open>
  Reading back what \<open>strval\<close> writes. The trees this works for are the \<open>printable\<close> ones:
  what the format cannot hold (an empty object, keys with special characters, strings
  whose first word holds a quote or a bracket, or that end in a blank or a backslash) is
  left out by the predicate. The theorem rests on one fact about the memory behind a
  string, \<open>mem_ok\<close>: some byte after the terminator is readable.
\<close>

section \<open>What the format can hold\<close>

definition mem_ok :: "(string \<Rightarrow> string) \<Rightarrow> bool" where
  "mem_ok mem \<longleftrightarrow> (\<forall>s. \<exists>c \<in> set (mem s). isRead c)"

definition blank :: "string \<Rightarrow> bool" where
  "blank ws \<longleftrightarrow> (\<forall>c \<in> set ws. \<not> isRead c)"

definition first_word :: "string \<Rightarrow> string" where
  "first_word s = takeWhile isRead (fst (skip s))"

definition plain_text :: "string \<Rightarrow> bool" where
  "plain_text s \<longleftrightarrow> s = [] \<or>
     (isRead (last s) \<and> last s \<noteq> bslash \<and>
      (\<forall>c \<in> set (first_word s). c \<notin> {dquote, squote, CHR ''{'', CHR ''[''}))"

definition plain_key :: "string \<Rightarrow> bool" where
  "plain_key k \<longleftrightarrow> k \<noteq> [] \<and> hd k \<noteq> CHR '';'' \<and>
     (\<forall>c \<in> set k. isRead c \<and>
        c \<notin> {dquote, squote, CHR ''{'', CHR ''}'', CHR ''['', CHR '']'', CHR ''=''})"

fun printable :: "chunkdat \<Rightarrow> bool"
  and printable_values :: "(string \<times> chunkdat) list \<Rightarrow> bool"
  and printable_items :: "chunkdat list \<Rightarrow> bool" where
  "printable (Chunkdat p off a) =
     (case a of Some (Chunk_map m) \<Rightarrow> map_ok m \<and> printable_values m
      | Some (Chunk_list l) \<Rightarrow> printable_items l
      | Some (Chunk_string s) \<Rightarrow> plain_text s
      | None \<Rightarrow> False)"
| "printable_values [] = True"
| "printable_values ((k, c) # m) = (plain_key k \<and> printable c \<and> printable_values m)"
| "printable_items [] = True"
| "printable_items (c # l) = (printable c \<and> printable_items l)"

lemma printable_values_iff:
  "printable_values m \<longleftrightarrow> (\<forall>(k, c) \<in> set m. plain_key k \<and> printable c)"
  by (induction m) auto

lemma printable_items_iff: "printable_items l \<longleftrightarrow> (\<forall>c \<in> set l. printable c)"
  by (induction l) auto

text \<open>The data of a tree without its trace information.\<close>

fun untrace :: "chunkdat \<Rightarrow> chunkdat"
  and untrace_values :: "(string \<times> chunkdat) list \<Rightarrow> (string \<times> chunkdat) list"
  and untrace_items :: "chunkdat list \<Rightarrow> chunkdat list" where
  "untrace (Chunkdat p off a) = Chunkdat None 0
     (case a of None \<Rightarrow> None
      | Some (Chunk_string s) \<Rightarrow> Some (Chunk_string s)
      | Some (Chunk_map m) \<Rightarrow> Some (Chunk_map (untrace_values m))
      | Some (Chunk_list l) \<Rightarrow> Some (Chunk_list (untrace_items l)))"
| "untrace_values [] = []"
| "untrace_values ((k, c) # m) = (k, untrace c) # untrace_values m"
| "untrace_items [] = []"
| "untrace_items (c # l) = untrace c # untrace_items l"

section \<open>Blanks\<close>

lemma blank_simps [simp]:
  "blank []" "blank (c # s) \<longleftrightarrow> \<not> isRead c \<and> blank s" "blank (s @ t) \<longleftrightarrow> blank s \<and> blank t"
  by (auto simp: blank_def)

lemma blank_repeat [simp]: "blank ws \<Longrightarrow> blank (repeatString ws n)"
  by (induction n) auto

declare repeatString.simps(2) [simp del]

lemma skip_blank [simp]: "blank s \<Longrightarrow> skip s = ([], length s)"
proof -
  assume "blank s"
  then have "takeWhile (\<lambda>c. \<not> isRead c) s = s" and "dropWhile (\<lambda>c. \<not> isRead c) s = []"
    by (auto simp: blank_def)
  then show ?thesis by (simp only: skip_eq)
qed

lemma skip_loop_append [simp]:
  "blank s \<Longrightarrow> isRead c \<Longrightarrow> skip_loop i (s @ c # t) = (c # t, i + length s)"
  by (induction s arbitrary: i) auto

lemma skip_append [simp]: "blank s \<Longrightarrow> isRead c \<Longrightarrow> skip (s @ c # t) = (c # t, length s)"
  by (simp add: skip_def)

lemma skip_read [simp]: "isRead c \<Longrightarrow> skip (c # t) = (c # t, 0)"
  by (simp add: skip_def)

lemma blank_or_text:
  obtains "blank s" | u c t where "s = u @ c # t" "blank u" "isRead c"
proof (cases "blank s")
  case False
  then have "\<exists>c \<in> set s. isRead c" by (simp add: blank_def)
  then obtain u c t where "s = u @ c # t" "isRead c" "\<forall>x \<in> set u. \<not> isRead x"
    by (metis split_list_first_prop)
  then show ?thesis using that(2) by (simp add: blank_def)
qed (use that(1) in simp)

lemma nonread_loop_stops:
  "(\<forall>x \<in> set u. \<not> isRead x \<and> x \<noteq> d \<and> x \<noteq> a) \<Longrightarrow> isRead c \<or> c = d \<or> c = a \<Longrightarrow>
     nonread_loop d a (u @ c # w) tval = Some (tval @ u, c)"
  by (induction u arbitrary: tval) auto

lemma nonread_loop_total:
  assumes "\<exists>c \<in> set cs. isRead c"
  obtains u c w where "cs = u @ c # w" "isRead c \<or> c = d \<or> c = a"
    "\<forall>x \<in> set u. \<not> isRead x \<and> x \<noteq> d \<and> x \<noteq> a"
    "\<And>tval. nonread_loop d a cs tval = Some (tval @ u, c)"
proof -
  have "\<exists>c \<in> set cs. isRead c \<or> c = d \<or> c = a" using assms by blast
  from split_list_first_prop [OF this]
  obtain u c w where s: "cs = u @ c # w" "isRead c \<or> c = d \<or> c = a"
    and "\<forall>x \<in> set u. \<not> (isRead x \<or> x = d \<or> x = a)" by blast
  then have u: "\<forall>x \<in> set u. \<not> isRead x \<and> x \<noteq> d \<and> x \<noteq> a" by blast
  show thesis by (rule that [OF s u]) (simp only: s(1) nonread_loop_stops [OF u s(2)])
qed

section \<open>The printed text passes the bracket scanners\<close>

definition child_text :: "nat \<Rightarrow> string \<Rightarrow> chunkdat \<Rightarrow> string" where
  "child_text al ws c =
     (if chunk_type c = StringT then [dquote] @ escape (strval 0 [tab] c) dquote @ [dquote]
      else strval (al + 1) ws c)"

text \<open>The items of a list as they end up in the text, without the comma that is erased.\<close>

fun items_text :: "nat \<Rightarrow> string \<Rightarrow> chunkdat list \<Rightarrow> string" where
  "items_text al ws [] = []"
| "items_text al ws [c] = repeatString ws (al + 1) @ child_text al ws c @ [newline]"
| "items_text al ws (c # l) =
     repeatString ws (al + 1) @ child_text al ws c @ '','' @ [newline] @ items_text al ws l"

lemma strval_items_text:
  "l \<noteq> [] \<Longrightarrow> \<exists>body. strval_items al ws l = body @ '','' @ [newline] \<and>
     items_text al ws l = body @ [newline]"
  by (induction al ws l rule: items_text.induct) (auto simp: child_text_def)

lemma strval_nested:
  "strval al ws (Chunkdat p off (Some (Chunk_map m))) =
     ''{'' @ (if m = [] then [] else [newline] @ strval_values al ws m @ repeatString ws al) @ ''}''"
  "strval al ws (Chunkdat p off (Some (Chunk_list l))) =
     ''['' @ (if l = [] then [] else [newline] @ items_text al ws l @ repeatString ws al) @ '']''"
proof -
  show "strval al ws (Chunkdat p off (Some (Chunk_list l))) =
     ''['' @ (if l = [] then [] else [newline] @ items_text al ws l @ repeatString ws al) @ '']''"
    using strval_list [of l al ws p off] strval_items_text [of l al ws] by (cases "l = []") auto
qed simp

lemma strval_values_Cons:
  "strval_values al ws ((k, c) # m) =
     repeatString ws (al + 1) @ k @ '' = '' @ child_text al ws c @ [newline] @ strval_values al ws m"
  by (simp add: child_text_def)

declare strval_values.simps(2) [simp del] strval_values_Cons [simp]

definition brackets :: "char \<Rightarrow> char \<Rightarrow> bool" where
  "brackets op cl \<longleftrightarrow> (op, cl) = (CHR ''{'', CHR ''}'') \<or> (op, cl) = (CHR ''['', CHR '']'')"

lemma passes_brackets:
  assumes "brackets op cl" and "passes op cl t"
  shows "passes op cl (''{'' @ t @ ''}'')" and "passes op cl (''['' @ t @ '']'')"
proof -
  from assms(1) consider "op = CHR ''{''" "cl = CHR ''}''" | "op = CHR ''[''" "cl = CHR '']''"
    by (auto simp: brackets_def)
  then have "passes op cl (''{'' @ t @ ''}'') \<and> passes op cl (''['' @ t @ '']'')"
  proof cases
    case 1
    then have "passes op cl (''['' @ t @ '']'')"
      by (intro passes_append passes_char assms(2)) auto
    with 1 passes_nest [OF assms(2)] show ?thesis by simp
  next
    case 2
    then have "passes op cl (''{'' @ t @ ''}'')"
      by (intro passes_append passes_char assms(2)) auto
    with 2 passes_nest [OF assms(2)] show ?thesis by simp
  qed
  then show "passes op cl (''{'' @ t @ ''}'')" "passes op cl (''['' @ t @ '']'')" by auto
qed

lemma passes_blank: "brackets op cl \<Longrightarrow> blank ws \<Longrightarrow> passes op cl ws"
  by (rule passes_plain) (auto simp: blank_def brackets_def)

lemma passes_key: "brackets op cl \<Longrightarrow> plain_key k \<Longrightarrow> passes op cl k"
  by (rule passes_plain) (auto simp: plain_key_def brackets_def)

lemma passes_equals: "brackets op cl \<Longrightarrow> passes op cl '' = ''"
  by (rule passes_plain) (auto simp: brackets_def)

lemma plain_text_end: "plain_text s \<Longrightarrow> s = [] \<or> last s \<noteq> bslash"
  by (auto simp: plain_text_def)

lemma passes_values:
  assumes "\<And>k c al. (k, c) \<in> set m \<Longrightarrow> passes op cl (child_text al ws c)"
    and "brackets op cl" "blank ws" "printable_values m"
  shows "passes op cl (strval_values al ws m)"
  using assms
proof (induction m)
  case (Cons p m)
  obtain k c where p: "p = (k, c)" by force
  have "passes op cl (repeatString ws (al + 1))" "passes op cl [newline]"
    using Cons.prems by (auto intro: passes_blank)
  moreover have "passes op cl k" "passes op cl '' = ''" "passes op cl (child_text al ws c)"
    "passes op cl (strval_values al ws m)"
    using Cons p by (auto intro: passes_key passes_equals)
  ultimately have "passes op cl (repeatString ws (al + 1) @ k @ '' = '' @ child_text al ws c
      @ [newline] @ strval_values al ws m)"
    by (intro passes_append)
  with p show ?case by simp
qed simp

lemma passes_items:
  assumes "\<And>c al. c \<in> set l \<Longrightarrow> passes op cl (child_text al ws c)"
    and "brackets op cl" "blank ws" "printable_items l"
  shows "passes op cl (items_text al ws l)"
  using assms
proof (induction al ws l rule: items_text.induct)
  case (2 al ws c)
  then have "passes op cl (repeatString ws (al + 1))" "passes op cl [newline]"
    "passes op cl (child_text al ws c)"
    by (auto intro: passes_blank)
  then show ?case by (simp only: items_text.simps) (intro passes_append)
next
  case (3 al ws c c' l)
  then have "passes op cl (repeatString ws (al + 1))" "passes op cl [newline]"
    "passes op cl (child_text al ws c)" "passes op cl (items_text al ws (c' # l))"
    by (auto intro: passes_blank)
  moreover have "passes op cl '',''"
    using "3.prems"(2) by (intro passes_char) (auto simp: brackets_def)
  ultimately show ?case by (simp only: items_text.simps) (intro passes_append)
qed simp

lemma passes_child:
  "printable c \<Longrightarrow> brackets op cl \<Longrightarrow> blank ws \<Longrightarrow> passes op cl (child_text al ws c)"
proof (induction c arbitrary: al rule: chunk_induct)
  case (string p off s)
  then have "passes op cl ([dquote] @ escape s dquote @ [dquote])"
    by (intro passes_quoted plain_text_end) (auto simp: brackets_def)
  then show ?case by (simp add: child_text_def chunk_type_def)
next
  case (map p off m)
  then have "passes op cl (strval_values (al + 1) ws m)"
    by (intro passes_values) (auto simp: printable_values_iff)
  moreover from map.prems have "passes op cl [newline]" "passes op cl (repeatString ws (al + 1))"
    by (auto intro: passes_blank)
  ultimately have "passes op cl (if m = [] then []
      else [newline] @ strval_values (al + 1) ws m @ repeatString ws (al + 1))"
    by (auto intro: passes_append simp del: append.simps)
  from passes_brackets(1) [OF map.prems(2) this] show ?case
    by (simp only: child_text_def chunk_type_def strval_nested) simp
next
  case (list p off l)
  then have "passes op cl (items_text (al + 1) ws l)"
    by (intro passes_items) (auto simp: printable_items_iff)
  moreover from list.prems have "passes op cl [newline]" "passes op cl (repeatString ws (al + 1))"
    by (auto intro: passes_blank)
  ultimately have "passes op cl (if l = [] then []
      else [newline] @ items_text (al + 1) ws l @ repeatString ws (al + 1))"
    by (auto intro: passes_append simp del: append.simps)
  from passes_brackets(2) [OF list.prems(2) this] show ?case
    by (simp only: child_text_def chunk_type_def strval_nested) simp
qed simp

section \<open>Reading one printed value\<close>

lemma getstr_same:
  assumes "unquote str i1 r1 v1 = Inr z" "unquote str i2 r2 v2 = Inr z" "r1 \<noteq> []" "r2 \<noteq> []"
  shows "getstr_loop m str d a i1 r1 v1 = getstr_loop m str d a i2 r2 v2"
  using assms
  by (simp add: getstr_loop.simps [of m str d a i1 r1 v1] getstr_loop.simps [of m str d a i2 r2 v2])

lemma unquote_id: "r = [] \<or> hd r \<notin> {dquote, squote} \<Longrightarrow> unquote str i r val = Inr (val, i, r)"
  by (auto simp: unquote_def)

lemma scan_text:
  assumes "length body + length r + 2 < 2 ^ 32"
  shows "passes CHR ''{'' CHR ''}'' body \<Longrightarrow>
      scan_map str i (''{'' @ body @ ''}'' @ r) val = Inr (val @ ''{'' @ body @ ''}'', i + length body + 2, r)"
    and "passes CHR ''['' CHR '']'' body \<Longrightarrow>
      scan_list str i (''['' @ body @ '']'' @ r) val = Inr (val @ ''['' @ body @ '']'', i + length body + 2, r)"
  using assms scan_nested_map [of 0 "body @ ''}'' @ r" str i "Suc i" "val @ ''{''"]
    scan_nested_list [of 0 "body @ '']'' @ r" str i "Suc i" "val @ ''[''"]
  by (auto simp: scan_map_def scan_list_def passes_def)

lemma nested_text:
  assumes "printable c" "blank ws" "chunk_type c \<noteq> StringT"
  obtains body where "strval al ws c = ''{'' @ body @ ''}''" "passes CHR ''{'' CHR ''}'' body"
  | body where "strval al ws c = ''['' @ body @ '']''" "passes CHR ''['' CHR '']'' body"
proof (cases c rule: chunk_cases)
  case (map p off m)
  have br: "brackets CHR ''{'' CHR ''}''" by (simp add: brackets_def)
  have "passes CHR ''{'' CHR ''}'' (strval_values al ws m)"
    using assms map br by (intro passes_values) (auto simp: printable_values_iff intro: passes_child)
  then have "passes CHR ''{'' CHR ''}'' (if m = [] then [] else [newline] @ strval_values al ws m @ repeatString ws al)"
    using assms br by (auto intro!: passes_append passes_char intro: passes_blank simp del: append.simps)
  with map that(1) show thesis by (metis strval_nested(1))
next
  case (list p off l)
  have br: "brackets CHR ''['' CHR '']''" by (simp add: brackets_def)
  have "passes CHR ''['' CHR '']'' (items_text al ws l)"
    using assms list br by (intro passes_items) (auto simp: printable_items_iff intro: passes_child)
  then have "passes CHR ''['' CHR '']'' (if l = [] then [] else [newline] @ items_text al ws l @ repeatString ws al)"
    using assms br by (auto intro!: passes_append passes_char intro: passes_blank simp del: append.simps)
  with list that(2) show thesis by (metis strval_nested(2))
qed (use assms in \<open>auto simp: chunk_type_def\<close>)

text \<open>A printed child is read as a value, and the scanner goes on behind it.\<close>

lemma getstr_child:
  assumes c: "printable c" and ws: "blank ws" and r: "r \<noteq> []" "hd r \<notin> {dquote, squote}"
    and len: "length (child_text al ws c @ r) < 2 ^ 32"
  shows "getstr_loop m str d a i (child_text al ws c @ r) [] =
    getstr_loop m str d a (i + length (child_text al ws c)) r (strval (al + 1) ws c)"
proof (cases "chunk_type c = StringT")
  case True
  then obtain p off s where cs: "c = Chunkdat p off (Some (Chunk_string s))"
    by (cases c rule: chunk_cases) auto
  let ?t = "dquote # escape s dquote @ dquote # r"
  have "unquote str i ?t [] = Inr (s, i + length (escape s dquote) + 2, r)"
    using quoted_escape [of s "Suc i" r "[]"] c cs by (simp add: unquote_def plain_text_end)
  moreover have "unquote str (i + length (escape s dquote) + 2) r s
      = Inr (s, i + length (escape s dquote) + 2, r)" using r by (intro unquote_id) auto
  ultimately have "getstr_loop m str d a i ?t [] =
      getstr_loop m str d a (i + length (escape s dquote) + 2) r s"
    using r by (intro getstr_same) auto
  then show ?thesis using cs by (simp add: child_text_def)
next
  case False
  then have ct: "child_text al ws c = strval (al + 1) ws c" by (simp add: child_text_def)
  note uq = unquote_id [where val = "[]" and i = i and str = str and r = "child_text al ws c @ r"]
  from c ws False show ?thesis
  proof (cases rule: nested_text [where al = "al + 1"])
    case (1 body)
    then show ?thesis
      using scan_text(1) [of body r str i "[]"] getstr_map [OF _ uq, of m d a] len ct by simp
  next
    case (2 body)
    then show ?thesis
      using scan_text(2) [of body r str i "[]"] getstr_list [OF _ uq, of m d a] len ct by simp
  qed
qed

lemma child_text_hd:
  assumes "printable c" "blank ws"
  shows "\<exists>x xs. child_text al ws c = x # xs \<and> isRead x \<and> x \<noteq> CHR ''=''"
proof (cases "chunk_type c = StringT")
  case False
  then have "child_text al ws c = strval (al + 1) ws c" by (simp add: child_text_def)
  with assms False show ?thesis by (cases rule: nested_text [where al = "al + 1"]) simp_all
qed (simp add: child_text_def)

lemma strval_end:
  assumes "printable c" "blank ws"
  shows "strval al ws c = [] \<or> isRead (last (strval al ws c))"
proof (cases "chunk_type c = StringT")
  case True
  with assms show ?thesis by (cases c rule: chunk_cases) (auto simp: plain_text_def)
next
  case False
  with assms show ?thesis by (cases rule: nested_text [where al = al]) simp_all
qed

text \<open>Readable characters that are no delimiter go into the value one by one.\<close>

lemma getstr_chars:
  assumes "\<forall>c \<in> set k. isRead c \<and> c \<notin> {dquote, squote, CHR ''{'', CHR ''['', d, a}"
  shows "getstr_loop m str d a i (k @ r) val = getstr_loop m str d a (i + length k) r (val @ k)"
  using assms
proof (induction k arbitrary: i val)
  case (Cons c k)
  then have "unquote str i (c # k @ r) val = Inr (val, i, c # k @ r)" by (intro unquote_id) auto
  from getstr_char [OF _ this, of d a m] Cons show ?case by simp
qed simp

lemma getstr_at_blank_delim:
  assumes "\<not> isRead x" "d \<noteq> nul" "x = d \<or> x = a"
  shows "getstr_loop m str d a i (x # r) val = Inr (val, Suc i, r)"
proof -
  have "unquote str i (x # r) val = Inr (val, i, x # r)" using assms by (intro unquote_id) auto
  from getstr_blank_delim [OF _ this, of d a m "[]" x] assms show ?thesis by auto
qed

text \<open>At the end of a list only blanks are left, and the scan runs into the bytes behind.\<close>

lemma getstr_at_end:
  assumes "blank r" "r \<noteq> []" "isRead d" "isRead a" "\<exists>c \<in> set m. isRead c" "d \<noteq> nul"
  obtains w i' where "getstr_loop m str d a i r val = Inr (w, i', [])"
    "pop_unread w = pop_unread val"
proof -
  obtain x r' where r: "r = x # r'" "\<not> isRead x" using assms(1,2) by (cases r) auto
  then have uq: "unquote str i r val = Inr (val, i, r)" by (intro unquote_id) auto
  have "\<exists>c \<in> set (r @ nul # m). isRead c" using assms(5) by auto
  from nonread_loop_total [OF this]
  obtain u c w where split: "r @ nul # m = u @ c # w" and c: "isRead c \<or> c = d \<or> c = a"
    and u: "\<forall>y \<in> set u. \<not> isRead y \<and> y \<noteq> d \<and> y \<noteq> a"
    and run: "\<And>tval. nonread_loop d a (r @ nul # m) tval = Some (tval @ u, c)" by metis
  from c assms(3,4) have cr: "isRead c" by auto
  have long: "length r \<le> length u"
  proof (rule ccontr)
    assume "\<not> length r \<le> length u"
    with split have "c \<in> set r"
      by (metis append_eq_append_conv_if in_set_conv_decomp_first append_take_drop_id
          list.set_intros(1) not_le_imp_less nth_append_length nth_append nth_mem linorder_not_less)
    with assms(1) cr show False by (auto simp: blank_def)
  qed
  show thesis
  proof (cases "c = d \<or> c = a")
    case True
    have "getstr_loop m str d a i r val = Inr (val, Suc (i + length u), drop (Suc (length u)) r)"
      using getstr_blank_delim [OF assms(2) uq, of d a m u c] r run [of "[]"] assms True by simp
    then show thesis using that long by simp
  next
    case False
    have "getstr_loop m str d a i r val = Inr (val @ u, i + length u, [])"
      using getstr_blank_on [OF assms(2) uq, of d a m u c] r run [of "[]"] assms False long by simp
    moreover have "pop_unread (val @ u) = pop_unread val" using u by simp
    ultimately show thesis using that by blast
  qed
qed

lemma getstrval_value:
  assumes c: "printable c" and ws: "blank ws" and u: "blank u"
    and len: "length (child_text al ws c @ newline # r) < 2 ^ 32"
  shows "\<exists>p. getstrval mem (u @ child_text al ws c @ newline # r) CHR '';'' newline =
    Inr (strval (al + 1) ws c, r, p, int (length u), r \<noteq> [])"
proof -
  let ?s = "u @ child_text al ws c @ newline # r"
  obtain x xs where x: "child_text al ws c = x # xs" "isRead x"
    using child_text_hd [OF c ws] by blast
  have "getstr_loop (mem ?s) ?s CHR '';'' newline (length u) (child_text al ws c @ newline # r) [] =
      Inr (strval (al + 1) ws c, Suc (length u + length (child_text al ws c)), r)"
    using getstr_child [OF c ws _ _ len] getstr_at_blank_delim [of newline "CHR '';''" newline] by simp
  with x u strval_end [OF c ws, of "al + 1"] show ?thesis by (simp add: getstrval_def Let_def)
qed

lemma getstrval_key:
  assumes k: "plain_key k" and u: "blank u"
  shows "getstrval mem (u @ k @ CHR '' '' # CHR ''='' # t) CHR ''='' nul =
    (if t = [] then Inr (k, [], int (length u + length k + 2), int (length u), False)
     else Inr (k, t, int (length u + length k + 2), int (length u), True))"
proof -
  let ?r = "CHR '' '' # CHR ''='' # t"
  let ?s = "u @ k @ ?r"
  obtain x xs where x: "k = x # xs" "isRead x" using k by (cases k) (auto simp: plain_key_def)
  have kc: "\<forall>c \<in> set k. isRead c \<and> c \<notin> {dquote, squote, CHR ''{'', CHR ''['', CHR ''='', nul}"
    using k unfolding plain_key_def by (metis insert_iff isRead_values(11) empty_iff)
  have uq: "unquote ?s (length u + length k) ?r k = Inr (k, length u + length k, ?r)"
    by (intro unquote_id) auto
  have "getstr_loop (mem ?s) ?s CHR ''='' nul (length u + length k) ?r k =
      Inr (k, Suc (length u + length k + length '' ''), drop (Suc (length '' '')) ?r)"
    by (rule getstr_blank_delim [OF _ uq]) auto
  with getstr_chars [OF kc, of "mem ?s" ?s "length u" ?r "[]"]
  have "getstr_loop (mem ?s) ?s CHR ''='' nul (length u) (k @ ?r) [] =
      Inr (k, length u + length k + 2, t)" by simp
  moreover have "skip ?s = (k @ ?r, length u)" using x u by simp
  moreover have "pop_unread k = k" using kc x by (intro pop_unread_id) auto
  ultimately show ?thesis using x by (simp add: getstrval_def Let_def)
qed

lemma getkeyval_entry:
  assumes k: "plain_key k" and c: "printable c" and ws: "blank ws" and u: "blank u"
    and len: "length (child_text al ws c @ newline # r) < 2 ^ 32"
  shows "\<exists>rr vs ks. getkeyval mem (u @ k @ CHR '' '' # CHR ''='' # CHR '' '' # child_text al ws c @ newline # r) =
    Inr (k, strval (al + 1) ws c, r, rr, vs, ks)"
proof -
  obtain p where "getstrval mem (CHR '' '' # child_text al ws c @ newline # r) CHR '';'' newline =
      Inr (strval (al + 1) ws c, r, p, 1, r \<noteq> [])"
    using getstrval_value [OF c ws _ len, of "'' ''"] by auto
  moreover have "k \<noteq> []" "hd k \<noteq> CHR '';''" using k by (auto simp: plain_key_def)
  ultimately show ?thesis by (simp add: getkeyval_def getstrval_key [OF k u] Let_def)
qed

lemma getkeyval_blank: "blank u \<Longrightarrow> getkeyval mem u = Inr ([], [], [], 0, 0, 0)"
  by (simp add: getkeyval_def getstrval_def Let_def)

section \<open>The loops over entries and items\<close>


text \<open>A subtree reads back: the value text parses to the same data.\<close>

definition reads_back :: "(string \<Rightarrow> string) \<Rightarrow> string \<Rightarrow> chunkdat \<Rightarrow> bool" where
  "reads_back mem ws c \<longleftrightarrow> (\<forall>al off p. length (strval al ws c) < 2 ^ 32 \<longrightarrow>
     (\<exists>c'. set_str mem (strval al ws c) off p = (None, c') \<and> untrace c' = untrace c))"

lemma escape_length: "length s \<le> length (escape s c)"
  by (induction s) auto

lemma child_text_longer: "length (strval (al + 1) ws c) \<le> length (child_text al ws c)"
proof (cases "chunk_type c = StringT")
  case True
  then show ?thesis using escape_length
    by (cases c rule: chunk_cases) (auto simp: child_text_def intro: le_SucI)
qed (simp add: child_text_def)

lemma reads_backD:
  assumes "reads_back mem ws c" "length (child_text al ws c) < 2 ^ 32"
  obtains c' where "set_str mem (strval (al + 1) ws c) off p = (None, c')" "untrace c' = untrace c"
  using assms child_text_longer [of al ws c] by (force simp: reads_back_def)

lemma map_loop_step:
  assumes "printable_values ((k, c) # m)" "blank ws" "blank v" "map_ok (acc @ (k, c) # m)"
    and "length (strval_values al ws ((k, c) # m)) + length u < 2 ^ 32"
  shows "\<exists>vs rr h. map_loop mem inp off p i (v @ strval_values al ws ((k, c) # m) @ u) acc =
    (case set_str mem (strval (al + 1) ws c) (off + (i + vs)) p of
       (Some e, _) \<Rightarrow> (Some (catch_format h e), acc)
     | (None, c') \<Rightarrow> (if strval_values al ws m @ u = [] then (None, acc @ [(k, c')])
                    else map_loop mem inp off p (i + rr) (strval_values al ws m @ u) (acc @ [(k, c')])))"
proof -
  let ?r = "strval_values al ws m @ u"
  let ?w = "v @ repeatString ws (al + 1)"
  have tx: "v @ strval_values al ws ((k, c) # m) @ u = ?w @ k @ CHR '' '' # CHR ''='' # CHR '' '' # child_text al ws c @ newline # ?r"
    by simp
  have k: "plain_key k" and c: "printable c" and w: "blank ?w" using assms by auto
  have len: "length (child_text al ws c @ newline # ?r) < 2 ^ 32"
    using assms(5) by simp
  obtain rr vs ks where kv: "getkeyval mem (?w @ k @ CHR '' '' # CHR ''='' # CHR '' '' # child_text al ws c @ newline # ?r) =
      Inr (k, strval (al + 1) ws c, ?r, rr, vs, ks)"
    using getkeyval_entry [OF k c assms(2) w len] by blast
  have "\<forall>x \<in> map_keys acc. x < k"
    using assms(4) by (auto simp: map_ok_def map_keys_def sorted_wrt_append)
  then have ins: "map_insert k c' acc = (acc @ [(k, c')], True)" for c' by (rule map_insert_append)
  have ke: "k \<noteq> []" using k by (auto simp: plain_key_def)
  obtain x xs where kx: "k = x # xs" "isRead x" "x \<noteq> CHR ''=''"
    using k by (cases k) (auto simp: plain_key_def)
  then have first: "fst (skip (?w @ k @ t)) = k @ t" for t
    using skip_append [OF w kx(2), of "xs @ t"] by simp
  show ?thesis unfolding tx
    by (rule exI [of _ vs], rule exI [of _ rr], rule exI [of _ "\<lambda>w src q. Format_error (cstr w) [] inp (q + (i + vs))"],
      subst map_loop.simps) (use kv ins ke kx first in \<open>auto simp: from_set_def Let_def split: prod.splits option.splits\<close>)
qed

lemma map_loop_entries:
  assumes "\<And>k c. (k, c) \<in> set m \<Longrightarrow> reads_back mem ws c"
    and "printable_values m" "blank ws" "blank v" "blank u" "map_ok (acc @ m)"
    and "length (strval_values al ws m) + length u < 2 ^ 32"
  shows "\<exists>m'. map_loop mem inp off p i (v @ strval_values al ws m @ u) acc = (None, acc @ m') \<and>
    untrace_values m' = untrace_values m"
  using assms
proof (induction m arbitrary: i v acc)
  case Nil
  then show ?case by (auto simp: map_loop.simps getkeyval_blank)
next
  case (Cons e m)
  obtain k c where e: "e = (k, c)" by force
  let ?r = "strval_values al ws m @ u"
  obtain vs rr h where step: "map_loop mem inp off p i (v @ strval_values al ws (e # m) @ u) acc =
    (case set_str mem (strval (al + 1) ws c) (off + (i + vs)) p of
       (Some e, _) \<Rightarrow> (Some (catch_format h e), acc)
     | (None, c') \<Rightarrow> (if ?r = [] then (None, acc @ [(k, c')])
                    else map_loop mem inp off p (i + rr) ?r (acc @ [(k, c')])))"
    using map_loop_step [of k c m ws v acc al u mem inp off p i] Cons.prems e by blast
  have "reads_back mem ws c" using Cons.prems(1) e by auto
  then obtain c' where c': "set_str mem (strval (al + 1) ws c) (off + (i + vs)) p = (None, c')"
    "untrace c' = untrace c"
    by (rule reads_backD [of mem ws c al]) (use Cons.prems(7) e in auto)
  have "\<exists>m'. map_loop mem inp off p (i + rr) ([] @ ?r) (acc @ [(k, c')]) = (None, (acc @ [(k, c')]) @ m') \<and>
      untrace_values m' = untrace_values m"
    using Cons.prems e by (intro Cons.IH) (auto simp: map_ok_def)
  then obtain m' where m': "map_loop mem inp off p (i + rr) ?r (acc @ [(k, c')]) = (None, acc @ (k, c') # m')"
    "untrace_values m' = untrace_values m" by auto
  show ?case
  proof (cases "?r = []")
    case True
    then have "m = []" using strval_values_Cons by (cases m) auto
    with True step e c' show ?thesis by auto
  next
    case False
    with step e c' m' show ?thesis by auto
  qed
qed

lemma getstrval_item:
  assumes c: "printable c" and ws: "blank ws" and u: "blank u"
    and len: "length (child_text al ws c @ CHR '','' # r) < 2 ^ 32" and r: "r \<noteq> []"
  shows "\<exists>p. getstrval mem (u @ child_text al ws c @ CHR '','' # r) CHR '','' CHR '';'' =
    Inr (strval (al + 1) ws c, r, p, int (length u), True)"
proof -
  let ?s = "u @ child_text al ws c @ CHR '','' # r"
  let ?i = "length u + length (child_text al ws c)"
  obtain x xs where x: "child_text al ws c = x # xs" "isRead x"
    using child_text_hd [OF c ws] by blast
  have uq: "unquote ?s ?i (CHR '','' # r) v = Inr (v, ?i, CHR '','' # r)" for v
    by (intro unquote_id) auto
  have "getstr_loop (mem ?s) ?s CHR '','' CHR '';'' ?i (CHR '','' # r) v = Inr (v, Suc ?i, r)" for v
    using getstr_delim [OF _ uq, of "CHR '',''" "CHR '';''" "mem ?s" v] by simp
  then have "getstr_loop (mem ?s) ?s CHR '','' CHR '';'' (length u) (child_text al ws c @ CHR '','' # r) [] =
      Inr (strval (al + 1) ws c, Suc ?i, r)"
    using getstr_child [OF c ws _ _ len] by simp
  with x u r show ?thesis by (simp add: getstrval_def Let_def)
qed

lemma getstrval_last_item:
  assumes c: "printable c" and ws: "blank ws" and u: "blank u" and t: "blank t" and mem: "mem_ok mem"
    and len: "length (child_text al ws c @ newline # t) < 2 ^ 32"
  shows "\<exists>p. getstrval mem (u @ child_text al ws c @ newline # t) CHR '','' CHR '';'' =
    Inr (strval (al + 1) ws c, [], p, int (length u), False)"
proof -
  let ?s = "u @ child_text al ws c @ newline # t"
  let ?i = "length u + length (child_text al ws c)"
  obtain x xs where x: "child_text al ws c = x # xs" "isRead x"
    using child_text_hd [OF c ws] by blast
  have "\<exists>c \<in> set (mem ?s). isRead c" using mem by (simp add: mem_ok_def)
  with t obtain w k where
    w: "getstr_loop (mem ?s) ?s CHR '','' CHR '';'' ?i (newline # t) (strval (al + 1) ws c) = Inr (w, k, [])"
    "pop_unread w = pop_unread (strval (al + 1) ws c)"
    by (elim getstr_at_end [rotated -1]) auto
  then have "getstr_loop (mem ?s) ?s CHR '','' CHR '';'' (length u) (child_text al ws c @ newline # t) [] =
      Inr (w, k, [])"
    using getstr_child [OF c ws _ _ len] by simp
  with x u w(2) strval_end [OF c ws, of "al + 1"] show ?thesis by (simp add: getstrval_def Let_def)
qed

lemma items_text_Cons:
  "items_text al ws (c # l) = repeatString ws (al + 1) @ child_text al ws c @
     (if l = [] then [newline] else CHR '','' # newline # items_text al ws l)"
  by (cases l) auto

lemma list_loop_step:
  assumes "printable_items (c # l)" "blank ws" "blank v" "l \<noteq> []"
    and "length (items_text al ws (c # l)) + length u < 2 ^ 32"
  shows "\<exists>vs q h. list_loop mem inp off p i (v @ items_text al ws (c # l) @ u) acc =
    (case set_str mem (strval (al + 1) ws c) (off + (i + vs)) p of
       (Some e, _) \<Rightarrow> (Some (catch_format h e), acc)
     | (None, c') \<Rightarrow> list_loop mem inp off p (i + q) ([newline] @ items_text al ws l @ u) (acc @ [c']))"
proof -
  let ?w = "v @ repeatString ws (al + 1)"
  let ?r = "newline # items_text al ws l @ u"
  have c: "printable c" and w: "blank ?w" using assms by auto
  have len: "length (child_text al ws c @ CHR '','' # ?r) < 2 ^ 32"
    using assms(4, 5) by (simp add: items_text_Cons)
  obtain q where q: "getstrval mem (v @ items_text al ws (c # l) @ u) CHR '','' CHR '';'' =
      Inr (strval (al + 1) ws c, ?r, q, int (length ?w), True)"
    using getstrval_item [OF c assms(2) w len] assms(4) by (auto simp: items_text_Cons)
  show ?thesis
    by (rule exI [of _ "int (length ?w)"], rule exI [of _ q],
      rule exI [of _ "\<lambda>w src p. Format_error (cstr w) (cstr src) inp (p + (i + int (length ?w)))"], subst list_loop.simps)
      (use q in \<open>auto simp: from_set_def Let_def split: prod.splits option.splits\<close>)
qed


lemma list_loop_items:
  assumes "\<And>c. c \<in> set l \<Longrightarrow> reads_back mem ws c"
    and "printable_items l" "blank ws" "blank v" "blank u" "mem_ok mem" "l \<noteq> []"
    and "length (items_text al ws l) + length u < 2 ^ 32"
  shows "\<exists>l'. list_loop mem inp off p i (v @ items_text al ws l @ u) acc = (None, acc @ l') \<and>
    untrace_items l' = untrace_items l"
  using assms
proof (induction l arbitrary: i v acc)
  case (Cons c l)
  have c: "printable c" and rb: "reads_back mem ws c" using Cons.prems by auto
  have cl: "length (child_text al ws c) < 2 ^ 32" using Cons.prems(8) by (simp add: items_text_Cons)
  show ?case
  proof (cases "l = []")
    case True
    let ?w = "v @ repeatString ws (al + 1)"
    have "blank ?w" "length (child_text al ws c @ newline # u) < 2 ^ 32"
      using Cons.prems True by (auto simp: items_text_Cons)
    from getstrval_last_item [OF c Cons.prems(3) this(1) Cons.prems(5,6) this(2)]
    obtain q where "getstrval mem (v @ items_text al ws (c # l) @ u) CHR '','' CHR '';'' =
        Inr (strval (al + 1) ws c, [], q, int (length ?w), False)"
      using True by (auto simp: items_text_Cons)
    moreover obtain c' where "set_str mem (strval (al + 1) ws c) (off + (i + int (length ?w))) p = (None, c')"
      "untrace c' = untrace c" using reads_backD [OF rb cl] by metis
    ultimately show ?thesis using True by (subst list_loop.simps) (auto simp: from_set_def Let_def)
  next
    case False
    obtain vs q h where step: "list_loop mem inp off p i (v @ items_text al ws (c # l) @ u) acc =
      (case set_str mem (strval (al + 1) ws c) (off + (i + vs)) p of
         (Some e, _) \<Rightarrow> (Some (catch_format h e), acc)
       | (None, c') \<Rightarrow> list_loop mem inp off p (i + q) ([newline] @ items_text al ws l @ u) (acc @ [c']))"
      using list_loop_step [OF Cons.prems(2-4) False Cons.prems(8)] by blast
    obtain c' where c': "set_str mem (strval (al + 1) ws c) (off + (i + vs)) p = (None, c')"
      "untrace c' = untrace c" using reads_backD [OF rb cl] by metis
    have "\<exists>l'. list_loop mem inp off p (i + q) ([newline] @ items_text al ws l @ u) (acc @ [c']) =
        (None, (acc @ [c']) @ l') \<and> untrace_items l' = untrace_items l"
      using Cons.prems False by (intro Cons.IH) (auto simp: items_text_Cons)
    with step c' show ?thesis by auto
  qed
qed simp

section \<open>Reading back a whole tree\<close>

lemma set_str_text:
  assumes "plain_text s"
  shows "set_str mem s off p = (None, Chunkdat p off (Some (Chunk_string s)))"
proof (cases "s = []")
  case True
  then show ?thesis by (simp add: set_str.simps getstrval_def)
next
  case False
  with assms have pl: "isRead (last s)"
    "\<forall>c \<in> set (first_word s). c \<notin> {dquote, squote, CHR ''{'', CHR ''[''}"
    by (auto simp: plain_text_def)
  obtain u x t where s: "s = u @ x # t" "blank u" "isRead x"
    using pl(1) False blank_or_text [of s] by (metis blank_def last_in_set)
  then have sk: "skip s = (x # t, length u)" by simp
  let ?k = "takeWhile isRead (x # t)" and ?r = "dropWhile isRead (x # t)"
  have k: "\<forall>c \<in> set ?k. isRead c \<and> c \<notin> {dquote, squote, CHR ''{'', CHR ''['', nul, nul}"
    using pl(2) unfolding first_word_def sk fst_conv by (metis insert_iff isRead_values(11) empty_iff set_takeWhileD)
  have kr: "x # t = ?k @ ?r" by (simp only: takeWhile_dropWhile_id)
  have hd: "hd ?k = x" "?k \<noteq> []" using s(3) by auto
  have "\<exists>w i r. getstr_loop (mem s) s nul nul (length u) (x # t) [] = Inr (w, i, r) \<and> w = ?k"
  proof (cases "?r = []")
    case True
    with getstr_chars [OF k, of "mem s" s "length u" "[]" "[]"] kr show ?thesis by auto
  next
    case ne: False
    have nr: "\<not> isRead (cur ?r)" using hd_dropWhile [OF ne] by (simp only: cur_hd [OF ne] not_False_eq_True)
    then have "unquote s (length u + length ?k) ?r ?k = Inr (?k, length u + length ?k, ?r)"
      using cur_hd [OF ne] by (intro unquote_id) auto
    from getstr_blank [OF ne this nr refl, of "mem s" nul] getstr_chars [OF k, of "mem s" s "length u" ?r "[]"] kr
    show ?thesis by simp
  qed
  then obtain i r where gl: "getstr_loop (mem s) s nul nul (length u) (x # t) [] = Inr (?k, i, r)" by blast
  have "isRead (last ?k)" using k hd(2) last_in_set by blast
  then have "pop_unread ?k = ?k" by (intro pop_unread_id) simp
  with gl sk have "\<exists>rest q j f. getstrval mem s nul nul = Inr (?k, rest, q, j, f)"
    by (cases "r = []") (auto simp: getstrval_def Let_def simp del: takeWhile.simps)
  then obtain rest q j f where gs: "getstrval mem s nul nul = Inr (?k, rest, q, j, f)" by blast
  have "x \<noteq> CHR ''{''" "x \<noteq> CHR ''[''" using k hd by (metis hd_in_set insertCI)+
  then show ?thesis by (subst set_str.simps) (simp add: gs hd del: takeWhile.simps)
qed

text \<open>A bracketed text is taken whole.\<close>

lemma getstrval_nested:
  assumes "length body + 2 < 2 ^ 32"
  shows "passes CHR ''{'' CHR ''}'' body \<Longrightarrow> getstrval mem (''{'' @ body @ ''}'') nul nul =
      Inr (''{'' @ body @ ''}'', [], int (length body + 2), 0, False)"
    and "passes CHR ''['' CHR '']'' body \<Longrightarrow> getstrval mem (''['' @ body @ '']'') nul nul =
      Inr (''['' @ body @ '']'', [], int (length body + 2), 0, False)"
proof -
  assume p: "passes CHR ''{'' CHR ''}'' body"
  let ?s = "''{'' @ body @ ''}''"
  have "unquote ?s 0 ?s [] = Inr ([], 0, ?s)" by (intro unquote_id) simp
  from getstr_map [OF _ this, of "mem ?s" nul nul] scan_text(1) [OF _ p, of "[]" ?s 0 "[]"] assms
  have "getstr_loop (mem ?s) ?s nul nul 0 ?s [] = Inr (?s, length body + 2, [])" by simp
  then show "getstrval mem ?s nul nul = Inr (?s, [], int (length body + 2), 0, False)"
    by (simp add: getstrval_def Let_def)
next
  assume p: "passes CHR ''['' CHR '']'' body"
  let ?s = "''['' @ body @ '']''"
  have "unquote ?s 0 ?s [] = Inr ([], 0, ?s)" by (intro unquote_id) simp
  from getstr_list [OF _ this, of "mem ?s" nul nul] scan_text(2) [OF _ p, of "[]" ?s 0 "[]"] assms
  have "getstr_loop (mem ?s) ?s nul nul 0 ?s [] = Inr (?s, length body + 2, [])" by simp
  then show "getstrval mem ?s nul nul = Inr (?s, [], int (length body + 2), 0, False)"
    by (simp add: getstrval_def Let_def)
qed

lemma set_str_bracketed:
  assumes "length body + 2 < 2 ^ 32"
  shows "passes CHR ''{'' CHR ''}'' body \<Longrightarrow> set_str mem (''{'' @ body @ ''}'') off p =
      (if blank body then (None, Chunkdat p off (Some (Chunk_map [])))
       else (case map_loop mem (''{'' @ body @ ''}'') off p 1 body [] of (e, m) \<Rightarrow>
               (e, Chunkdat p off (Some (Chunk_map m)))))"
    and "passes CHR ''['' CHR '']'' body \<Longrightarrow> set_str mem (''['' @ body @ '']'') off p =
      (if blank body then (None, Chunkdat p off (Some (Chunk_list [])))
       else (case list_loop mem (''['' @ body @ '']'') off p 1 body [] of (e, l) \<Rightarrow>
               (e, Chunkdat p off (Some (Chunk_list l)))))"
proof -
  have "fst (skip body) = [] \<longleftrightarrow> blank body" by (auto simp: skip_eq blank_def)
  note facts = this getstrval_nested [OF assms, of mem]
  show "passes CHR ''{'' CHR ''}'' body \<Longrightarrow> set_str mem (''{'' @ body @ ''}'') off p =
      (if blank body then (None, Chunkdat p off (Some (Chunk_map [])))
       else (case map_loop mem (''{'' @ body @ ''}'') off p 1 body [] of (e, m) \<Rightarrow>
               (e, Chunkdat p off (Some (Chunk_map m)))))"
    using facts by (subst set_str.simps) (simp add: Let_def butlast_append)
  show "passes CHR ''['' CHR '']'' body \<Longrightarrow> set_str mem (''['' @ body @ '']'') off p =
      (if blank body then (None, Chunkdat p off (Some (Chunk_list [])))
       else (case list_loop mem (''['' @ body @ '']'') off p 1 body [] of (e, l) \<Rightarrow>
               (e, Chunkdat p off (Some (Chunk_list l)))))"
    using facts by (subst set_str.simps) (simp add: Let_def butlast_append)
qed

lemma map_reads_back:
  assumes sub: "\<And>k c. (k, c) \<in> set m \<Longrightarrow> reads_back mem ws c"
    and m: "map_ok m" "printable_values m" and ws: "blank ws"
  shows "reads_back mem ws (Chunkdat p off (Some (Chunk_map m)))"
  unfolding reads_back_def
proof (intro allI impI)
  fix al off' p'
  let ?c = "Chunkdat p off (Some (Chunk_map m))"
  let ?b = "if m = [] then [] else [newline] @ strval_values al ws m @ repeatString ws al"
  assume "length (strval al ws ?c) < 2 ^ 32"
  then have len: "length ?b + 2 < 2 ^ 32" by (simp only: strval_nested) simp
  have br: "brackets CHR ''{'' CHR ''}''" by (simp add: brackets_def)
  have "passes CHR ''{'' CHR ''}'' (strval_values al ws m)"
    using m br ws by (intro passes_values) (auto simp: printable_values_iff intro: passes_child)
  with br ws have ps: "passes CHR ''{'' CHR ''}'' ?b"
    by (auto intro!: passes_append passes_char intro: passes_blank simp del: append.simps)
  note parse = set_str_bracketed(1) [OF len ps, of mem off' p']
  show "\<exists>c'. set_str mem (strval al ws ?c) off' p' = (None, c') \<and> untrace c' = untrace ?c"
  proof (cases "m = []")
    case True
    with parse show ?thesis unfolding strval_nested by simp
  next
    case False
    then obtain k c m2 where "m = (k, c) # m2" by (cases m) auto
    with m(2) have nb: "\<not> blank (strval_values al ws m)" by (auto simp: plain_key_def blank_def neq_Nil_conv)
    have "length (strval_values al ws m) + length (repeatString ws al) < 2 ^ 32"
      using len False by simp
    then have "\<exists>m'. map_loop mem inp off' p' 1 ([newline] @ strval_values al ws m @ repeatString ws al) []
        = (None, [] @ m') \<and> untrace_values m' = untrace_values m" for inp
      by (intro map_loop_entries m(2) ws) (use sub m(1) ws in auto)
    then obtain m' where "map_loop mem (''{'' @ ?b @ ''}'') off' p' 1 ?b [] = (None, m')"
      "untrace_values m' = untrace_values m"
      using False by auto
    with parse nb False show ?thesis unfolding strval_nested by auto
  qed
qed

lemma list_reads_back:
  assumes sub: "\<And>c. c \<in> set l \<Longrightarrow> reads_back mem ws c"
    and l: "printable_items l" and ws: "blank ws" and mem: "mem_ok mem"
  shows "reads_back mem ws (Chunkdat p off (Some (Chunk_list l)))"
  unfolding reads_back_def
proof (intro allI impI)
  fix al off' p'
  let ?c = "Chunkdat p off (Some (Chunk_list l))"
  let ?b = "if l = [] then [] else [newline] @ items_text al ws l @ repeatString ws al"
  assume "length (strval al ws ?c) < 2 ^ 32"
  then have len: "length ?b + 2 < 2 ^ 32" by (simp only: strval_nested) simp
  have br: "brackets CHR ''['' CHR '']''" by (simp add: brackets_def)
  have "passes CHR ''['' CHR '']'' (items_text al ws l)"
    using l br ws by (intro passes_items) (auto simp: printable_items_iff intro: passes_child)
  with br ws have ps: "passes CHR ''['' CHR '']'' ?b"
    by (auto intro!: passes_append passes_char intro: passes_blank simp del: append.simps)
  note parse = set_str_bracketed(2) [OF len ps, of mem off' p']
  show "\<exists>c'. set_str mem (strval al ws ?c) off' p' = (None, c') \<and> untrace c' = untrace ?c"
  proof (cases "l = []")
    case True
    with parse show ?thesis unfolding strval_nested by simp
  next
    case False
    then obtain c l2 where cl: "l = c # l2" by (cases l) auto
    with l ws child_text_hd [of c ws al] have nb: "\<not> blank (items_text al ws l)"
      by (auto simp: items_text_Cons)
    have "length (items_text al ws l) + length (repeatString ws al) < 2 ^ 32"
      using len False by simp
    from list_loop_items [OF sub l ws _ _ mem False this, where v = "[newline]" and acc = "[]"] ws
    obtain l' where "list_loop mem (''['' @ ?b @ '']'') off' p' 1 ?b [] = (None, l')"
      "untrace_items l' = untrace_items l"
      using False by force
    with parse nb False show ?thesis unfolding strval_nested by auto
  qed
qed

lemma printable_reads_back:
  assumes mem: "mem_ok mem" and ws: "blank ws"
  shows "printable c \<Longrightarrow> reads_back mem ws c"
proof (induction c rule: chunk_induct)
  case (string p off s)
  then show ?case by (simp add: reads_back_def set_str_text)
next
  case (map p off m)
  then show ?case by (intro map_reads_back ws) (auto simp: printable_values_iff)
next
  case (list p off l)
  then show ?case by (intro list_reads_back ws mem) (auto simp: printable_items_iff)
qed simp

end
