(* ===== verification/ParseFacts.thy ===== *)
theory ParseFacts
  imports Roundtrip
begin

text \<open>
  What holds of the parser for every input: the trees it builds are well formed and hold no
  empty object, and its result does not depend on the memory behind the strings as long as
  some readable byte is mapped there.
\<close>

section \<open>One call of the parser\<close>

text \<open>
  How a call of \<open>set\<close> ends: with an exception before any content was made, with a string,
  or with what a loop over a shorter text leaves.
\<close>

lemma set_str_step:
  obtains (error) e where "set_str mem inp off p = (Some e, Chunkdat p off None)"
      "getstrval mem inp nul nul = Inl e \<or> e \<noteq> Segfault \<and> parse_exn e"
  | (string) s where "set_str mem inp off p = (None, Chunkdat p off (Some (Chunk_string s)))"
  | (no_values) "set_str mem inp off p = (None, Chunkdat p off (Some (Chunk_map [])))"
  | (no_items) "set_str mem inp off p = (None, Chunkdat p off (Some (Chunk_list [])))"
  | (entries) i str e m where "set_str mem inp off p = (e, Chunkdat p off (Some (Chunk_map m)))"
      "map_loop mem inp off p i str [] = (e, m)" "length str < length inp"
  | (elements) i str e l where "set_str mem inp off p = (e, Chunkdat p off (Some (Chunk_list l)))"
      "list_loop mem inp off p i str [] = (e, l)" "length str < length inp"
proof (cases "getstrval mem inp nul nul")
  case (Inl e)
  then show thesis by (intro error [of e]) (simp_all add: set_str.simps)
next
  case (Inr res)
  obtain s rest q j f where res: "res = (s, rest, q, j, f)" by (cases res) auto
  let ?str = "butlast (tl s)"
  have shorter: "length ?str < length inp" if "tl s \<noteq> []"
    using text_shrinks [OF Inr [unfolded res] that] by simp
  consider (plain) "s = [] \<or> hd s \<noteq> CHR ''{'' \<and> hd s \<noteq> CHR ''[''"
    | (rest) "s \<noteq> []" "hd s = CHR ''{'' \<or> hd s = CHR ''[''" "fst (skip rest) \<noteq> []"
    | (short) "s \<noteq> []" "hd s = CHR ''{'' \<or> hd s = CHR ''[''" "fst (skip rest) = []" "tl s = []"
    | (map) "s \<noteq> []" "hd s = CHR ''{''" "fst (skip rest) = []" "tl s \<noteq> []"
    | (list) "s \<noteq> []" "hd s = CHR ''[''" "fst (skip rest) = []" "tl s \<noteq> []" by blast
  then show thesis
  proof cases
    case plain
    show thesis
      by (rule string [of "if s = [] then [] else inp"])
        (use plain in \<open>auto simp: set_str.simps [of mem inp off p] Inr res\<close>)
  next
    case rest
    then show thesis
      by (intro error [of "Format_error ''Unexpected char'' [] inp (q + int (snd (skip rest)))"])
        (auto simp: set_str.simps [of mem inp off p] Inr res)
  next
    case short
    then show thesis
      by (intro error [of Undefined]) (auto simp: set_str.simps [of mem inp off p] Inr res)
  next
    case map
    obtain e m where loop: "map_loop mem inp off p (j + 1) ?str [] = (e, m)" by force
    show thesis
    proof (cases "fst (skip ?str) = []")
      case True
      with map show thesis
        by (intro no_values) (simp add: set_str.simps [of mem inp off p] Inr res Let_def)
    next
      case False
      with map loop shorter show thesis
        by (intro entries [OF _ loop]) (simp_all add: set_str.simps [of mem inp off p] Inr res Let_def)
    qed
  next
    case list
    obtain e l where loop: "list_loop mem inp off p (j + 1) ?str [] = (e, l)" by force
    show thesis
    proof (cases "fst (skip ?str) = []")
      case True
      with list show thesis
        by (intro no_items) (simp add: set_str.simps [of mem inp off p] Inr res Let_def)
    next
      case False
      with list loop shorter show thesis
        by (intro elements [OF _ loop]) (simp_all add: set_str.simps [of mem inp off p] Inr res Let_def)
    qed
  qed
qed

text \<open>
  The loops keep what every insertion of a parsed value keeps, and end in an exception of
  one of the scanners, of a parsed value, or one of their own.
\<close>

lemma map_loop_rule:
  assumes "I m"
    and "\<And>k v off' c m. length v \<le> length str \<Longrightarrow> k \<noteq> [] \<Longrightarrow> set_str mem v off' p = (None, c) \<Longrightarrow>
           I m \<Longrightarrow> I (fst (map_insert k c m))"
  shows "I (snd (map_loop mem inp off p i str m))"
  using assms
proof (induction str arbitrary: i m rule: length_induct)
  case (1 str)
  show ?case
  proof (cases "cur (fst (skip str)) = CHR ''=''")
    case True
    then show ?thesis using "1.prems"(1) by (subst map_loop.simps) simp
  next
    case noeq: False
    show ?thesis
    proof (cases "getkeyval mem str")
      case (Inl e)
      with noeq show ?thesis using "1.prems"(1) by (subst map_loop.simps) simp
    next
      case (Inr res)
      obtain k v r rr vs ks where res: "res = (k, v, r, rr, vs, ks)" by (cases res) auto
      note len = getkeyval_len [OF Inr [unfolded res]]
      have IH: "I (snd (map_loop mem inp off p i' r m'))" if "I m'" "r \<noteq> []" for i' m'
      proof -
        have "I (fst (map_insert k c m))"
          if "length v' \<le> length r" "k \<noteq> []" "set_str mem v' off' p = (None, c)" "I m" for k v' off' c m
          using that len(2) \<open>r \<noteq> []\<close> by (intro "1.prems"(2) [OF _ that(2,3,4)]) simp
        with "1.IH" len(2) that show ?thesis by blast
      qed
      show ?thesis
      proof (cases "k = []")
        case True
        with noeq Inr res IH "1.prems"(1) show ?thesis by (subst map_loop.simps) (simp add: Let_def)
      next
        case False
        show ?thesis
        proof (cases "set_str mem v (off + (i + vs)) p")
          case (Pair e c)
          show ?thesis
          proof (cases e)
            case None
            then have "I (fst (map_insert k c m))"
              using "1.prems" len(1) False Pair by blast
            with None Pair False noeq Inr res IH show ?thesis
              by (subst map_loop.simps) (auto simp: Let_def from_set_def split: prod.splits)
          next
            case (Some x)
            with Pair False noeq Inr res "1.prems"(1) show ?thesis
              by (subst map_loop.simps) (simp add: Let_def from_set_def)
          qed
        qed
      qed
    qed
  qed
qed

lemma list_loop_rule:
  assumes "I l"
    and "\<And>v off' c l. length v \<le> length str \<Longrightarrow> set_str mem v off' p = (None, c) \<Longrightarrow> I l \<Longrightarrow> I (l @ [c])"
  shows "I (snd (list_loop mem inp off p i str l))"
  using assms
proof (induction str arbitrary: i l rule: length_induct)
  case (1 str)
  show ?case
  proof (cases "getstrval mem str CHR '','' CHR '';''")
    case (Inl e)
    then show ?thesis using "1.prems"(1) by (subst list_loop.simps) simp
  next
    case (Inr res)
    obtain v r q vs f where res: "res = (v, r, q, vs, f)" by (cases res) auto
    note len = getstrval_len [OF Inr [unfolded res]]
    have IH: "I (snd (list_loop mem inp off p i' r l'))" if "I l'" "r \<noteq> []" for i' l'
    proof -
      have "I (l @ [c])" if "length v' \<le> length r" "set_str mem v' off' p = (None, c)" "I l" for v' off' c l
        using that len(2) \<open>r \<noteq> []\<close> by (intro "1.prems"(2) [OF _ that(2,3)]) simp
      with "1.IH" len(2) that show ?thesis by blast
    qed
    show ?thesis
    proof (cases "set_str mem v (off + (i + vs)) p")
      case (Pair e c)
      show ?thesis
      proof (cases e)
        case None
        then have "I (l @ [c])" using "1.prems"(1) len(1) Pair by (intro "1.prems"(2)) auto
        with None Pair Inr res IH show ?thesis
          by (subst list_loop.simps) (simp add: Let_def from_set_def)
      next
        case (Some x)
        with Pair Inr res "1.prems"(1) show ?thesis
          by (subst list_loop.simps) (simp add: Let_def from_set_def)
      qed
    qed
  qed
qed

section \<open>Well-formed results\<close>

text \<open>Trees without empty objects, which is what a parse can return.\<close>

fun filled :: "chunkdat \<Rightarrow> bool"
  and filled_values :: "(string \<times> chunkdat) list \<Rightarrow> bool"
  and filled_items :: "chunkdat list \<Rightarrow> bool" where
  "filled (Chunkdat p off a) =
     (case a of Some (Chunk_map m) \<Rightarrow> filled_values m
      | Some (Chunk_list l) \<Rightarrow> filled_items l
      | Some (Chunk_string s) \<Rightarrow> True
      | None \<Rightarrow> False)"
| "filled_values [] = True"
| "filled_values ((k, c) # m) = (k \<noteq> [] \<and> filled c \<and> filled_values m)"
| "filled_items [] = True"
| "filled_items (c # l) = (filled c \<and> filled_items l)"

lemma filled_values_iff: "filled_values m \<longleftrightarrow> (\<forall>(k, c) \<in> set m. k \<noteq> [] \<and> filled c)"
  by (induction m) auto

lemma filled_items_iff: "filled_items l \<longleftrightarrow> (\<forall>c \<in> set l. filled c)"
  by (induction l) auto

definition good_values :: "(string \<times> chunkdat) list \<Rightarrow> bool" where
  "good_values m \<longleftrightarrow> map_ok m \<and> wf_values m \<and> filled_values m"

definition good_items :: "chunkdat list \<Rightarrow> bool" where
  "good_items l \<longleftrightarrow> wf_items l \<and> filled_items l"

lemma good_Nil [simp]: "good_values []" "good_items []"
  by (simp_all add: good_values_def good_items_def)

lemma good_insert:
  "good_values m \<Longrightarrow> k \<noteq> [] \<Longrightarrow> wf_chunk c \<Longrightarrow> filled c \<Longrightarrow> good_values (fst (map_insert k c m))"
  using map_insert_set [of k c m]
  by (auto simp: good_values_def map_insert_ok wf_values_iff filled_values_iff)

lemma good_snoc: "good_items l \<Longrightarrow> wf_chunk c \<Longrightarrow> filled c \<Longrightarrow> good_items (l @ [c])"
  by (auto simp: good_items_def wf_items_iff filled_items_iff)

lemma good_chunk:
  "good_values m \<Longrightarrow> wf_chunk (Chunkdat p off (Some (Chunk_map m)))"
  "good_items l \<Longrightarrow> wf_chunk (Chunkdat p off (Some (Chunk_list l)))"
  "good_values m \<Longrightarrow> filled (Chunkdat p off (Some (Chunk_map m)))"
  "good_items l \<Longrightarrow> filled (Chunkdat p off (Some (Chunk_list l)))"
  by (simp_all add: good_values_def good_items_def)

lemma parse_good:
  "wf_chunk (snd (set_str mem inp off p)) \<and>
     (fst (set_str mem inp off p) = None \<longrightarrow> filled (snd (set_str mem inp off p)))"
proof (induction inp arbitrary: off rule: length_induct)
  case (1 inp)
  show ?case
  proof (cases rule: set_str_step [of mem inp off p])
    case (entries i str e m)
    have "good_values (snd (map_loop mem inp off p i str []))"
    proof (rule map_loop_rule)
      fix k :: string and v off' c m
      assume "length v \<le> length str" "k \<noteq> []" "set_str mem v off' p = (None, c)" "good_values m"
      with "1.IH" entries(3) show "good_values (fst (map_insert k c m))"
        by (intro good_insert) (metis fst_conv le_less_trans snd_conv)+
    qed simp
    with entries show ?thesis by (simp add: good_values_def)
  next
    case (elements i str e l)
    have "good_items (snd (list_loop mem inp off p i str []))"
    proof (rule list_loop_rule)
      fix v off' c l
      assume "length v \<le> length str" "set_str mem v off' p = (None, c)" "good_items l"
      with "1.IH" elements(3) show "good_items (l @ [c])"
        by (intro good_snoc) (metis fst_conv le_less_trans snd_conv)+
    qed simp
    with elements show ?thesis by (simp add: good_items_def)
  qed auto
qed

section \<open>Independence of the memory behind the strings\<close>

definition mem_rel :: "exn + (string \<times> nat \<times> string) \<Rightarrow> exn + (string \<times> nat \<times> string) \<Rightarrow> bool" where
  "mem_rel x y \<longleftrightarrow> (case (x, y) of
      (Inl e, Inl e') \<Rightarrow> e = e' \<and> e \<noteq> Segfault
    | (Inr (v, i, r), Inr (v', i', r')) \<Rightarrow>
        r = r' \<and> pop_unread v = pop_unread v' \<and> (r \<noteq> [] \<longrightarrow> v = v' \<and> i = i')
    | _ \<Rightarrow> False)"

lemma mem_rel_simps [simp]:
  "mem_rel (Inl e) (Inl e') \<longleftrightarrow> e = e' \<and> e \<noteq> Segfault"
  "mem_rel (Inr x) (Inr x)"
  "mem_rel (Inr (v, i, [])) (Inr (v', i', [])) \<longleftrightarrow> pop_unread v = pop_unread v'"
  by (auto simp: mem_rel_def split: prod.splits)

lemma unquote_no_segv: "unquote str i r val = Inl e \<Longrightarrow> e \<noteq> Segfault"
  by (auto simp: unquote_def split: if_splits option.splits)

lemma scan_ref_no_segv: "scan_nested dec inc cl str j n i r val = Inl e \<Longrightarrow> e \<noteq> Segfault"
proof (induction r arbitrary: n i val rule: length_induct)
  case (1 r)
  show ?case
  proof (cases r)
    case Nil
    with "1.prems" show ?thesis by auto
  next
    case (Cons c s)
    with "1.prems" "1.IH" show ?thesis
      by (simp split: if_splits option.splits prod.splits) (fastforce dest: quoted_raw_len)+
  qed
qed

text \<open>
  A run of unreadable characters either ends inside the string, wherever the bytes behind
  it come from, or reaches past the end of it.
\<close>

lemma nonread_inside:
  assumes "\<exists>c \<in> set (r @ [nul]). isRead c \<or> c = d \<or> c = a"
  shows "\<exists>t c. \<forall>m. nonread_loop d a (r @ nul # m) [] = Some (t, c)"
proof -
  from split_list_first_prop [OF assms] obtain u c w where s: "r @ [nul] = u @ c # w"
    "isRead c \<or> c = d \<or> c = a" "\<forall>x \<in> set u. \<not> (isRead x \<or> x = d \<or> x = a)" by blast
  have "r @ nul # m = u @ c # (w @ m)" for m using arg_cong [OF s(1), of "\<lambda>z. z @ m"] by simp
  moreover have "nonread_loop d a (u @ c # (w @ m)) [] = Some ([] @ u, c)" for m
    using s(2,3) by (intro nonread_loop_stops) auto
  ultimately have "\<forall>m. nonread_loop d a (r @ nul # m) [] = Some (u, c)"
    by (simp only: append_Nil simp_thms)
  then show ?thesis by blast
qed

lemma nonread_past:
  assumes "\<not> (\<exists>c \<in> set (r @ [nul]). isRead c \<or> c = d \<or> c = a)" and "\<exists>c \<in> set m. isRead c"
  obtains t c where "nonread_loop d a (r @ nul # m) [] = Some (t, c)" "length r < length t"
    "\<forall>x \<in> set t. \<not> isRead x"
proof -
  have "\<exists>c \<in> set m. isRead c \<or> c = d \<or> c = a" using assms(2) by blast
  from split_list_first_prop [OF this] obtain u c w where s: "m = u @ c # w"
    "isRead c \<or> c = d \<or> c = a" "\<forall>x \<in> set u. \<not> (isRead x \<or> x = d \<or> x = a)" by blast
  have "\<forall>x \<in> set (r @ nul # u). \<not> isRead x \<and> x \<noteq> d \<and> x \<noteq> a" using assms(1) s(3) by auto
  from nonread_loop_stops [OF this s(2), of w "[]"] this
  show thesis by (intro that [of "r @ nul # u" c]) (auto simp: s(1))
qed

lemma mem_rel_scan:
  assumes IH: "\<And>i r' val. length r' < length r \<Longrightarrow>
      mem_rel (getstr_loop m str d a i r' val) (getstr_loop m' str d a i r' val)"
    and ne: "r \<noteq> []" and uq: "unquote str i r val = Inr (vq, iq, rq)" and open': "cur rq = CHR ''{'' \<or> cur rq = CHR ''[''"
  shows "mem_rel (getstr_loop m str d a i r val) (getstr_loop m' str d a i r val)"
proof -
  note le = unquote_len [OF uq] and body = getstr_body [OF ne uq, where d = d and a = a]
  obtain scan where sc: "scan = (if cur rq = CHR ''{'' then scan_map str iq rq vq else scan_list str iq rq vq)"
    by blast
  have eq: "getstr_loop m str d a i r val = (case scan of Inl e \<Rightarrow> Inl e
      | Inr (val, i, r) \<Rightarrow> getstr_loop m str d a i r val)" for m
    using body(1,2) open' sc by (cases "cur rq = CHR ''{''") simp_all
  show ?thesis
  proof (cases scan)
    case (Inl e)
    with eq show ?thesis
      using scan_ref_no_segv sc by (auto simp: scan_map_def scan_list_def split: if_splits)
  next
    case (Inr z)
    obtain v2 i2 r2 where z: "z = (v2, i2, r2)" by (cases z) auto
    with Inr sc open' have "length r2 < length rq"
      by (intro scan_open_shorter [of str iq rq vq v2 i2]) (auto split: if_splits)
    then have "length r2 < length r" using le by auto
    with IH eq Inr z show ?thesis by simp
  qed
qed

lemma mem_rel_unread:
  assumes m: "\<exists>c \<in> set m. isRead c" and m': "\<exists>c \<in> set m'. isRead c"
    and IH: "\<And>i r' val. length r' < length r \<Longrightarrow>
      mem_rel (getstr_loop m str d a i r' val) (getstr_loop m' str d a i r' val)"
    and ne: "r \<noteq> []" and uq: "unquote str i r val = Inr (vq, iq, rq)"
    and run: "\<not> isRead (cur rq)" "d \<noteq> nul"
  shows "mem_rel (getstr_loop m str d a i r val) (getstr_loop m' str d a i r val)"
proof -
  note le = unquote_len [OF uq] and body = getstr_body [OF ne uq, where d = d and a = a]
  show ?thesis
  proof (cases "\<exists>c \<in> set (rq @ [nul]). isRead c \<or> c = d \<or> c = a")
    case True
    from nonread_inside [OF this] obtain t c
      where tc: "\<And>m. nonread_loop d a (rq @ nul # m) [] = Some (t, c)" by blast
    show ?thesis
    proof (cases "c = d \<or> c = a")
      case True
      with body(5) [OF run tc] show ?thesis by simp
    next
      case False
      then have "t \<noteq> []" using nonread_moves [OF tc] run(1) by blast
      then have "length (drop (length t) rq) < length r" using ne le by (cases t) auto
      with IH body(6) [OF run tc False] show ?thesis by simp
    qed
  next
    case False
    have past: "\<exists>w k. getstr_loop m str d a i r val = Inr (w, k, []) \<and> pop_unread w = pop_unread vq"
      if m: "\<exists>c \<in> set m. isRead c" for m
    proof -
      obtain t c where t: "nonread_loop d a (rq @ nul # m) [] = Some (t, c)" "length rq < length t"
        "\<forall>x \<in> set t. \<not> isRead x" using nonread_past [OF False m] .
      then show ?thesis
        using body(5) [OF run t(1)] body(6) [OF run t(1)] by (cases "c = d \<or> c = a") auto
    qed
    from past [OF m] past [OF m'] show ?thesis by auto
  qed
qed

lemma getstr_mem:
  assumes m: "\<exists>c \<in> set m. isRead c" and m': "\<exists>c \<in> set m'. isRead c"
  shows "mem_rel (getstr_loop m str d a i r val) (getstr_loop m' str d a i r val)"
proof (induction r arbitrary: i val rule: length_induct)
  case (1 r)
  have IH: "\<And>i r' val. length r' < length r \<Longrightarrow>
      mem_rel (getstr_loop m str d a i r' val) (getstr_loop m' str d a i r' val)" using "1.IH" by blast
  show ?case
  proof (cases "r = []")
    case ne: False
    show ?thesis
    proof (cases "unquote str i r val")
      case (Inl e)
      then show ?thesis using ne unquote_no_segv by (auto simp: getstr_unquote_error)
    next
      case (Inr res)
      obtain vq iq rq where res: "res = (vq, iq, rq)" by (cases res) auto
      note uq = Inr [unfolded res] and le = unquote_len [OF Inr [unfolded res]]
      note body = getstr_body [OF ne uq, where d = d and a = a]
      consider (nested) "cur rq = CHR ''{'' \<or> cur rq = CHR ''[''"
        | (blank) "\<not> isRead (cur rq)" "d = nul"
        | (run) "\<not> isRead (cur rq)" "d \<noteq> nul"
        | (delim) "isRead (cur rq)" "cur rq \<noteq> CHR ''{''" "cur rq \<noteq> CHR ''[''" "cur rq = d \<or> cur rq = a"
        | (char) "isRead (cur rq)" "cur rq \<noteq> CHR ''{''" "cur rq \<noteq> CHR ''[''" "\<not> (cur rq = d \<or> cur rq = a)"
        by blast
      then show ?thesis
      proof cases
        case nested
        show ?thesis by (rule mem_rel_scan [OF IH ne uq nested])
      next
        case run
        show ?thesis by (rule mem_rel_unread [OF m m' IH ne uq run])
      next
        case char
        have "length (tl rq) < length r" using cur_read_nonempty [OF char(1)] le by (cases rq) auto
        with IH body(8) [OF char] show ?thesis by simp
      qed (use body(3,7) in simp_all)
    qed
  qed simp
qed

lemma getstrval_mem:
  assumes "mem_ok mem" "mem_ok mem'"
  shows "getstrval mem str d a = getstrval mem' str d a" and "getstrval mem str d a \<noteq> Inl Segfault"
proof -
  obtain r i where sk: "skip str = (r, i)" by force
  have "mem_rel (getstr_loop (mem str) str d a i r []) (getstr_loop (mem' str) str d a i r [])"
    using assms by (intro getstr_mem) (auto simp: mem_ok_def)
  with sk have "getstrval mem str d a = getstrval mem' str d a \<and> getstrval mem str d a \<noteq> Inl Segfault"
    by (auto simp: getstrval_def mem_rel_def Let_def split: sum.splits prod.splits)
  then show "getstrval mem str d a = getstrval mem' str d a" "getstrval mem str d a \<noteq> Inl Segfault" by auto
qed

lemma getkeyval_mem:
  assumes "mem_ok mem" "mem_ok mem'"
  shows "getkeyval mem str = getkeyval mem' str" and "getkeyval mem str \<noteq> Inl Segfault"
proof -
  note eq = getstrval_mem(1) [OF assms] and ns = getstrval_mem(2) [OF assms]
  show "getkeyval mem str = getkeyval mem' str" by (simp only: getkeyval_def eq)
  show "getkeyval mem str \<noteq> Inl Segfault"
    using ns by (auto simp: getkeyval_def Let_def split: sum.splits if_splits)
qed

text \<open>The loops agree when the parses of the shorter values do, and add no memory fault.\<close>

lemma map_loop_mem:
  assumes ok: "mem_ok mem" "mem_ok mem'"
    and eq: "\<And>v off'. length v \<le> length str \<Longrightarrow> set_str mem v off' p = set_str mem' v off' p"
    and ns: "\<And>v off'. length v \<le> length str \<Longrightarrow> fst (set_str mem' v off' p) \<noteq> Some Segfault"
  shows "map_loop mem inp off p i str m = map_loop mem' inp off p i str m"
    and "fst (map_loop mem' inp off p i str m) \<noteq> Some Segfault"
proof -
  have "map_loop mem inp off p i str m = map_loop mem' inp off p i str m
    \<and> fst (map_loop mem' inp off p i str m) \<noteq> Some Segfault"
    using eq ns
  proof (induction str arbitrary: i m rule: length_induct)
    case (1 str)
    note unfold = map_loop.simps [of _ inp off p i str m]
    show ?case
    proof (cases "cur (fst (skip str)) = CHR ''=''")
      case True
      then show ?thesis by (simp add: unfold)
    next
      case noeq: False
      show ?thesis
      proof (cases "getkeyval mem str")
        case (Inl e)
        then have "getkeyval mem' str = Inl e" "e \<noteq> Segfault" using getkeyval_mem [OF ok, of str] by auto
        with noeq Inl show ?thesis by (simp add: unfold)
      next
        case (Inr res)
        obtain k v r rr vs ks where res: "res = (k, v, r, rr, vs, ks)" by (cases res) auto
        have kv': "getkeyval mem' str = Inr res" using Inr getkeyval_mem [OF ok, of str] by simp
        note len = getkeyval_len [OF Inr [unfolded res]]
        have "map_loop mem inp off p i' r m' = map_loop mem' inp off p i' r m'
            \<and> fst (map_loop mem' inp off p i' r m') \<noteq> Some Segfault" if "r \<noteq> []" for i' m'
          using "1.IH" "1.prems" len(2) [OF that] by (meson le_trans less_imp_le)
        then have IH: "r \<noteq> [] \<Longrightarrow> map_loop mem inp off p i' r m' = map_loop mem' inp off p i' r m'"
            "r \<noteq> [] \<Longrightarrow> fst (map_loop mem' inp off p i' r m') \<noteq> Some Segfault" for i' m' by blast+
        have v: "set_str mem v o' p = set_str mem' v o' p"
          "fst (set_str mem' v o' p) \<noteq> Some Segfault" for o'
          using "1.prems" len(1) by simp_all
        obtain e c where c: "set_str mem' v (off + (i + vs)) p = (e, c)" by force
        note v = v [of "off + (i + vs)"]
        show ?thesis
          using noeq Inr kv' res v IH c
          by (auto simp: unfold Let_def from_set_def split: option.splits prod.splits)
      qed
    qed
  qed
  then show "map_loop mem inp off p i str m = map_loop mem' inp off p i str m"
    "fst (map_loop mem' inp off p i str m) \<noteq> Some Segfault" by blast+
qed

lemma list_loop_mem:
  assumes ok: "mem_ok mem" "mem_ok mem'"
    and eq: "\<And>v off'. length v \<le> length str \<Longrightarrow> set_str mem v off' p = set_str mem' v off' p"
    and ns: "\<And>v off'. length v \<le> length str \<Longrightarrow> fst (set_str mem' v off' p) \<noteq> Some Segfault"
  shows "list_loop mem inp off p i str l = list_loop mem' inp off p i str l"
    and "fst (list_loop mem' inp off p i str l) \<noteq> Some Segfault"
proof -
  have "list_loop mem inp off p i str l = list_loop mem' inp off p i str l
    \<and> fst (list_loop mem' inp off p i str l) \<noteq> Some Segfault"
    using eq ns
  proof (induction str arbitrary: i l rule: length_induct)
    case (1 str)
    note unfold = list_loop.simps [of _ inp off p i str l]
    show ?case
    proof (cases "getstrval mem str CHR '','' CHR '';''")
      case (Inl e)
      then have "getstrval mem' str CHR '','' CHR '';'' = Inl e" "e \<noteq> Segfault"
        using getstrval_mem [OF ok, of str] by auto
      with Inl show ?thesis by (simp add: unfold)
    next
      case (Inr res)
      obtain v r q vs f where res: "res = (v, r, q, vs, f)" by (cases res) auto
      have kv': "getstrval mem' str CHR '','' CHR '';'' = Inr res" using Inr getstrval_mem [OF ok, of str] by simp
      note len = getstrval_len [OF Inr [unfolded res]]
      have "list_loop mem inp off p i' r l' = list_loop mem' inp off p i' r l'
          \<and> fst (list_loop mem' inp off p i' r l') \<noteq> Some Segfault" if "r \<noteq> []" for i' l'
        using "1.IH" "1.prems" len(2) [OF that] by (meson le_trans less_imp_le)
      then have IH: "r \<noteq> [] \<Longrightarrow> list_loop mem inp off p i' r l' = list_loop mem' inp off p i' r l'"
          "r \<noteq> [] \<Longrightarrow> fst (list_loop mem' inp off p i' r l') \<noteq> Some Segfault" for i' l' by blast+
      have v: "set_str mem v o' p = set_str mem' v o' p"
        "fst (set_str mem' v o' p) \<noteq> Some Segfault" for o'
        using "1.prems" len(1) by simp_all
      note v = v [of "off + (i + vs)"]
      show ?thesis
        using Inr kv' res v IH
        by (auto simp: unfold Let_def from_set_def split: option.splits prod.splits)
    qed
  qed
  then show "list_loop mem inp off p i str l = list_loop mem' inp off p i str l"
    "fst (list_loop mem' inp off p i str l) \<noteq> Some Segfault" by blast+
qed

lemma set_str_mem:
  assumes ok: "mem_ok mem" "mem_ok mem'"
  shows "set_str mem inp off p = set_str mem' inp off p" and "fst (set_str mem' inp off p) \<noteq> Some Segfault"
proof -
  have "set_str mem inp off p = set_str mem' inp off p \<and> fst (set_str mem' inp off p) \<noteq> Some Segfault"
  proof (induction inp arbitrary: off rule: length_induct)
    case (1 inp)
    note unfold = set_str.simps [of _ inp off p]
    show ?case
    proof (cases "getstrval mem inp nul nul")
      case (Inl e)
      then have "getstrval mem' inp nul nul = Inl e" "e \<noteq> Segfault" using getstrval_mem [OF ok, of inp] by auto
      with Inl show ?thesis by (simp add: unfold)
    next
      case (Inr res)
      obtain s rest q j f where res: "res = (s, rest, q, j, f)" by (cases res) auto
      have eq: "getstrval mem' inp nul nul = Inr res" using Inr getstrval_mem [OF ok, of inp] by simp
      show ?thesis
      proof (cases "tl s = []")
        case True
        with Inr eq res show ?thesis by (auto simp: unfold Let_def)
      next
        case False
        let ?str = "butlast (tl s)"
        have lt: "length ?str < length inp" using text_shrinks [OF Inr [unfolded res] False] by simp
        have sub: "set_str mem v off' p = set_str mem' v off' p" "fst (set_str mem' v off' p) \<noteq> Some Segfault"
          if "length v \<le> length ?str" for v off'
          using "1.IH" that lt by (meson le_less_trans)+
        note loops = map_loop_mem [where str = ?str and p = p, OF ok sub, where inp = inp and off = off
            and i = "j + 1" and m = "[]", simplified]
          list_loop_mem [where str = ?str and p = p, OF ok sub, where inp = inp and off = off
            and i = "j + 1" and l = "[]", simplified]
        show ?thesis
          using Inr eq res False loops by (auto simp: unfold Let_def split: prod.splits)
      qed
    qed
  qed
  then show "set_str mem inp off p = set_str mem' inp off p" "fst (set_str mem' inp off p) \<noteq> Some Segfault"
    by blast+
qed

section \<open>A sample\<close>

definition sample_text :: "string \<Rightarrow> chunkdat" where
  "sample_text s = Chunkdat None 0 (Some (Chunk_string s))"

definition sample_chunk :: chunkdat where
  "sample_chunk = Chunkdat None 0 (Some (Chunk_map
     [(''k'', Chunkdat None 0 (Some (Chunk_list [sample_text ''a #b'', sample_text ''x''])))]))"

lemmas sample_chunk_simps = sample_chunk_def sample_text_def

lemma mem_ok_x: "mem_ok (\<lambda>_. ''x'')"
  by (simp add: mem_ok_def isRead_def schar_def)

lemma sample_chunk_ok:
  "printable sample_chunk" "wf_chunk sample_chunk" "chunk_type sample_chunk = MapT" "blank [tab]"
  by (simp_all add: sample_chunk_simps plain_key_def plain_text_def first_word_def skip_eq isRead_def schar_def)

lemma sample_chunk_length: "length (strval 0 [tab] sample_chunk) < 100"
  by (simp add: sample_chunk_simps erase_at_def repeatString.simps strval_values.simps del: strval_values_Cons)

section \<open>Properties\<close>

text \<open>C1: parsing what \<open>strval\<close> prints gives the printed data back, at any depth of nesting, any
  alignment and any blank aligner: \<open>set\<close> succeeds and the object differs in its trace only.\<close>

theorem parse_strval:
  assumes "mem_ok mem" "blank ws" "printable c" "length (strval al ws c) < 2 ^ 32"
  shows "\<exists>c'. set_str mem (strval al ws c) off p = (None, c') \<and> untrace c' = untrace c"
  using printable_reads_back [OF assms(1-3)] assms(4) unfolding reads_back_def by blast

theorem parse_strval_witness:
  "\<exists>c'. set_str (\<lambda>_. ''x'') (strval 0 [tab] sample_chunk) 5 (Some 1) = (None, c')
    \<and> untrace c' = untrace sample_chunk"
  by (rule parse_strval [OF mem_ok_x]) (use sample_chunk_length in \<open>simp_all add: sample_chunk_ok\<close>)

text \<open>C4: whatever text is assigned, the object left behind is well formed, also when the call
  throws; when it does not, no object inside is empty and no key is.\<close>

theorem parse_well_formed:
  assumes "set_str mem inp off p = (e, c)"
  shows "wf_chunk c \<and> (e = None \<longrightarrow> filled c)"
  using parse_good [of mem inp off p] assms by simp

theorem parse_well_formed_witness:
  "wf_chunk (snd (set_str (\<lambda>_. ''x'') ''{a=b;a=c}'' 0 None))"
  using parse_well_formed [OF surjective_pairing, of "\<lambda>_. ''x''" "''{a=b;a=c}''" 0 None] by blast

text \<open>C5: as long as some readable character lies behind every string in memory, the result of an
  assignment does not depend on what lies there, and no read faults.\<close>

theorem parse_memory_independent:
  assumes "mem_ok mem" "mem_ok mem'"
  shows "set_str mem inp off p = set_str mem' inp off p \<and> fst (set_str mem inp off p) \<noteq> Some Segfault"
  using set_str_mem [OF assms] by simp

theorem parse_memory_independent_witness:
  "set_str (\<lambda>_. ''x'') ''[a, b ]'' 0 None = set_str (\<lambda>_. ''yz'') ''[a, b ]'' 0 None
    \<and> fst (set_str (\<lambda>_. ''x'') ''[a, b ]'' 0 None) \<noteq> Some Segfault"
  by (rule parse_memory_independent [OF mem_ok_x]) (simp add: mem_ok_def isRead_def schar_def)

text \<open>C7: the 32-bit nesting counters of the scanners of maps and lists never decide otherwise than
  an unbounded depth would, on texts shorter than \<open>2 ^ 32\<close>.\<close>

theorem nested_scan_unbounded:
  assumes "length r < 2 ^ 32"
  shows "scan_map str i (op # r) val = scan_ref CHR ''{'' CHR ''}'' str i 0 (Suc i) r (val @ [op])
    \<and> scan_list str i (op # r) val = scan_ref CHR ''['' CHR '']'' str i 0 (Suc i) r (val @ [op])"
  using scan_nested_map [of 0 r str i "Suc i" "val @ [op]"]
    scan_nested_list [of 0 r str i "Suc i" "val @ [op]"] assms
  by (simp add: scan_map_def scan_list_def)

theorem nested_scan_unbounded_witness:
  "scan_map ''{{}}'' 0 ''{{}}'' [] = scan_ref CHR ''{'' CHR ''}'' ''{{}}'' 0 0 1 ''{}}'' ''{''
    \<and> scan_list ''{{}}'' 0 ''{{}}'' [] = scan_ref CHR ''['' CHR '']'' ''{{}}'' 0 0 1 ''{}}'' ''{''"
  using nested_scan_unbounded [of "''{}}''" "''{{}}''" 0 "CHR ''{''" "[]"] by simp

text \<open>C8: Reading a quoted text undoes \<open>escape\<close> exactly when the text does not end in a
  backslash: then the text comes back from between its quotes, and copying it inside a bracket
  keeps it as it stands. The backslash of a text that ends in one is taken for the escape of the
  closing quote: the quote becomes part of the text and reading goes on behind it.\<close>

theorem escape_read_back:
  "quoted dquote i (escape s dquote @ dquote # r) val =
      (if s \<noteq> [] \<and> last s = bslash
       then quoted dquote (i + length (escape s dquote) + 1) r (val @ butlast s @ [dquote])
       else Some (val @ s, i + length (escape s dquote) + 1, r))
    \<and> quoted_raw dquote i (escape s dquote @ dquote # r) val =
      (if s \<noteq> [] \<and> last s = bslash
       then quoted_raw dquote (i + length (escape s dquote) + 1) r (val @ escape s dquote @ [dquote])
       else Some (val @ escape s dquote @ [dquote], i + length (escape s dquote) + 1, r))"
  using quoted_escape quoted_raw_escape escape_runs_on by (metis (no_types, lifting))

text \<open>One step of the loops over entries and items leaves no more text than it took and, unless
  the text is used up, less: the loops of \<open>set\<close> end.\<close>

theorem scanners_progress:
  "(getstrval mem str d a = Inr (v, r, i, st, f) \<longrightarrow>
      length v + length r \<le> length str \<and> (r \<noteq> [] \<longrightarrow> length r < length str))
    \<and> (getkeyval mem str = Inr (key, v, r, rr, vs, ks) \<longrightarrow>
      length v \<le> length str \<and> (r \<noteq> [] \<longrightarrow> length r < length str))"
  using getstrval_len [of mem str d a v r i st f] getkeyval_len [of mem str key v r rr vs ks] by blast

theorem scanners_progress_witness:
  "length ''b'' + length ''c'' \<le> length ''b,c''"
proof -
  have "getstrval (\<lambda>_. ''x'') ''b,c'' CHR '','' CHR '';'' = Inr (''b'', ''c'', 2, 0, True)" by code_simp
  with scanners_progress [of "\<lambda>_. ''x''" "''b,c''" "CHR '',''" "CHR '';''" "''b''" "''c''" 2 0 True]
  show ?thesis by blast
qed

section \<open>What a parse throws\<close>

lemma scan_parse_exn: "scan_nested op ot cl str start n i r val = Inl e \<Longrightarrow> parse_exn e"
  by (induction op ot cl str start n i r val rule: scan_nested.induct) (auto split: if_splits option.splits)

lemma unquote_parse_exn: "unquote str i r val = Inl e \<Longrightarrow> parse_exn e"
  by (auto simp: unquote_def split: if_splits option.splits)

lemma getstr_parse_exn: "getstr_loop m str d a i r val = Inl e \<Longrightarrow> parse_exn e"
proof (induction m str d a i r val rule: getstr_loop.induct)
  case (1 m str d a i r val)
  show ?case using "1.prems" "1.IH" unquote_parse_exn [of str i r val] scan_parse_exn
    by (subst (asm) getstr_loop.simps)
      (auto simp: scan_map_def scan_list_def split: if_splits sum.splits option.splits)
qed

lemma getstrval_parse_exn: "getstrval mem str d a = Inl e \<Longrightarrow> parse_exn e"
  using getstr_parse_exn by (auto simp: getstrval_def Let_def split: if_splits sum.splits prod.splits)

lemma getkeyval_parse_exn: "getkeyval mem str = Inl e \<Longrightarrow> parse_exn e"
  using getstrval_parse_exn by (auto simp: getkeyval_def Let_def split: if_splits sum.splits prod.splits option.splits)

lemma map_loop_parse_exn:
  assumes "\<And>v off' x. length v \<le> length str \<Longrightarrow> fst (set_str mem v off' p) = Some x \<Longrightarrow> parse_exn x"
    and "fst (map_loop mem inp off p i str m) = Some e"
  shows "parse_exn e"
  using assms
proof (induction str arbitrary: i m rule: length_induct)
  case (1 str)
  note simps = map_loop.simps [of mem inp off p i str m]
  show ?case
  proof (cases "cur (fst (skip str)) = CHR ''='' \<or> (\<exists>x. getkeyval mem str = Inl x)")
    case True
    then show ?thesis using "1.prems"(2) getkeyval_parse_exn [of mem str]
      by (auto simp: simps split: if_splits intro!: catch_parse_exn)
  next
    case False
    then obtain k v r rr vs ks where res: "getkeyval mem str = Inr (k, v, r, rr, vs, ks)"
      by (metis old.sum.exhaust prod_cases6)
    note len = getkeyval_len [OF res]
    have IH: "parse_exn e" if "fst (map_loop mem inp off p i' r m') = Some e" "r \<noteq> []" for i' m'
      using "1.IH" "1.prems"(1) len(2) that by (meson le_trans less_imp_le)
    obtain x c where sub: "set_str mem v (off + (i + vs)) p = (x, c)" by force
    then have "parse_exn y" if "x = Some y" for y
      using "1.prems"(1) [OF len(1), of "off + (i + vs)" y] that by simp
    then show ?thesis using "1.prems"(2) False res IH sub
      by (cases x) (auto simp: simps Let_def from_set_def split: if_splits prod.splits intro!: catch_parse_exn)
  qed
qed

lemma list_loop_parse_exn:
  assumes "\<And>v off' x. length v \<le> length str \<Longrightarrow> fst (set_str mem v off' p) = Some x \<Longrightarrow> parse_exn x"
    and "fst (list_loop mem inp off p i str l) = Some e"
  shows "parse_exn e"
  using assms
proof (induction str arbitrary: i l rule: length_induct)
  case (1 str)
  note simps = list_loop.simps [of mem inp off p i str l]
  show ?case
  proof (cases "getstrval mem str CHR '','' CHR '';''")
    case (Inl x)
    then show ?thesis using "1.prems"(2) getstrval_parse_exn [OF Inl] by (auto simp: simps intro!: catch_parse_exn)
  next
    case (Inr res)
    obtain v r q vs b where res: "res = (v, r, q, vs, b)" by (cases res) auto
    note len = getstrval_len [OF Inr [unfolded res]]
    have IH: "parse_exn e" if "fst (list_loop mem inp off p i' r l') = Some e" "r \<noteq> []" for i' l'
      using "1.IH" "1.prems"(1) len(2) that by (meson le_trans less_imp_le)
    obtain x c where sub: "set_str mem v (off + (i + vs)) p = (x, c)" by force
    then have "parse_exn y" if "x = Some y" for y
      using "1.prems"(1) [of v "off + (i + vs)" y] len(1) that by simp
    then show ?thesis using "1.prems"(2) Inr res IH sub
      by (cases x) (auto simp: simps Let_def from_set_def split: if_splits intro!: catch_parse_exn)
  qed
qed

lemma set_str_parse_exn: "fst (set_str mem inp off p) = Some e \<Longrightarrow> parse_exn e"
proof (induction inp arbitrary: off e rule: length_induct)
  case (1 inp)
  have IH: "parse_exn x" if "length v < length inp" "fst (set_str mem v off' p) = Some x" for v off' x
    using "1.IH" that by blast
  show ?case
  proof (cases rule: set_str_step [of mem inp off p])
    case (error x)
    then show ?thesis using "1.prems" getstrval_parse_exn by auto
  next
    case (entries i str x m)
    then have "fst (map_loop mem inp off p i str []) = Some e" using "1.prems" by simp
    then show ?thesis by (rule map_loop_parse_exn [rotated]) (use IH entries(3) in \<open>meson le_less_trans\<close>)
  next
    case (elements i str x l)
    then have "fst (list_loop mem inp off p i str []) = Some e" using "1.prems" by simp
    then show ?thesis by (rule list_loop_parse_exn [rotated]) (use IH elements(3) in \<open>meson le_less_trans\<close>)
  qed (use "1.prems" in simp_all)
qed

end
