(* ===== verification/Overread.thy ===== *)
theory Overread
  imports ParseFacts
begin

text \<open>
  The loop of the scanner that has no bound (src/src/filedat.cpp, line 401): which printed texts
  make it run past the terminator. The step lemmas for one entry and one item are those of
  the theory Roundtrip.
\<close>

section \<open>Reading past the terminator\<close>

text \<open>No byte behind any string is readable.\<close>

definition mem_blank :: "(string \<Rightarrow> string) \<Rightarrow> bool" where
  "mem_blank mem \<longleftrightarrow> (\<forall>s. blank (mem s))"

text \<open>A list with items occurs in the tree.\<close>

fun has_items :: "chunkdat \<Rightarrow> bool" and has_items_values :: "(string \<times> chunkdat) list \<Rightarrow> bool" where
  "has_items (Chunkdat p off a) = (case a of Some (Chunk_list l) \<Rightarrow> l \<noteq> []
     | Some (Chunk_map m) \<Rightarrow> has_items_values m | _ \<Rightarrow> False)"
| "has_items_values [] = False"
| "has_items_values ((k, c) # m) = (has_items c \<or> has_items_values m)"

definition faults :: "(string \<Rightarrow> string) \<Rightarrow> string \<Rightarrow> chunkdat \<Rightarrow> bool" where
  "faults mem ws c \<longleftrightarrow> (\<forall>al off p. length (strval al ws c) < 2 ^ 32 \<longrightarrow>
     fst (set_str mem (strval al ws c) off p) = Some Segfault)"

lemma nonread_blank: "blank cs \<Longrightarrow> isRead d \<Longrightarrow> isRead a \<Longrightarrow> nonread_loop d a cs tval = None"
  by (induction d a cs tval rule: nonread_loop.induct) (auto simp: blank_def)

lemma getstrval_last_faults:
  assumes c: "printable c" and ws: "blank ws" and u: "blank u" and t: "blank t" and mem: "mem_blank mem"
    and len: "length (child_text al ws c @ newline # t) < 2 ^ 32"
  shows "getstrval mem (u @ child_text al ws c @ newline # t) CHR '','' CHR '';'' = Inl Segfault"
proof -
  let ?s = "u @ child_text al ws c @ newline # t"
  let ?i = "length u + length (child_text al ws c)"
  obtain x xs where x: "child_text al ws c = x # xs" "isRead x"
    using child_text_hd [OF c ws] by blast
  have uq: "unquote ?s ?i (newline # t) v = Inr (v, ?i, newline # t)" for v
    by (intro unquote_id) auto
  have "blank ((newline # t) @ nul # mem ?s)" using t mem by (auto simp: blank_def mem_blank_def)
  then have "nonread_loop CHR '','' CHR '';'' ((newline # t) @ nul # mem ?s) [] = None" by (rule nonread_blank) simp_all
  then have "getstr_loop (mem ?s) ?s CHR '','' CHR '';'' ?i (newline # t) v = Inl Segfault" for v
    using uq [of v] by (subst getstr_loop.simps) simp
  then have "getstr_loop (mem ?s) ?s CHR '','' CHR '';'' (length u) (child_text al ws c @ newline # t) [] = Inl Segfault"
    using getstr_child [OF c ws _ _ len] by simp
  with x u show ?thesis by (simp add: getstrval_def Let_def)
qed

lemma child_outcome:
  assumes "reads_back mem ws c \<or> faults mem ws c" "length (child_text al ws c) < 2 ^ 32"
  shows "(\<exists>c'. set_str mem (strval (al + 1) ws c) off p = (None, c')) \<or>
    (\<exists>c'. set_str mem (strval (al + 1) ws c) off p = (Some Segfault, c'))"
  using assms child_text_longer [of al ws c]
  by (metis faults_def reads_back_def le_less_trans prod.collapse)

lemma list_loop_faults:
  assumes "\<And>c. c \<in> set l \<Longrightarrow> reads_back mem ws c \<or> faults mem ws c"
    and "printable_items l" "blank ws" "blank v" "blank u" "mem_blank mem" "l \<noteq> []"
    and "length (items_text al ws l) + length u < 2 ^ 32"
  shows "fst (list_loop mem inp off p i (v @ items_text al ws l @ u) acc) = Some Segfault"
  using assms
proof (induction l arbitrary: i v acc)
  case (Cons c l)
  have c: "printable c" using Cons.prems by simp
  show ?case
  proof (cases "l = []")
    case True
    have "length (child_text al ws c @ newline # u) < 2 ^ 32"
      using Cons.prems(8) True by (simp add: items_text_Cons)
    from getstrval_last_faults [OF c Cons.prems(3) _ Cons.prems(5, 6) this, of "v @ repeatString ws (al + 1)"]
    have "getstrval mem (v @ items_text al ws (c # l) @ u) CHR '','' CHR '';'' = Inl Segfault"
      using True Cons.prems(3, 4) by (simp add: items_text_Cons)
    then show ?thesis by (subst list_loop.simps) simp
  next
    case False
    obtain vs q h where step: "list_loop mem inp off p i (v @ items_text al ws (c # l) @ u) acc =
      (case set_str mem (strval (al + 1) ws c) (off + (i + vs)) p of
         (Some e, _) \<Rightarrow> (Some (catch_format h e), acc)
       | (None, c') \<Rightarrow> list_loop mem inp off p (i + q) ([newline] @ items_text al ws l @ u) (acc @ [c']))"
      using list_loop_step [OF Cons.prems(2-4) False Cons.prems(8)] by blast
    have len: "length (child_text al ws c) < 2 ^ 32" using Cons.prems(8) by (simp add: items_text_Cons)
    have "reads_back mem ws c \<or> faults mem ws c" using Cons.prems(1) by simp
    from child_outcome [OF this len, of "off + (i + vs)" p] show ?thesis
    proof (elim disjE exE)
      fix c' assume "set_str mem (strval (al + 1) ws c) (off + (i + vs)) p = (None, c')"
      moreover have "fst (list_loop mem inp off p (i + q) ([newline] @ items_text al ws l @ u) (acc @ [c'])) = Some Segfault"
        using Cons.prems False by (intro Cons.IH) (auto simp: items_text_Cons)
      ultimately show ?thesis using step by simp
    next
      fix c' assume "set_str mem (strval (al + 1) ws c) (off + (i + vs)) p = (Some Segfault, c')"
      then show ?thesis using step by simp
    qed
  qed
qed simp

lemma map_loop_faults:
  assumes "\<And>k c. (k, c) \<in> set m \<Longrightarrow> reads_back mem ws c \<or> faults mem ws c"
    and "\<exists>(k, c) \<in> set m. faults mem ws c"
    and "printable_values m" "blank ws" "blank v" "blank u" "map_ok (acc @ m)"
    and "length (strval_values al ws m) + length u < 2 ^ 32"
  shows "fst (map_loop mem inp off p i (v @ strval_values al ws m @ u) acc) = Some Segfault"
  using assms
proof (induction m arbitrary: i v acc)
  case (Cons e m)
  obtain k c where e: "e = (k, c)" by force
  have len: "length (child_text al ws c) < 2 ^ 32" using Cons.prems(8) e by simp
  obtain vs rr h where step: "map_loop mem inp off p i (v @ strval_values al ws (e # m) @ u) acc =
    (case set_str mem (strval (al + 1) ws c) (off + (i + vs)) p of
       (Some e, _) \<Rightarrow> (Some (catch_format h e), acc)
     | (None, c') \<Rightarrow> (if strval_values al ws m @ u = [] then (None, acc @ [(k, c')])
                    else map_loop mem inp off p (i + rr) (strval_values al ws m @ u) (acc @ [(k, c')])))"
    using map_loop_step [of k c m ws v acc al u mem inp off p i] Cons.prems e by blast
  have "reads_back mem ws c \<or> faults mem ws c" using Cons.prems(1) e by auto
  from child_outcome [OF this len, of "off + (i + vs)" p] show ?case
  proof (elim disjE exE)
    fix c' assume c': "set_str mem (strval (al + 1) ws c) (off + (i + vs)) p = (None, c')"
    then have "\<not> faults mem ws c"
      using child_text_longer [of al ws c] len unfolding faults_def by (metis fst_conv le_less_trans option.distinct(1))
    then have ex: "\<exists>(k, c) \<in> set m. faults mem ws c" using Cons.prems(2) e by auto
    then have "strval_values al ws m \<noteq> []" by (cases m) auto
    moreover have "fst (map_loop mem inp off p (i + rr) ([] @ strval_values al ws m @ u) (acc @ [(k, c')])) = Some Segfault"
      using Cons.prems e ex by (intro Cons.IH) (auto simp: map_ok_def)
    ultimately show ?thesis using step c' by simp
  next
    fix c' assume "set_str mem (strval (al + 1) ws c) (off + (i + vs)) p = (Some Segfault, c')"
    then show ?thesis using step by simp
  qed
qed simp


lemma list_faults:
  assumes "\<And>c. c \<in> set l \<Longrightarrow> reads_back mem ws c \<or> faults mem ws c"
    and "printable_items l" "blank ws" "mem_blank mem" "l \<noteq> []"
  shows "faults mem ws (Chunkdat p off (Some (Chunk_list l)))"
  unfolding faults_def
proof (intro allI impI)
  fix al off' p'
  let ?b = "[newline] @ items_text al ws l @ repeatString ws al"
  assume "length (strval al ws (Chunkdat p off (Some (Chunk_list l)))) < 2 ^ 32"
  then have len: "length ?b + 2 < 2 ^ 32" using assms(5) by (simp only: strval_nested) simp
  have br: "brackets CHR ''['' CHR '']''" by (simp add: brackets_def)
  have "passes CHR ''['' CHR '']'' (items_text al ws l)"
    using assms(2, 3) br by (intro passes_items) (auto simp: printable_items_iff intro: passes_child)
  with br assms(3) have ps: "passes CHR ''['' CHR '']'' ?b"
    by (auto intro!: passes_append passes_char intro: passes_blank simp del: append.simps)
  obtain c l2 where cl: "l = c # l2" using assms(5) by (cases l) auto
  with assms(2, 3) child_text_hd [of c ws al] have nb: "\<not> blank ?b"
    by (auto simp: items_text_Cons)
  have "length (items_text al ws l) + length (repeatString ws al) < 2 ^ 32" using len by simp
  then have "fst (list_loop mem inp off' p' 1 ?b []) = Some Segfault" for inp
    by (intro list_loop_faults assms) (use assms(3) in auto)
  then show "fst (set_str mem (strval al ws (Chunkdat p off (Some (Chunk_list l)))) off' p') = Some Segfault"
    using set_str_bracketed(2) [OF len ps, of mem off' p'] nb assms(5)
    unfolding strval_nested by (simp split: prod.splits) (metis fst_conv)
qed

lemma map_faults:
  assumes "\<And>k c. (k, c) \<in> set m \<Longrightarrow> reads_back mem ws c \<or> faults mem ws c"
    and "\<exists>(k, c) \<in> set m. faults mem ws c" "map_ok m" "printable_values m" "blank ws"
  shows "faults mem ws (Chunkdat p off (Some (Chunk_map m)))"
  unfolding faults_def
proof (intro allI impI)
  fix al off' p'
  let ?b = "[newline] @ strval_values al ws m @ repeatString ws al"
  have "m \<noteq> []" using assms(2) by auto
  assume "length (strval al ws (Chunkdat p off (Some (Chunk_map m)))) < 2 ^ 32"
  then have len: "length ?b + 2 < 2 ^ 32" using \<open>m \<noteq> []\<close> by (simp only: strval_nested) simp
  have br: "brackets CHR ''{'' CHR ''}''" by (simp add: brackets_def)
  have "passes CHR ''{'' CHR ''}'' (strval_values al ws m)"
    using assms(4, 5) br by (intro passes_values) (auto simp: printable_values_iff intro: passes_child)
  with br assms(5) have ps: "passes CHR ''{'' CHR ''}'' ?b"
    by (auto intro!: passes_append passes_char intro: passes_blank simp del: append.simps)
  obtain k c m2 where "m = (k, c) # m2" using \<open>m \<noteq> []\<close> by (cases m) auto
  with assms(4) have nb: "\<not> blank ?b" by (auto simp: plain_key_def blank_def neq_Nil_conv)
  have "length (strval_values al ws m) + length (repeatString ws al) < 2 ^ 32" using len by simp
  then have "fst (map_loop mem inp off' p' 1 ?b []) = Some Segfault" for inp
    by (intro map_loop_faults assms) (use assms(3, 5) in auto)
  then show "fst (set_str mem (strval al ws (Chunkdat p off (Some (Chunk_map m)))) off' p') = Some Segfault"
    using set_str_bracketed(1) [OF len ps, of mem off' p'] nb \<open>m \<noteq> []\<close>
    unfolding strval_nested by (simp split: prod.splits) (metis fst_conv)
qed

lemma empty_list_reads_back: "reads_back mem ws (Chunkdat p off (Some (Chunk_list [])))"
  using set_str_bracketed(2) [of "[]" mem] by (simp add: reads_back_def blank_def passes_def)

lemma has_items_values_iff: "has_items_values m \<longleftrightarrow> (\<exists>(k, c) \<in> set m. has_items c)"
  by (induction m) auto

lemma printed_outcome:
  assumes mem: "mem_blank mem" and ws: "blank ws"
  shows "printable c \<Longrightarrow> if has_items c then faults mem ws c else reads_back mem ws c"
proof (induction c rule: chunk_induct)
  case (string p off s)
  then show ?case by (simp add: reads_back_def set_str_text)
next
  case (map p off m)
  have each: "if has_items c then faults mem ws c else reads_back mem ws c" if "(k, c) \<in> set m" for k c
    using map that by (auto simp: printable_values_iff)
  have m: "map_ok m" "printable_values m" using map.prems by auto
  show ?case
  proof (cases "has_items_values m")
    case True
    then have "\<exists>(k, c) \<in> set m. faults mem ws c" using each by (force simp: has_items_values_iff)
    moreover have "reads_back mem ws c \<or> faults mem ws c" if "(k, c) \<in> set m" for k c
      using each [OF that] by (auto split: if_splits)
    ultimately have "faults mem ws (Chunkdat p off (Some (Chunk_map m)))" by (intro map_faults m ws)
    with True show ?thesis by simp
  next
    case False
    then have "reads_back mem ws (Chunkdat p off (Some (Chunk_map m)))"
      using each by (intro map_reads_back m ws) (force simp: has_items_values_iff)
    with False show ?thesis by simp
  qed
next
  case (list p off l)
  have each: "reads_back mem ws c \<or> faults mem ws c" if "c \<in> set l" for c
    using list.IH [OF that] list.prems that by (auto simp: printable_items_iff split: if_splits)
  then show ?case using list_faults [OF each _ ws mem] empty_list_reads_back list.prems by (cases "l = []") auto
qed simp

text \<open>C6: Without readable memory behind the strings, the parser cannot read back the text of a tree
  with a non-empty list in it, at whatever depth: behind its last item \<open>strval\<close> writes a line
  break, where the scan runs past the terminator and faults. All other printed trees are read.\<close>

theorem parse_reads_past_end:
  assumes "mem_blank mem" "blank ws" "printable c" "length (strval al ws c) < 2 ^ 32"
  shows "fst (set_str mem (strval al ws c) off p) = (if has_items c then Some Segfault else None)"
  using printed_outcome [OF assms(1-3)] assms(4) unfolding faults_def reads_back_def
  by (metis fst_conv)

theorem parse_reads_past_end_witness:
  "fst (set_str (\<lambda>_. []) (strval 0 [tab] sample_chunk) 0 None) = Some Segfault"
proof -
  have "has_items sample_chunk" by (simp add: sample_chunk_simps)
  with parse_reads_past_end [of "\<lambda>_. []" "[tab]" sample_chunk 0 0 None] sample_chunk_length
  show ?thesis by (simp add: sample_chunk_ok mem_blank_def)
qed

end
