(* ===== verification/Chunk_Ops.thy ===== *)
theory Chunk_Ops
  imports Chunk
begin

text \<open>
  The operations of \<open>chunkdat\<close> on a tree already built (src/src/filedat.cpp, lines 623-1054,
  and the inline members and operators of src/include/filedat.hpp): adding, concatenating,
  merging, erasing, looking up, and the constructors.

  A member function that changes the object returns the exception it leaves with, if any,
  and the object as it then is: an exception thrown half way keeps what was already added.
  An argument \<open>chunkdat const&\<close> is an object distinct from \<open>*this\<close> (see Chunk_Self and Chunk_Client for others). The file an object
  names in its messages is looked up in \<open>files\<close>, path and imported data by address.
\<close>

section \<open>Results\<close>

type_synonym outcome = "exn option \<times> chunkdat"
type_synonym files = "nat \<Rightarrow> string \<times> string"

text \<open>A range-based \<open>for\<close> whose body may throw.\<close>

fun for_each :: "('e \<Rightarrow> chunkdat \<Rightarrow> outcome) \<Rightarrow> 'e list \<Rightarrow> chunkdat \<Rightarrow> outcome" where
  "for_each f [] this = (None, this)"
| "for_each f (x # xs) this =
     (case f x this of (Some e, this') \<Rightarrow> (Some e, this')
      | (None, this') \<Rightarrow> for_each f xs this')"

text \<open>The \<open>format_error\<close> of an object without a file: its own text is the data.\<close>

definition own_error :: "string \<Rightarrow> chunkdat \<Rightarrow> exn" where
  "own_error msg this = Format_error msg [] (strval 0 [tab] this) (-1)"

definition located_error :: "files \<Rightarrow> string \<Rightarrow> chunkdat \<Rightarrow> exn" where
  "located_error files msg this =
     (case m_parent this of
        Some f \<Rightarrow> Format_error msg (fst (files f)) (snd (files f)) (m_offset this)
      | None \<Rightarrow> own_error msg this)"

definition key_message :: "string \<Rightarrow> string \<Rightarrow> string \<Rightarrow> string" where
  "key_message pre key post = pre @ [squote] @ key @ [squote] @ post"

definition set_achunk :: "chunk_abstract \<Rightarrow> chunkdat \<Rightarrow> chunkdat" where
  "set_achunk a this = Chunkdat (m_parent this) (m_offset this) (Some a)"

lemma set_achunk_simps [simp]:
  "set_achunk a (Chunkdat p off b) = Chunkdat p off (Some a)"
  "m_achunk (set_achunk a c) = Some a"
  "m_parent (set_achunk a c) = m_parent c"
  "m_offset (set_achunk a c) = m_offset c"
  "chunk_type (set_achunk a c) = abstract_type a"
  by (simp_all add: set_achunk_def)

section \<open>Assignment and construction\<close>

text \<open>\<open>set(chunkdat const&)\<close>: nothing of the old object is left.\<close>

definition set_chunk :: "chunkdat \<Rightarrow> chunkdat \<Rightarrow> chunkdat" where
  "set_chunk c this = copy_chunk c"

text \<open>\<open>set(const char*, int, int, filedat*)\<close> and the constructors from text.\<close>

definition set_chars :: "(string \<Rightarrow> string) \<Rightarrow> string \<Rightarrow> nat \<Rightarrow> int \<Rightarrow> nat option \<Rightarrow> outcome" where
  "set_chars mem p n offset parent = set_str mem (take n p) offset parent"

definition chunkdat_of_cstring :: "(string \<Rightarrow> string) \<Rightarrow> string \<Rightarrow> exn + chunkdat" where
  "chunkdat_of_cstring mem p = from_set (set_chars mem p (length (cstr p)) 0 None)"

definition chunkdat_of_chars :: "(string \<Rightarrow> string) \<Rightarrow> string \<Rightarrow> nat \<Rightarrow> int \<Rightarrow> nat option \<Rightarrow> exn + chunkdat" where
  "chunkdat_of_chars mem p in_size offset parent = from_set (set_chars mem p in_size offset parent)"

definition chunkdat_of_chunk :: "chunkdat \<Rightarrow> chunkdat" where
  "chunkdat_of_chunk c = set_chunk c new_chunkdat"

definition chunkdat_of_string :: "(string \<Rightarrow> string) \<Rightarrow> string \<Rightarrow> int \<Rightarrow> nat option \<Rightarrow> exn + chunkdat" where
  "chunkdat_of_string mem s offset parent = from_set (set_str mem s offset parent)"

section \<open>Adding\<close>

definition addToMap :: "string \<times> chunkdat \<Rightarrow> chunkdat \<Rightarrow> outcome" where
  "addToMap kv this =
     (case m_achunk this of
        Some (Chunk_map m) \<Rightarrow>
          (case map_insert (fst kv) (copy_chunk (snd kv)) m of (m', second) \<Rightarrow>
             let this' = set_achunk (Chunk_map m') this
             in if second then (None, this')
                else (Some (own_error (key_message ''Key '' (fst kv) '' already present'') this'), this'))
      | None \<Rightarrow>
          (None, set_achunk (Chunk_map (fst (map_insert (fst kv) (copy_chunk (snd kv)) []))) this)
      | Some _ \<Rightarrow> (Some (own_error ''Cannot add keys to non-map chunks'' this), this))"

definition addToMap_vec :: "(string \<times> chunkdat) list \<Rightarrow> chunkdat \<Rightarrow> outcome" where
  "addToMap_vec vec this = for_each addToMap vec this"

definition addToList :: "chunkdat \<Rightarrow> chunkdat \<Rightarrow> outcome" where
  "addToList c this =
     (case m_achunk this of
        Some (Chunk_list l) \<Rightarrow> (None, set_achunk (Chunk_list (l @ [copy_chunk c])) this)
      | None \<Rightarrow> (None, set_achunk (Chunk_list [copy_chunk c]) this)
      | Some _ \<Rightarrow> (Some (own_error ''Cannot add elements to non-list chunks'' this), this))"

definition addToList_vec :: "chunkdat list \<Rightarrow> chunkdat \<Rightarrow> outcome" where
  "addToList_vec vec this = for_each addToList vec this"

section \<open>Concatenating and merging\<close>

definition concatenate :: "chunkdat \<Rightarrow> chunkdat \<Rightarrow> outcome" where
  "concatenate chk this =
     (case (m_achunk this, m_achunk chk) of
        (None, _) \<Rightarrow> (None, set_chunk chk this)
      | (Some (Chunk_map _), Some (Chunk_map m)) \<Rightarrow> for_each addToMap m this
      | (Some (Chunk_list _), Some (Chunk_list l)) \<Rightarrow> for_each addToList l this
      | (Some (Chunk_string s), Some (Chunk_string t)) \<Rightarrow>
          (None, set_achunk (Chunk_string (s @ t)) this)
      | _ \<Rightarrow> (Some (Format_error ''Cannot concatenate chunks of different types'' [] [] (-1)), this))"

text \<open>
  \<open>merge\<close> (lines 751-798). The loop over the keys of the argument is \<open>merge_values\<close>; the
  iterator of a key already present is written through, also when the inner merge throws.
\<close>

fun merge :: "bool \<Rightarrow> chunkdat \<Rightarrow> chunkdat \<Rightarrow> outcome"
  and merge_values :: "bool \<Rightarrow> (string \<times> chunkdat) list \<Rightarrow> chunkdat \<Rightarrow> outcome" where
  "merge overwrite (Chunkdat p off a) this =
     (case m_achunk this of
        None \<Rightarrow> (None, set_chunk (Chunkdat p off a) this)
      | Some cc \<Rightarrow>
          (case a of
             Some (Chunk_map ci) \<Rightarrow>
               (if abstract_type cc = MapT then merge_values overwrite ci this
                else if overwrite then (None, set_chunk (Chunkdat p off a) this)
                else (Some (Format_error ''Cannot merge chunks of different types'' [] [] (-1)), this))
           | Some (Chunk_list ci) \<Rightarrow>
               (if abstract_type cc = ListT then for_each addToList ci this
                else if overwrite then (None, set_chunk (Chunkdat p off a) this)
                else (Some (Format_error ''Cannot merge chunks of different types'' [] [] (-1)), this))
           | Some (Chunk_string s) \<Rightarrow>
               (if abstract_type cc = StringT then
                  (if overwrite then (None, set_achunk (Chunk_string (strval 0 [tab] (Chunkdat p off a))) this)
                   else (Some (Format_error ''Cannot merge string chunks'' [] [] (-1)), this))
                else if overwrite then (None, set_chunk (Chunkdat p off a) this)
                else (Some (Format_error ''Cannot merge chunks of different types'' [] [] (-1)), this))
           | None \<Rightarrow>
               (if overwrite then (None, set_chunk (Chunkdat p off a) this)
                else (Some (Format_error ''Cannot merge chunks of different types'' [] [] (-1)), this))))"
| "merge_values overwrite [] this = (None, this)"
| "merge_values overwrite ((k, c) # ci) this =
     (case m_achunk this of
        Some (Chunk_map cc) \<Rightarrow>
          (case (case map_find k cc of
                   None \<Rightarrow> addToMap (k, c) this
                 | Some sub \<Rightarrow>
                     (case merge overwrite c sub of (e, sub') \<Rightarrow>
                        (e, set_achunk (Chunk_map (map_assign k sub' cc)) this))) of
             (Some e, this') \<Rightarrow> (Some e, this')
           | (None, this') \<Rightarrow> merge_values overwrite ci this')
      | _ \<Rightarrow> (Some Undefined, this))"

section \<open>Erasing\<close>

text \<open>\<open>std::to_string\<close> of an \<open>int\<close>.\<close>

definition int_to_string :: "int \<Rightarrow> string" where
  "int_to_string n = (if n < 0 then ''-'' @ to_string (nat (- n)) else to_string (nat n))"

text \<open>\<open>listSize\<close> narrows the size of the vector to \<open>int\<close>.\<close>

definition listSize :: "chunkdat \<Rightarrow> int" where
  "listSize this =
     (case m_achunk this of Some (Chunk_list l) \<Rightarrow> sint (of_nat (length l) :: 32 word) | _ \<Rightarrow> -1)"

definition erase_key :: "string \<Rightarrow> chunkdat \<Rightarrow> outcome" where
  "erase_key key this =
     (case m_achunk this of
        Some (Chunk_map m) \<Rightarrow>
          (if map_find key m = None
           then (Some (own_error (key_message ''Key '' key '' not present'') this), this)
           else (None, set_achunk (Chunk_map (map_erase key m)) this))
      | _ \<Rightarrow> (Some (own_error ''Cannot erase element from non-map chunk'' this), this))"

definition erase_index :: "32 word \<Rightarrow> chunkdat \<Rightarrow> outcome" where
  "erase_index index this =
     (case m_achunk this of
        Some (Chunk_list l) \<Rightarrow>
          (if (of_int (listSize this) :: 32 word) \<le> index
           then (Some (own_error (''Cannot erase out of bonds: '' @ to_string (unat index)
                  @ '' in size '' @ int_to_string (listSize this)) this), this)
           else (None, set_achunk (Chunk_list (take (unat index) l @ drop (Suc (unat index)) l)) this))
      | _ \<Rightarrow> (Some (own_error ''Cannot erase element from non-list chunk'' this), this))"

section \<open>Looking up\<close>

definition getlist :: "files \<Rightarrow> chunkdat \<Rightarrow> exn + chunkdat list" where
  "getlist files this =
     (case m_achunk this of Some (Chunk_list l) \<Rightarrow> Inr l
      | _ \<Rightarrow> Inl (located_error files (''chunkdat isn'' @ [squote] @ ''t a list'') this))"

definition getmap :: "files \<Rightarrow> chunkdat \<Rightarrow> exn + (string \<times> chunkdat) list" where
  "getmap files this =
     (case m_achunk this of Some (Chunk_map m) \<Rightarrow> Inr m
      | _ \<Rightarrow> Inl (located_error files (''chunkdat isn'' @ [squote] @ ''t a map'') this))"

text \<open>A returned pointer or reference is the object it points to, a null pointer is \<open>None\<close>.\<close>

definition subChunkPtr_key :: "string \<Rightarrow> chunkdat \<Rightarrow> chunkdat option" where
  "subChunkPtr_key key this =
     (case m_achunk this of Some (Chunk_map m) \<Rightarrow> map_find key m | _ \<Rightarrow> None)"

definition subChunkPtr_index :: "32 word \<Rightarrow> chunkdat \<Rightarrow> chunkdat option" where
  "subChunkPtr_index a this =
     (case m_achunk this of
        Some (Chunk_list l) \<Rightarrow> (if length l \<le> unat a then None else Some (l ! unat a))
      | _ \<Rightarrow> None)"

definition subChunkRef_key :: "files \<Rightarrow> string \<Rightarrow> chunkdat \<Rightarrow> exn + chunkdat" where
  "subChunkRef_key files key this =
     (case m_achunk this of
        Some (Chunk_map m) \<Rightarrow>
          (case map_find key m of
             None \<Rightarrow> Inl (located_error files
               (''Map doesn'' @ [squote] @ ''t have '' @ [squote] @ key @ [squote] @ '' flag'') this)
           | Some c \<Rightarrow> Inr c)
      | _ \<Rightarrow> Inl (located_error files (''chunkdat isn'' @ [squote] @ ''t a map'') this))"

definition subChunkRef_index :: "files \<Rightarrow> 32 word \<Rightarrow> chunkdat \<Rightarrow> exn + chunkdat" where
  "subChunkRef_index files a this =
     (case m_achunk this of
        Some (Chunk_list l) \<Rightarrow>
          (if length l \<le> unat a
           then Inl (located_error files (''List size is below '' @ to_string (unat a)) this)
           else Inr (l ! unat a))
      | _ \<Rightarrow> Inl (located_error files (''chunkdat isn'' @ [squote] @ ''t a list'') this))"

section \<open>Operators\<close>

text \<open>
  The binary operators work on a copy of the left operand; an exception leaves no result.
\<close>

definition on_copy :: "(chunkdat \<Rightarrow> outcome) \<Rightarrow> chunkdat \<Rightarrow> exn + chunkdat" where
  "on_copy f a = from_set (f (copy_chunk a))"

definition plus_entry :: "chunkdat \<Rightarrow> string \<times> chunkdat \<Rightarrow> exn + chunkdat" where
  "plus_entry a b = on_copy (addToMap b) a"

definition plus_entries :: "chunkdat \<Rightarrow> (string \<times> chunkdat) list \<Rightarrow> exn + chunkdat" where
  "plus_entries a b = on_copy (addToMap_vec b) a"

definition plus_item :: "chunkdat \<Rightarrow> chunkdat \<Rightarrow> exn + chunkdat" where
  "plus_item a b = on_copy (addToList b) a"

definition plus_items :: "chunkdat \<Rightarrow> chunkdat list \<Rightarrow> exn + chunkdat" where
  "plus_items a b = on_copy (addToList_vec b) a"

definition times_chunk :: "chunkdat \<Rightarrow> chunkdat \<Rightarrow> exn + chunkdat" where
  "times_chunk a b = on_copy (concatenate b) a"

definition minus_key :: "chunkdat \<Rightarrow> string \<Rightarrow> exn + chunkdat" where
  "minus_key a b = on_copy (erase_key b) a"

definition minus_index :: "chunkdat \<Rightarrow> 32 word \<Rightarrow> exn + chunkdat" where
  "minus_index a b = on_copy (erase_index b) a"

definition merge_copy :: "chunkdat \<Rightarrow> chunkdat \<Rightarrow> bool \<Rightarrow> exn + chunkdat" where
  "merge_copy a b overwrite = on_copy (merge overwrite b) a"

definition equals_cstring :: "chunkdat \<Rightarrow> string \<Rightarrow> bool" where
  "equals_cstring a b = (strval 0 [tab] a = cstr b)"

end
