(* ===== verification/Chunk_Laws.thy ===== *)
theory Chunk_Laws
  imports Chunk_Ops
begin

text \<open>
  What the operations of \<open>chunkdat\<close> do. The contract shared by the adding operations is the
  locale \<open>adder\<close>; its lemmas about loops of additions serve \<open>addToMap(vector)\<close>,
  \<open>addToList(vector)\<close>, \<open>concatenate\<close> and \<open>merge\<close>.
\<close>

section \<open>Well-formed trees\<close>

lemma wf_chunk_simps [simp]:
  "wf_chunk (set_achunk (Chunk_string s) c)"
  "wf_chunk (set_achunk (Chunk_map m) c) \<longleftrightarrow> map_ok m \<and> (\<forall>(k, x) \<in> set m. wf_chunk x)"
  "wf_chunk (set_achunk (Chunk_list l) c) \<longleftrightarrow> (\<forall>x \<in> set l. wf_chunk x)"
  by (auto simp: set_achunk_def wf_values_iff wf_items_iff)

lemma wf_chunk_achunk:
  "wf_chunk c \<Longrightarrow> m_achunk c = Some (Chunk_map m) \<Longrightarrow> map_ok m \<and> (\<forall>(k, x) \<in> set m. wf_chunk x)"
  "wf_chunk c \<Longrightarrow> m_achunk c = Some (Chunk_list l) \<Longrightarrow> \<forall>x \<in> set l. wf_chunk x"
  by (cases c; simp add: wf_values_iff wf_items_iff)+

lemma set_achunk_same: "m_achunk c = Some a \<Longrightarrow> set_achunk a c = c"
  by (cases c) simp

lemma set_achunk_twice [simp]: "set_achunk a (set_achunk b c) = set_achunk a c"
  by (simp add: set_achunk_def)

lemma wf_find: "wf_chunk c \<Longrightarrow> subChunkPtr_key k c = Some x \<Longrightarrow> wf_chunk x"
  using wf_chunk_achunk(1) by (fastforce simp: subChunkPtr_key_def dest: map_find_set
      split: option.splits chunk_abstract.splits)

lemma ptr_set_achunk [simp]:
  "subChunkPtr_key k (set_achunk (Chunk_map m) c) = map_find k m"
  "subChunkPtr_key k (set_achunk (Chunk_list l) c) = None"
  "subChunkPtr_key k (set_achunk (Chunk_string s) c) = None"
  by (simp_all add: subChunkPtr_key_def)

text \<open>A map object is its trace and its lookups.\<close>

lemma map_chunk_ext:
  assumes "wf_chunk c" "wf_chunk d" and "chunk_type c = MapT" "chunk_type d = MapT"
    and "m_parent c = m_parent d" "m_offset c = m_offset d"
    and "\<And>k. subChunkPtr_key k c = subChunkPtr_key k d"
  shows "c = d"
proof -
  obtain m where c: "c = Chunkdat (m_parent c) (m_offset c) (Some (Chunk_map m))"
    using assms(3) by (cases c rule: chunk_cases) auto
  obtain n where d: "d = Chunkdat (m_parent d) (m_offset d) (Some (Chunk_map n))"
    using assms(4) by (cases d rule: chunk_cases) auto
  have "map_ok m" "map_ok n" using assms(1,2) by (subst (asm) c, subst (asm) d, simp)+
  moreover have "map_find k m = map_find k n" for k
    using assms(7) [of k] by (subst (asm) c, subst (asm) d, simp add: subChunkPtr_key_def)
  ultimately have "m = n" by (rule kv.ext)
  with c d assms(5,6) show ?thesis by metis
qed

section \<open>The contract of an adding operation\<close>

locale adder =
  fixes add :: "'e \<Rightarrow> chunkdat \<Rightarrow> outcome"
    and elem :: "'e \<Rightarrow> bool"
    and kind :: typeEnum
  assumes wf_add: "wf_chunk c \<Longrightarrow> elem x \<Longrightarrow> wf_chunk (snd (add x c))"
    and throws_unchanged: "fst (add x c) \<noteq> None \<Longrightarrow> wf_chunk c \<Longrightarrow> snd (add x c) = c"
    and type_add: "fst (add x c) = None \<Longrightarrow> chunk_type (snd (add x c)) = kind"
    and type_needed: "fst (add x c) = None \<Longrightarrow> chunk_type c \<in> {NoneT, kind}"
    and trace_add: "m_parent (snd (add x c)) = m_parent c" "m_offset (snd (add x c)) = m_offset c"
begin

lemma loop_wf: "wf_chunk c \<Longrightarrow> \<forall>x \<in> set xs. elem x \<Longrightarrow> wf_chunk (snd (for_each add xs c))"
proof (induction xs arbitrary: c)
  case (Cons x xs)
  from wf_add [OF Cons.prems(1), of x] Cons show ?case by (auto split: prod.splits option.splits)
qed simp

lemma loop_trace: "m_parent (snd (for_each add xs c)) = m_parent c
    \<and> m_offset (snd (for_each add xs c)) = m_offset c"
proof (induction xs arbitrary: c)
  case (Cons x xs)
  from trace_add [of x c] Cons show ?case by (auto split: prod.splits option.splits)
qed simp

lemma loop_type: "fst (for_each add xs c) = None \<Longrightarrow> xs \<noteq> [] \<Longrightarrow> chunk_type (snd (for_each add xs c)) = kind"
proof (induction xs arbitrary: c)
  case (Cons x xs)
  then show ?case using type_add [of x c]
    by (cases "xs = []") (auto split: prod.splits option.splits)
qed simp

text \<open>A loop that throws stops at one element and keeps the additions made before it.\<close>

lemma loop_prefix:
  assumes "wf_chunk c" "\<forall>x \<in> set xs. elem x" and "fst (for_each add xs c) = Some e"
  shows "\<exists>ys y zs. xs = ys @ y # zs \<and> for_each add ys c = (None, snd (for_each add xs c))
    \<and> fst (add y (snd (for_each add xs c))) = Some e"
  using assms
proof (induction xs arbitrary: c)
  case (Cons x xs)
  show ?case
  proof (cases "fst (add x c)")
    case None
    obtain c' where c': "add x c = (None, c')" using None by (cases "add x c") auto
    have "wf_chunk c'" using wf_add [OF Cons.prems(1), of x] Cons.prems(2) c' by simp
    then obtain ys y zs where "xs = ys @ y # zs"
      "for_each add ys c' = (None, snd (for_each add xs c'))"
      "fst (add y (snd (for_each add xs c'))) = Some e"
      using Cons.IH [of c'] Cons.prems c' by auto
    with c' show ?thesis by (intro exI [of _ "x # ys"] exI [of _ y] exI [of _ zs]) simp
  next
    case (Some e')
    have same: "snd (add x c) = c" using throws_unchanged [of x c] Some Cons.prems(1) by simp
    then have res: "add x c = (Some e', c)" using Some by (cases "add x c") auto
    with Cons.prems(3) have "e' = e" by simp
    with res show ?thesis by (intro exI [of _ "[]"] exI [of _ x] exI [of _ xs]) simp
  qed
qed simp

lemma loop_wrong_type:
  assumes "chunk_type c \<noteq> NoneT" "chunk_type c \<noteq> kind" "xs \<noteq> []"
  shows "fst (for_each add xs c) \<noteq> None"
  using type_needed [of "hd xs" c] assms by (cases xs) (auto split: prod.splits option.splits)

end

text \<open>The branches of \<open>addToMap\<close> and \<open>addToList\<close>.\<close>

lemma addToMap_none:
  "m_achunk c = None \<Longrightarrow> addToMap (k, v) c = (None, set_achunk (Chunk_map [(k, copy_chunk v)]) c)"
  by (simp add: addToMap_def)

lemma addToMap_fresh:
  "m_achunk c = Some (Chunk_map m) \<Longrightarrow> wf_chunk c \<Longrightarrow> map_find k m = None \<Longrightarrow>
     addToMap (k, v) c = (None, set_achunk (Chunk_map (fst (map_insert k (copy_chunk v) m))) c)"
  using kv.insert_second [of m k "copy_chunk v"] wf_chunk_achunk(1) [of c m]
  by (cases "map_insert k (copy_chunk v) m") (simp add: addToMap_def)

lemma addToMap_present:
  "m_achunk c = Some (Chunk_map m) \<Longrightarrow> wf_chunk c \<Longrightarrow> map_find k m \<noteq> None \<Longrightarrow>
     addToMap (k, v) c = (Some (own_error (key_message ''Key '' k '' already present'') c), c)"
  using kv.insert_present [of m k] wf_chunk_achunk(1) by (simp add: addToMap_def Let_def set_achunk_same)

lemma addToMap_other:
  "chunk_type c = StringT \<or> chunk_type c = ListT \<Longrightarrow>
     addToMap kv c = (Some (own_error ''Cannot add keys to non-map chunks'' c), c)"
  by (auto simp: addToMap_def chunk_type_def split: option.splits chunk_abstract.splits)

lemmas addToMap_branches = addToMap_none addToMap_fresh addToMap_present addToMap_other

lemma addToMap_disj:
  fixes k :: string
  assumes "wf_chunk c"
  obtains (none) "m_achunk c = None"
  | (fresh) m where "m_achunk c = Some (Chunk_map m)" "map_find k m = None" "map_ok m"
  | (present) m where "m_achunk c = Some (Chunk_map m)" "map_find k m \<noteq> None" "map_ok m"
  | (other) "chunk_type c = StringT \<or> chunk_type c = ListT"
proof (cases "m_achunk c")
  case (Some a)
  with assms that show ?thesis using wf_chunk_achunk(1) by (cases a) (auto simp: chunk_type_def)
qed (use that in simp)

definition elem_entry :: "string \<times> chunkdat \<Rightarrow> bool" where
  "elem_entry kv = wf_chunk (snd kv)"

interpretation to_map: adder addToMap elem_entry MapT
proof unfold_locales
  fix c :: chunkdat and x :: "string \<times> chunkdat"
  obtain k v where x: "x = (k, v)" by force
  show "wf_chunk (snd (addToMap x c))" if "wf_chunk c" "elem_entry x"
    using that(1)
  proof (cases rule: addToMap_disj [where k = k])
    case (fresh m)
    with that x show ?thesis
      using map_insert_set [of k v m] wf_chunk_achunk(1) [OF that(1) fresh(1)]
      by (auto simp: addToMap_fresh elem_entry_def copy_chunk_id map_insert_ok)
  qed (use that x in \<open>auto simp: addToMap_branches elem_entry_def copy_chunk_id\<close>)
  show "snd (addToMap x c) = c" if "fst (addToMap x c) \<noteq> None" "wf_chunk c"
    using that(2) by (cases rule: addToMap_disj [where k = k]) (use that x in \<open>auto simp: addToMap_branches\<close>)
qed (auto simp: addToMap_def chunk_type_def Let_def
      split: option.splits chunk_abstract.splits prod.splits if_splits)

interpretation to_list: adder addToList wf_chunk ListT
proof unfold_locales
  fix c x :: chunkdat
  show "wf_chunk (snd (addToList x c))" if "wf_chunk c" "wf_chunk x"
    using that wf_chunk_achunk(2) [OF that(1)]
    by (auto simp: addToList_def copy_chunk_id split: option.splits chunk_abstract.splits)
qed (auto simp: addToList_def chunk_type_def split: option.splits chunk_abstract.splits if_splits)

section \<open>Loops of additions\<close>

lemma add_items:
  "m_achunk c = Some (Chunk_list l0) \<Longrightarrow>
     for_each addToList l c = (None, set_achunk (Chunk_list (l0 @ map copy_chunk l)) c)"
proof (induction l arbitrary: c l0)
  case (Cons x l)
  have step: "addToList x c = (None, set_achunk (Chunk_list (l0 @ [copy_chunk x])) c)"
    using Cons.prems by (simp add: addToList_def)
  show ?case using Cons.IH [of "set_achunk (Chunk_list (l0 @ [copy_chunk x])) c" "l0 @ [copy_chunk x]"]
    by (simp add: step)
qed (simp add: set_achunk_same)

lemma add_entries:
  assumes "wf_chunk c" "chunk_type c = NoneT \<or> chunk_type c = MapT" "\<forall>kv \<in> set v. elem_entry kv"
  shows "fst (for_each addToMap v c) = None \<longleftrightarrow>
      distinct (map fst v) \<and> (\<forall>k \<in> set (map fst v). subChunkPtr_key k c = None)"
    and "fst (for_each addToMap v c) = None \<Longrightarrow> subChunkPtr_key j (snd (for_each addToMap v c)) =
      (case subChunkPtr_key j c of Some x \<Rightarrow> Some x | None \<Rightarrow> map_of v j)"
proof -
  have "(fst (for_each addToMap v c) = None \<longleftrightarrow>
      distinct (map fst v) \<and> (\<forall>k \<in> set (map fst v). subChunkPtr_key k c = None)) \<and>
    (fst (for_each addToMap v c) = None \<longrightarrow> subChunkPtr_key j (snd (for_each addToMap v c)) =
      (case subChunkPtr_key j c of Some x \<Rightarrow> Some x | None \<Rightarrow> map_of v j))"
    using assms
  proof (induction v arbitrary: c)
    case (Cons kv v)
    obtain k x where kv: "kv = (k, x)" by force
    have x: "copy_chunk x = x" using Cons.prems(3) kv by (simp add: elem_entry_def copy_chunk_id)
    show ?case
    proof (cases "subChunkPtr_key k c")
      case None
      obtain m where m: "addToMap (k, x) c = (None, set_achunk (Chunk_map m) c)"
        "\<And>j. map_find j m = (if j = k then Some x else subChunkPtr_key j c)" "map_ok m"
        using Cons.prems(1)
      proof (cases rule: addToMap_disj [where k = k])
        case (fresh n)
        then show ?thesis
          using that addToMap_fresh [OF fresh(1) Cons.prems(1) fresh(2)] x
          by (force simp: subChunkPtr_key_def kv.find_insert kv.inv_insert)
      qed (use that None Cons.prems(2) x in \<open>auto simp: addToMap_none subChunkPtr_key_def chunk_type_def\<close>)
      have "wf_chunk (set_achunk (Chunk_map m) c)"
        using to_map.wf_add [OF Cons.prems(1), of kv] Cons.prems(3) m(1) kv by simp
      from Cons.IH [OF this] Cons.prems(3) None m kv show ?thesis
        by (auto split: option.splits)
    next
      case (Some y)
      then have "m_achunk c \<noteq> None" by (cases "m_achunk c") (auto simp: subChunkPtr_key_def)
      from Cons.prems(1) show ?thesis
        by (cases rule: addToMap_disj [where k = k])
          (use Some Cons.prems kv in \<open>auto simp: addToMap_present subChunkPtr_key_def chunk_type_def\<close>)
    qed
  qed (simp split: option.split)
  then show "fst (for_each addToMap v c) = None \<longleftrightarrow>
      distinct (map fst v) \<and> (\<forall>k \<in> set (map fst v). subChunkPtr_key k c = None)"
    "fst (for_each addToMap v c) = None \<Longrightarrow> subChunkPtr_key j (snd (for_each addToMap v c)) =
      (case subChunkPtr_key j c of Some x \<Rightarrow> Some x | None \<Rightarrow> map_of v j)" by blast+
qed

section \<open>Merging\<close>

lemma merge_values_step:
  assumes "m_achunk this = Some (Chunk_map cc)"
  shows "wf_chunk this \<Longrightarrow> map_find k cc = None \<Longrightarrow> merge_values ow ((k, c) # ci) this =
      merge_values ow ci (set_achunk (Chunk_map (fst (map_insert k (copy_chunk c) cc))) this)"
    and "map_find k cc = Some sub \<Longrightarrow> merge_values ow ((k, c) # ci) this =
      (case merge ow c sub of
         (Some e, sub') \<Rightarrow> (Some e, set_achunk (Chunk_map (map_assign k sub' cc)) this)
       | (None, sub') \<Rightarrow> merge_values ow ci (set_achunk (Chunk_map (map_assign k sub' cc)) this))"
  using assms by (simp_all add: addToMap_fresh split: prod.splits option.splits)

definition merged_entry :: "bool \<Rightarrow> chunkdat option \<Rightarrow> chunkdat option \<Rightarrow> chunkdat option" where
  "merged_entry ow new old = (case new of None \<Rightarrow> old
     | Some c \<Rightarrow> (case old of None \<Rightarrow> Some c | Some x \<Rightarrow> Some (snd (merge ow c x))))"

text \<open>What the loop of \<open>merge\<close> over the entries \<open>ci\<close> leaves, from the map \<open>cc\<close>.\<close>

definition merge_result :: "bool \<Rightarrow> (string \<times> chunkdat) list \<Rightarrow> (string \<times> chunkdat) list \<Rightarrow> chunkdat \<Rightarrow> outcome \<Rightarrow> bool" where
  "merge_result ow ci cc this out \<longleftrightarrow> (\<exists>cc'. snd out = set_achunk (Chunk_map cc') this
    \<and> wf_chunk (set_achunk (Chunk_map cc') this)
    \<and> (fst out = None \<longleftrightarrow> (\<forall>(k, c) \<in> set ci. \<forall>x. map_find k cc = Some x \<longrightarrow> fst (merge ow c x) = None))
    \<and> (fst out = None \<longrightarrow> (\<forall>j. map_find j cc' = merged_entry ow (map_of ci j) (map_find j cc))))"

lemma merge_result_step:
  assumes "merge_result ow ci n (set_achunk (Chunk_map n) this) out" "k \<notin> set (map fst ci)"
    and "\<And>j. map_find j n = (if j = k then Some y else map_find j cc)"
    and "case map_find k cc of None \<Rightarrow> y = c | Some sub \<Rightarrow> merge ow c sub = (None, y)"
  shows "merge_result ow ((k, c) # ci) cc this out"
proof -
  have same: "map_find k' n = map_find k' cc" if "(k', c') \<in> set ci" for k' c'
    using assms(2) that by (auto simp: assms(3) image_iff)
  have "(\<forall>(k, c) \<in> set ci. \<forall>x. map_find k n = Some x \<longrightarrow> fst (merge ow c x) = None) \<longleftrightarrow>
      (\<forall>(k, c) \<in> set ((k, c) # ci). \<forall>x. map_find k cc = Some x \<longrightarrow> fst (merge ow c x) = None)"
    using same assms(4) by (auto split: option.splits)
  moreover have "merged_entry ow (map_of ci j) (map_find j n) = merged_entry ow (map_of ((k, c) # ci) j) (map_find j cc)" for j
  proof (cases "j = k")
    case True
    moreover have "map_of ci k = None" using assms(2) by (simp add: map_of_eq_None_iff)
    ultimately show ?thesis using assms(3,4) by (auto simp: merged_entry_def split: option.splits)
  qed (simp add: assms(3) merged_entry_def)
  ultimately show ?thesis using assms(1) unfolding merge_result_def set_achunk_twice by (simp only: simp_thms)
qed

lemma merge_result_stop:
  assumes "wf_chunk (set_achunk (Chunk_map n) this)" "map_find k cc = Some sub" "fst (merge ow c sub) \<noteq> None"
  shows "merge_result ow ((k, c) # ci) cc this (Some e, set_achunk (Chunk_map n) this)"
  unfolding merge_result_def using assms by (intro exI [of _ n]) auto

lemma merge_values_result:
  assumes "\<forall>(k, c) \<in> set ci. wf_chunk c \<and> (\<forall>x. wf_chunk x \<longrightarrow> wf_chunk (snd (merge ow c x)))"
    and "distinct (map fst ci)" and "wf_chunk this" and "m_achunk this = Some (Chunk_map cc)"
  shows "merge_result ow ci cc this (merge_values ow ci this)"
  using assms
proof (induction ci arbitrary: this cc)
  case Nil
  from wf_chunk_achunk(1) [OF Nil(3,4)] Nil(3,4) show ?case
    unfolding merge_result_def by (intro exI [of _ cc]) (simp add: set_achunk_same merged_entry_def)
next
  case (Cons kv ci)
  obtain k c where kv: "kv = (k, c)" by force
  note wf = wf_chunk_achunk(1) [OF Cons.prems(3,4)]
  have c: "wf_chunk c" "copy_chunk c = c" using Cons.prems(1) kv by (auto simp: copy_chunk_id)
  have rest: "\<forall>(k, c) \<in> set ci. wf_chunk c \<and> (\<forall>x. wf_chunk x \<longrightarrow> wf_chunk (snd (merge ow c x)))"
    "distinct (map fst ci)" "k \<notin> set (map fst ci)" using Cons.prems(1,2) kv by auto
  note IH = Cons.IH [OF rest(1,2) _ set_achunk_simps(2)]
  show ?case
  proof (cases "map_find k cc")
    case None
    define n where "n = fst (map_insert k c cc)"
    have wfn: "wf_chunk (set_achunk (Chunk_map n) this)"
      using map_insert_set [of k c cc] wf c by (auto simp: n_def map_insert_ok)
    have "merge_values ow (kv # ci) this = merge_values ow ci (set_achunk (Chunk_map n) this)"
      using merge_values_step(1) [OF Cons.prems(4,3) None, of ow c ci] kv c by (simp add: n_def)
    moreover have "map_find j n = (if j = k then Some c else map_find j cc)" for j
      using wf None by (simp add: n_def kv.find_insert)
    ultimately show ?thesis
      using merge_result_step [OF IH [OF wfn] rest(3), where y = c and cc = cc and c = c] None kv by simp
  next
    case (Some sub)
    obtain e sub' where m: "merge ow c sub = (e, sub')" by force
    have sub': "wf_chunk sub'" using Cons.prems(1) kv m wf Some by (force dest: map_find_set)
    define n where "n = map_assign k sub' cc"
    have wfn: "wf_chunk (set_achunk (Chunk_map n) this)"
      using map_assign_set [of k sub' cc] wf sub' by (auto simp: n_def kv.inv_assign)
    have find: "map_find j n = (if j = k then Some sub' else map_find j cc)" for j
      using wf Some by (simp add: n_def kv.find_assign)
    note step = merge_values_step(2) [OF Cons.prems(4) Some, of ow c ci, unfolded m, folded n_def]
    show ?thesis
    proof (cases e)
      case (Some err)
      with step kv have "merge_values ow (kv # ci) this = (Some err, set_achunk (Chunk_map n) this)"
        by (simp add: n_def)
      then show ?thesis
        using Some kv m merge_result_stop [OF wfn \<open>map_find k cc = Some sub\<close>, of ow c] by simp
    next
      case None
      with step kv have "merge_values ow (kv # ci) this = merge_values ow ci (set_achunk (Chunk_map n) this)"
        by (simp add: n_def)
      then show ?thesis
        using merge_result_step [OF IH [OF wfn] rest(3), where y = sub' and cc = cc and c = c] find m kv Some None
        by simp
    qed
  qed
qed

lemmas merge_values_spec = merge_values_result [unfolded merge_result_def]

lemma merge_to_none: "m_achunk this = None \<Longrightarrow> merge ow c this = (None, copy_chunk c)"
  by (cases c) (simp add: set_chunk_def)

lemma merge_maps:
  "m_achunk this = Some (Chunk_map cc) \<Longrightarrow> merge ow (Chunkdat p off (Some (Chunk_map ci))) this =
     merge_values ow ci this"
  by simp

lemma merge_lists:
  "m_achunk this = Some (Chunk_list cc) \<Longrightarrow> merge ow (Chunkdat p off (Some (Chunk_list ci))) this =
     (None, set_achunk (Chunk_list (cc @ map copy_chunk ci)) this)"
  by (simp add: add_items)

lemma merge_strings:
  "m_achunk this = Some (Chunk_string t) \<Longrightarrow> merge ow (Chunkdat p off (Some (Chunk_string s))) this =
     (if ow then (None, set_achunk (Chunk_string s) this)
      else (Some (Format_error ''Cannot merge string chunks'' [] [] (-1)), this))"
  by simp

lemma merge_mixed:
  "m_achunk this \<noteq> None \<Longrightarrow> chunk_type this \<noteq> chunk_type c \<Longrightarrow> merge ow c this =
     (if ow then (None, copy_chunk c)
      else (Some (Format_error ''Cannot merge chunks of different types'' [] [] (-1)), this))"
  by (cases c rule: chunk_cases) (auto simp: set_chunk_def chunk_type_def)

lemmas merge_branches = merge_to_none merge_maps merge_lists merge_strings merge_mixed

declare merge.simps [simp del]

text \<open>The five ways two objects can meet.\<close>

lemma merge_disj:
  obtains (none) "m_achunk this = None"
  | (maps) cc p off ci where "m_achunk this = Some (Chunk_map cc)" "c = Chunkdat p off (Some (Chunk_map ci))"
  | (lists) cc p off ci where "m_achunk this = Some (Chunk_list cc)" "c = Chunkdat p off (Some (Chunk_list ci))"
  | (strings) t p off s where "m_achunk this = Some (Chunk_string t)" "c = Chunkdat p off (Some (Chunk_string s))"
  | (mixed) "m_achunk this \<noteq> None" "chunk_type this \<noteq> chunk_type c"
proof (cases "m_achunk this")
  case (Some a)
  with that show ?thesis
    by (cases a; cases c rule: chunk_cases) (auto simp: chunk_type_def)
qed (use that in simp)

lemma merge_wf: "wf_chunk c \<Longrightarrow> wf_chunk this \<Longrightarrow> wf_chunk (snd (merge ow c this))"
proof (induction c arbitrary: this rule: chunk_induct)
  case (map p off ci)
  from map.prems have ci: "map_ok ci" "\<forall>(k, c) \<in> set ci. wf_chunk c" by (auto simp: wf_values_iff)
  then have IH: "\<forall>(k, c) \<in> set ci. wf_chunk c \<and> (\<forall>x. wf_chunk x \<longrightarrow> wf_chunk (snd (merge ow c x)))"
    using map.IH by fast
  show ?case
  proof (cases rule: merge_disj [where this = this and c = "Chunkdat p off (Some (Chunk_map ci))"])
    case (maps cc)
    with merge_values_spec [OF IH map_ok_distinct [OF ci(1)] map.prems(2)] show ?thesis
      by (auto simp: merge_maps)
  qed (use map.prems in \<open>auto simp: merge_branches copy_chunk_id simp del: copy_chunk.simps wf_chunk.simps\<close>)
next
  case (list p off ci)
  show ?case
  proof (cases rule: merge_disj [where this = this and c = "Chunkdat p off (Some (Chunk_list ci))"])
    case (lists cc)
    with list.prems wf_chunk_achunk(2) [OF list.prems(2)] show ?thesis
      by (auto simp: merge_lists wf_items_iff copy_chunk_id)
  qed (use list.prems in \<open>auto simp: merge_branches copy_chunk_id simp del: copy_chunk.simps wf_chunk.simps\<close>)
next
  case (string p off s)
  show ?case
    by (cases rule: merge_disj [where this = this and c = "Chunkdat p off (Some (Chunk_string s))"])
      (use string.prems in \<open>auto simp: merge_branches\<close>)
next
  case (none p off)
  show ?case
    by (cases rule: merge_disj [where this = this and c = "Chunkdat p off None"])
      (use none.prems in \<open>auto simp: merge_branches\<close>)
qed

text \<open>Merging two map objects, entry by entry.\<close>

lemma merge_maps_spec:
  assumes "wf_chunk c" "wf_chunk this" and "chunk_type c = MapT" "chunk_type this = MapT"
  shows "fst (merge ow c this) = None \<longleftrightarrow>
      (\<forall>k x y. subChunkPtr_key k c = Some x \<longrightarrow> subChunkPtr_key k this = Some y \<longrightarrow>
         fst (merge ow x y) = None)"
    and "fst (merge ow c this) = None \<Longrightarrow> subChunkPtr_key j (snd (merge ow c this)) =
      merged_entry ow (subChunkPtr_key j c) (subChunkPtr_key j this)"
    and "chunk_type (snd (merge ow c this)) = MapT"
proof -
  obtain p off ci where c: "c = Chunkdat p off (Some (Chunk_map ci))"
    using assms(3) by (cases c rule: chunk_cases) auto
  obtain cc where cc: "m_achunk this = Some (Chunk_map cc)"
    using assms(4) by (cases this rule: chunk_cases) auto
  from assms(1) c have ci: "map_ok ci" "\<forall>(k, c) \<in> set ci. wf_chunk c" by (auto simp: wf_values_iff)
  then have IH: "\<forall>(k, c) \<in> set ci. wf_chunk c \<and> (\<forall>x. wf_chunk x \<longrightarrow> wf_chunk (snd (merge ow c x)))"
    using merge_wf by fast
  have eq: "merge ow c this = merge_values ow ci this" using c merge_maps [OF cc] by simp
  obtain cc' where cc': "snd (merge ow c this) = set_achunk (Chunk_map cc') this"
    "fst (merge ow c this) = None \<longleftrightarrow>
       (\<forall>(k, c) \<in> set ci. \<forall>x. map_find k cc = Some x \<longrightarrow> fst (merge ow c x) = None)"
    "fst (merge ow c this) = None \<longrightarrow>
       (\<forall>j. map_find j cc' = merged_entry ow (map_of ci j) (map_find j cc))"
    using merge_values_spec [OF IH map_ok_distinct [OF ci(1)] assms(2) cc, folded eq]
    by (elim exE conjE) (rule that)
  have find: "subChunkPtr_key k c = map_of ci k" "subChunkPtr_key k this = map_find k cc" for k
    using c cc by (simp_all add: subChunkPtr_key_def map_find_map_of)
  show "fst (merge ow c this) = None \<longleftrightarrow>
      (\<forall>k x y. subChunkPtr_key k c = Some x \<longrightarrow> subChunkPtr_key k this = Some y \<longrightarrow>
         fst (merge ow x y) = None)"
    unfolding cc'(2) find using map_ok_distinct [OF ci(1)] by (fastforce simp: map_of_eq_Some_iff)
  show "fst (merge ow c this) = None \<Longrightarrow> subChunkPtr_key j (snd (merge ow c this)) =
      merged_entry ow (subChunkPtr_key j c) (subChunkPtr_key j this)"
    using cc' find by simp
  show "chunk_type (snd (merge ow c this)) = MapT" using cc'(1) by simp
qed


text \<open>\<open>merge\<close> with \<open>overwrite\<close> never throws.\<close>

lemma merge_overwrite: "wf_chunk c \<Longrightarrow> wf_chunk this \<Longrightarrow> fst (merge True c this) = None"
proof (induction c arbitrary: this rule: chunk_induct)
  case (map p off ci)
  show ?case
  proof (cases rule: merge_disj [where this = this and c = "Chunkdat p off (Some (Chunk_map ci))"])
    case (maps cc)
    then have type: "chunk_type this = MapT" by (simp add: chunk_type_def)
    have "fst (merge True x y) = None"
      if "subChunkPtr_key k (Chunkdat p off (Some (Chunk_map ci))) = Some x"
        "subChunkPtr_key k this = Some y" for k x y
    proof -
      have "(k, x) \<in> set ci" using that(1) by (simp add: subChunkPtr_key_def map_find_set)
      then show ?thesis
        using map.IH wf_find [OF map.prems(1) that(1)] wf_find [OF map.prems(2) that(2)] by blast
    qed
    with merge_maps_spec(1) [OF map.prems, of True] type show ?thesis by simp
  qed (use map.prems in \<open>auto simp: merge_branches simp del: copy_chunk.simps wf_chunk.simps\<close>)
next
  case (list p off ci)
  show ?case
    by (cases rule: merge_disj [where this = this and c = "Chunkdat p off (Some (Chunk_list ci))"])
      (use list.prems in \<open>auto simp: merge_branches\<close>)
next
  case (string p off s)
  show ?case
    by (cases rule: merge_disj [where this = this and c = "Chunkdat p off (Some (Chunk_string s))"])
      (use string.prems in \<open>auto simp: merge_branches\<close>)
next
  case (none p off)
  show ?case
    by (cases rule: merge_disj [where this = this and c = "Chunkdat p off None"])
      (use none.prems in \<open>auto simp: merge_branches\<close>)
qed

text \<open>
  Without \<open>overwrite\<close> the trees that can be merged are those \<open>mergeable\<close> accepts, which looks
  at the two original trees only.
\<close>

fun mergeable :: "chunkdat \<Rightarrow> chunkdat \<Rightarrow> bool"
  and mergeable_values :: "(string \<times> chunkdat) list \<Rightarrow> chunkdat \<Rightarrow> bool" where
  "mergeable (Chunkdat p off a) this =
     (case m_achunk this of
        None \<Rightarrow> True
      | Some cc \<Rightarrow>
          (case a of
             Some (Chunk_map ci) \<Rightarrow> abstract_type cc = MapT \<and> mergeable_values ci this
           | Some (Chunk_list ci) \<Rightarrow> abstract_type cc = ListT
           | Some (Chunk_string s) \<Rightarrow> False
           | None \<Rightarrow> False))"
| "mergeable_values [] this = True"
| "mergeable_values ((k, c) # ci) this =
     ((case subChunkPtr_key k this of None \<Rightarrow> True | Some x \<Rightarrow> mergeable c x) \<and> mergeable_values ci this)"

lemma mergeable_values_iff:
  "mergeable_values ci this \<longleftrightarrow>
     (\<forall>(k, c) \<in> set ci. \<forall>x. subChunkPtr_key k this = Some x \<longrightarrow> mergeable c x)"
  by (induction ci) (auto split: option.splits)

lemma merge_mergeable: "wf_chunk c \<Longrightarrow> wf_chunk this \<Longrightarrow> fst (merge False c this) = None \<longleftrightarrow> mergeable c this"
proof (induction c arbitrary: this rule: chunk_induct)
  case (map p off ci)
  show ?case
  proof (cases rule: merge_disj [where this = this and c = "Chunkdat p off (Some (Chunk_map ci))"])
    case (maps cc)
    let ?c = "Chunkdat p off (Some (Chunk_map ci))"
    have type: "chunk_type this = MapT" using maps by (simp add: chunk_type_def)
    have ci: "map_ok ci" using map.prems(1) by simp
    have find: "subChunkPtr_key k ?c = Some x \<longleftrightarrow> (k, x) \<in> set ci" for k x
      using kv.find_Some_items [OF ci, of k x] by (simp add: subChunkPtr_key_def)
    have "fst (merge False x y) = None \<longleftrightarrow> mergeable x y"
      if "subChunkPtr_key k ?c = Some x" "subChunkPtr_key k this = Some y" for k x y
      using map.IH find that(1) wf_find [OF map.prems(1) that(1)] wf_find [OF map.prems(2) that(2)] by blast
    then have "fst (merge False ?c this) = None \<longleftrightarrow> mergeable_values ci this"
      using merge_maps_spec(1) [OF map.prems, of False] type find
      by (auto simp: mergeable_values_iff)
    with maps show ?thesis by simp
  qed (use map.prems in \<open>auto simp: merge_branches chunk_type_def simp del: copy_chunk.simps wf_chunk.simps\<close>)
next
  case (list p off ci)
  show ?case
    by (cases rule: merge_disj [where this = this and c = "Chunkdat p off (Some (Chunk_list ci))"])
      (use list.prems in \<open>auto simp: merge_branches chunk_type_def\<close>)
next
  case (string p off s)
  show ?case
    by (cases rule: merge_disj [where this = this and c = "Chunkdat p off (Some (Chunk_string s))"])
      (use string.prems in \<open>auto simp: merge_branches chunk_type_def\<close>)
next
  case (none p off)
  show ?case
    by (cases rule: merge_disj [where this = this and c = "Chunkdat p off None"])
      (use none.prems in \<open>auto simp: merge_branches chunk_type_def\<close>)
qed

text \<open>The string at the end of a path of keys.\<close>

fun leaf :: "string list \<Rightarrow> chunkdat \<Rightarrow> string option" where
  "leaf [] c = (case m_achunk c of Some (Chunk_string s) \<Rightarrow> Some s | _ \<Rightarrow> None)"
| "leaf (k # ks) c = (case subChunkPtr_key k c of None \<Rightarrow> None | Some x \<Rightarrow> leaf ks x)"

lemma leaf_only_maps:
  "chunk_type c \<noteq> MapT \<Longrightarrow> leaf (k # ks) c = None"
  "chunk_type c \<noteq> StringT \<Longrightarrow> leaf [] c = None"
  by (auto simp: subChunkPtr_key_def chunk_type_def split: option.splits chunk_abstract.splits)

lemma leaf_merge:
  assumes "wf_chunk c" "wf_chunk this" "merge ow c this = (None, r)"
  shows "(leaf ks c = Some s \<longrightarrow> leaf ks r = Some s)
    \<and> (leaf ks r = Some s \<longrightarrow> leaf ks c = Some s \<or> leaf ks this = Some s)
    \<and> (\<not> ow \<longrightarrow> leaf ks this = Some s \<longrightarrow> leaf ks r = Some s)"
  using assms
proof (induction ks arbitrary: c this r)
  case Nil
  show ?case
  proof (cases rule: merge_disj [where this = this and c = c])
    case (maps cc p off ci)
    then have "chunk_type c = MapT" "chunk_type this = MapT" by (auto simp: chunk_type_def)
    with merge_maps_spec(3) [OF Nil(1,2) this, of ow] Nil(3) show ?thesis by (simp add: leaf_only_maps(2) del: leaf.simps)
  next
    case (lists cc p off ci)
    with Nil(3) show ?thesis by (auto simp: merge_lists)
  next
    case (strings t p off u)
    with Nil(3) show ?thesis by (auto simp: merge_strings split: if_splits)
  qed (use Nil in \<open>auto simp: merge_to_none merge_mixed copy_chunk_id split: if_splits\<close>)
next
  case (Cons k ks)
  note wf = Cons.prems(1,2)
  show ?case
  proof (cases rule: merge_disj [where this = this and c = c])
    case (maps cc p off ci)
    then have type: "chunk_type c = MapT" "chunk_type this = MapT" by (auto simp: chunk_type_def)
    have fst: "fst (merge ow c this) = None" and r: "r = snd (merge ow c this)"
      using Cons.prems(3) by simp_all
    have ent: "subChunkPtr_key k r = merged_entry ow (subChunkPtr_key k c) (subChunkPtr_key k this)"
      unfolding r by (rule merge_maps_spec(2) [OF wf type fst])
    show ?thesis
    proof (cases "subChunkPtr_key k c")
      case None
      then have "leaf (k # ks) r = leaf (k # ks) this" "leaf (k # ks) c = None"
        using ent by (simp_all add: merged_entry_def)
      then show ?thesis by simp
    next
      case (Some x)
      show ?thesis
      proof (cases "subChunkPtr_key k this")
        case None
        then have "leaf (k # ks) r = leaf (k # ks) c" "leaf (k # ks) this = None"
          using ent Some by (simp_all add: merged_entry_def)
        then show ?thesis by simp
      next
        case y: (Some y)
        have "fst (merge ow x y) = None"
          using merge_maps_spec(1) [OF wf type, of ow] fst Some y by blast
        then have "merge ow x y = (None, snd (merge ow x y))" by (simp add: prod_eq_iff)
        note Cons.IH [OF wf_find [OF wf(1) Some] wf_find [OF wf(2) y] this]
        then show ?thesis using ent Some y by (simp add: merged_entry_def)
      qed
    qed
  next
    case (lists cc p off ci)
    with Cons.prems(3) show ?thesis by (auto simp: merge_lists subChunkPtr_key_def)
  next
    case (strings t p off u)
    with Cons.prems(3) show ?thesis by (auto simp: merge_strings subChunkPtr_key_def split: if_splits)
  qed (use Cons.prems in \<open>auto simp: merge_to_none merge_mixed copy_chunk_id split: if_splits
      simp: subChunkPtr_key_def\<close>)
qed

end
