(* ===== verification/Objects.thy ===== *)
theory Objects
  imports Chunk_Laws ParseFacts
begin

text \<open>
  The life of a \<open>chunkdat\<close>: the step relation of one object, whose steps are the member
  functions a program can call on it or, through a reference \<open>subChunkRef\<close> returned, on an
  object inside it. Arguments are objects with such a life of their own.
\<close>

section \<open>Steps\<close>

inductive step :: "(string \<Rightarrow> string) \<Rightarrow> chunkdat \<Rightarrow> chunkdat \<Rightarrow> bool"
  and built :: "(string \<Rightarrow> string) \<Rightarrow> chunkdat \<Rightarrow> bool" for mem where
  step_text: "step mem c (snd (set_str mem s off p))"
| step_assign: "built mem d \<Longrightarrow> step mem c (set_chunk d c)"
| step_clear: "step mem c (clear_chunk c)"
| step_addToMap: "built mem d \<Longrightarrow> step mem c (snd (addToMap (k, d) c))"
| step_addToList: "built mem d \<Longrightarrow> step mem c (snd (addToList d c))"
| step_concatenate: "built mem d \<Longrightarrow> step mem c (snd (concatenate d c))"
| step_merge: "built mem d \<Longrightarrow> step mem c (snd (merge ow d c))"
| step_erase_key: "step mem c (snd (erase_key k c))"
| step_erase_index: "step mem c (snd (erase_index i c))"
| step_value: "m_achunk c = Some (Chunk_map m) \<Longrightarrow> map_find k m = Some x \<Longrightarrow> step mem x x' \<Longrightarrow>
    step mem c (set_achunk (Chunk_map (map_assign k x' m)) c)"
| step_item: "m_achunk c = Some (Chunk_list l) \<Longrightarrow> i < length l \<Longrightarrow> step mem (l ! i) x' \<Longrightarrow>
    step mem c (set_achunk (Chunk_list (l[i := x'])) c)"
| built_new: "built mem new_chunkdat"
| built_step: "built mem c \<Longrightarrow> step mem c c' \<Longrightarrow> built mem c'"

section \<open>Concatenation and erasure\<close>

lemma elem_values: "wf_chunk c \<Longrightarrow> m_achunk c = Some (Chunk_map m) \<Longrightarrow> \<forall>kv \<in> set m. elem_entry kv"
  using wf_chunk_achunk(1) by (fastforce simp: elem_entry_def)

lemma concatenate_wf:
  assumes "wf_chunk c" "wf_chunk d"
  shows "wf_chunk (snd (concatenate d c))"
proof -
  have maps: "wf_chunk (snd (for_each addToMap n c))" if "m_achunk d = Some (Chunk_map n)" for n
    by (rule to_map.loop_wf [OF assms(1) elem_values [OF assms(2) that]])
  have lists: "wf_chunk (snd (for_each addToList n c))" if "m_achunk d = Some (Chunk_list n)" for n
    by (rule to_list.loop_wf [OF assms(1) wf_chunk_achunk(2) [OF assms(2) that]])
  show ?thesis
    using assms maps lists
    by (auto simp: concatenate_def set_chunk_def copy_chunk_id split: option.splits chunk_abstract.splits)
qed

lemma erase_key_wf: "wf_chunk c \<Longrightarrow> wf_chunk (snd (erase_key k c))"
proof (cases "m_achunk c")
  case (Some a)
  assume "wf_chunk c"
  then show ?thesis
    using Some wf_chunk_achunk(1) [of c] map_erase_set
    by (cases a) (fastforce simp: erase_key_def kv.inv_erase)+
qed (simp add: erase_key_def)

lemma erase_index_wf: "wf_chunk c \<Longrightarrow> wf_chunk (snd (erase_index i c))"
proof (cases "m_achunk c")
  case (Some a)
  assume "wf_chunk c"
  then show ?thesis
    using Some wf_chunk_achunk(2) [of c]
    by (cases a) (auto simp: erase_index_def dest: in_set_takeD in_set_dropD)
qed (simp add: erase_index_def)

lemma assign_wf:
  "m_achunk c = Some (Chunk_map m) \<Longrightarrow> wf_chunk c \<Longrightarrow> wf_chunk x \<Longrightarrow>
     wf_chunk (set_achunk (Chunk_map (map_assign k x m)) c)"
  using wf_chunk_achunk(1) [of c m] map_assign_set [of k x m] by (auto simp: kv.inv_assign)

lemma update_wf:
  "m_achunk c = Some (Chunk_list l) \<Longrightarrow> wf_chunk c \<Longrightarrow> wf_chunk x \<Longrightarrow>
     wf_chunk (set_achunk (Chunk_list (l[i := x])) c)"
  using wf_chunk_achunk(2) [of c l] set_update_subset_insert [of l i x] by auto

lemma step_built_wf:
  shows "step mem c c' \<Longrightarrow> wf_chunk c \<longrightarrow> wf_chunk c'" and "built mem c \<Longrightarrow> wf_chunk c"
proof (induction rule: step_built.inducts)
  case (step_value c m k x x')
  show ?case
  proof
    assume c: "wf_chunk c"
    have "wf_chunk x" by (rule wf_find [OF c, of k]) (simp add: subChunkPtr_key_def step_value(1,2))
    with step_value(4) show "wf_chunk (set_achunk (Chunk_map (map_assign k x' m)) c)"
      by (blast intro: assign_wf [OF step_value(1) c])
  qed
next
  case (step_item c l i x')
  then show ?case using update_wf wf_chunk_achunk(2) nth_mem by blast
next
  case (step_addToMap d c k)
  then show ?case using to_map.wf_add by (simp add: elem_entry_def)
next
  case (step_clear c)
  then show ?case by (cases c) (simp add: clear_chunk_def)
qed (simp_all add: parse_good set_chunk_def copy_chunk_id to_list.wf_add concatenate_wf merge_wf
      erase_key_wf erase_index_wf new_chunkdat_def)

section \<open>Concatenation, spelled out\<close>

lemma concatenate_branches:
  "m_achunk c = None \<Longrightarrow> concatenate d c = (None, copy_chunk d)"
  "m_achunk c = Some (Chunk_map m) \<Longrightarrow> m_achunk d = Some (Chunk_map n) \<Longrightarrow>
     concatenate d c = for_each addToMap n c"
  "m_achunk c = Some (Chunk_list l) \<Longrightarrow> m_achunk d = Some (Chunk_list k) \<Longrightarrow>
     concatenate d c = (None, set_achunk (Chunk_list (l @ map copy_chunk k)) c)"
  "m_achunk c = Some (Chunk_string s) \<Longrightarrow> m_achunk d = Some (Chunk_string t) \<Longrightarrow>
     concatenate d c = (None, set_achunk (Chunk_string (s @ t)) c)"
  by (simp_all add: concatenate_def set_chunk_def add_items)

lemma map_chunk_find:
  "m_achunk c = Some (Chunk_map m) \<Longrightarrow> subChunkPtr_key k c = map_find k m"
  by (simp add: subChunkPtr_key_def)

lemma chunk_type_map: "chunk_type c = MapT \<longleftrightarrow> (\<exists>m. m_achunk c = Some (Chunk_map m))"
  by (cases c rule: chunk_cases) auto

section \<open>Properties\<close>

text \<open>C9: every object a program can build, through any member function on it or on an object
  inside it, is well formed: its maps are in key order at every depth. So its copy is equal
  to it.\<close>

theorem built_well_formed:
  assumes "built mem c"
  shows "wf_chunk c \<and> copy_chunk c = c"
  using step_built_wf(2) [OF assms] copy_chunk_id by blast

theorem built_well_formed_witness:
  "wf_chunk (snd (addToMap (''b'', new_chunkdat) (snd (set_str (\<lambda>_. ''x'') ''{a=c}'' 0 None))))
    \<and> copy_chunk (snd (addToMap (''b'', new_chunkdat) (snd (set_str (\<lambda>_. ''x'') ''{a=c}'' 0 None)))) =
      snd (addToMap (''b'', new_chunkdat) (snd (set_str (\<lambda>_. ''x'') ''{a=c}'' 0 None)))"
  by (rule built_well_formed [where mem = "\<lambda>_. ''x''"])
    (intro built_step [OF built_step [OF built_new step_text] step_addToMap] built_new)

text \<open>C10: adding a key to a map or to an empty object succeeds exactly when the key is not there,
  and then changes the lookup of that key only; otherwise, and on a string or a list, it
  throws with the text of the object and leaves the object as it was.\<close>

theorem addToMap_effect:
  assumes "wf_chunk c" "wf_chunk v" and "addToMap (k, v) c = (e, c')"
  shows "if (chunk_type c = NoneT \<or> chunk_type c = MapT) \<and> subChunkPtr_key k c = None
     then e = None \<and> chunk_type c' = MapT \<and>
       (\<forall>j. subChunkPtr_key j c' = (if j = k then Some v else subChunkPtr_key j c))
     else c' = c \<and> e = Some (Format_error
       (if chunk_type c = MapT then key_message ''Key '' k '' already present''
        else ''Cannot add keys to non-map chunks'') [] (strval 0 [tab] c) (-1))"
  using assms(1)
proof (cases rule: addToMap_disj [where k = k])
  case (fresh m)
  then show ?thesis
    using assms map_chunk_find [OF fresh(1)]
    by (auto simp: addToMap_fresh chunk_type_map copy_chunk_id kv.find_insert)
next
  case none
  then show ?thesis
    using assms by (auto simp: addToMap_none chunk_type_def copy_chunk_id subChunkPtr_key_def)
next
  case (present m)
  then show ?thesis
    using assms map_chunk_find [OF present(1)]
    by (auto simp: addToMap_present own_error_def chunk_type_map)
next
  case other
  then show ?thesis using assms by (auto simp: addToMap_other own_error_def)
qed

theorem addToMap_effect_witness:
  "fst (addToMap (''a'', new_chunkdat) new_chunkdat) = None"
  using addToMap_effect [OF _ _ surjective_pairing, of new_chunkdat new_chunkdat "''a''"]
  by (simp add: new_chunkdat_def subChunkPtr_key_def)

text \<open>Adding several entries stops at the first that cannot be added; the object keeps the
  entries before it and nothing of those behind it.\<close>

theorem addToMap_vec_prefix:
  assumes "wf_chunk c" "\<forall>(k, v) \<in> set vec. wf_chunk v" and "addToMap_vec vec c = (Some e, c')"
  shows "\<exists>ys y zs. vec = ys @ y # zs \<and> addToMap_vec ys c = (None, c') \<and> addToMap y c' = (Some e, c')"
proof -
  have elems: "\<forall>x \<in> set vec. elem_entry x" using assms(2) by (auto simp: elem_entry_def)
  have res: "fst (for_each addToMap vec c) = Some e" "snd (for_each addToMap vec c) = c'"
    using assms(3) by (simp_all add: addToMap_vec_def)
  from to_map.loop_prefix [OF assms(1) elems res(1)] res(2) obtain ys y zs where
    ys: "vec = ys @ y # zs" "for_each addToMap ys c = (None, c')" "fst (addToMap y c') = Some e" by auto
  have "wf_chunk c'" using to_map.loop_wf [OF assms(1), of ys] elems ys by simp
  then have "snd (addToMap y c') = c'" using to_map.throws_unchanged ys(3) by simp
  then have "addToMap y c' = (Some e, c')" using ys(3) by (simp add: prod_eq_iff)
  with ys show ?thesis unfolding addToMap_vec_def by blast
qed

theorem addToMap_vec_prefix_witness:
  "\<exists>e c' ys y zs. [(''a'', new_chunkdat), (''a'', new_chunkdat)] = ys @ y # zs
    \<and> addToMap_vec ys new_chunkdat = (None, c') \<and> addToMap y c' = (Some e, c')"
proof -
  obtain e c' where res: "addToMap_vec [(''a'', new_chunkdat), (''a'', new_chunkdat)] new_chunkdat = (Some e, c')"
    by (simp add: addToMap_vec_def addToMap_def new_chunkdat_def Let_def)
  have "wf_chunk new_chunkdat" "\<forall>(k, v) \<in> set [(''a'', new_chunkdat), (''a'', new_chunkdat)]. wf_chunk v"
    by (simp_all add: new_chunkdat_def)
  from addToMap_vec_prefix [OF this res] show ?thesis by blast
qed

text \<open>C11: concatenating two maps succeeds exactly when they share no key, and then holds the
  entries of both.\<close>

theorem concatenate_maps:
  assumes "wf_chunk c" "wf_chunk d" and "chunk_type c = MapT" "chunk_type d = MapT"
  shows "(fst (concatenate d c) = None \<longleftrightarrow>
      (\<forall>k. subChunkPtr_key k c = None \<or> subChunkPtr_key k d = None))
    \<and> (fst (concatenate d c) = None \<longrightarrow> (\<forall>k. subChunkPtr_key k (snd (concatenate d c)) =
        (case subChunkPtr_key k c of Some x \<Rightarrow> Some x | None \<Rightarrow> subChunkPtr_key k d)))"
proof -
  obtain m n where m: "m_achunk c = Some (Chunk_map m)" and n: "m_achunk d = Some (Chunk_map n)"
    using assms(3,4) chunk_type_map by auto
  have ok: "map_ok n" "\<forall>kv \<in> set n. elem_entry kv"
    using wf_chunk_achunk(1) [OF assms(2) n] elem_values [OF assms(2) n] by auto
  have d: "subChunkPtr_key k d = map_of n k" for k
    using map_chunk_find [OF n] by (simp add: map_find_map_of)
  have "(\<forall>k \<in> set (map fst n). subChunkPtr_key k c = None) \<longleftrightarrow>
      (\<forall>k. subChunkPtr_key k c = None \<or> subChunkPtr_key k d = None)"
    unfolding d map_of_eq_None_iff by auto
  with add_entries [OF assms(1) _ ok(2)] assms(3) map_ok_distinct [OF ok(1)] show ?thesis
    unfolding concatenate_branches(2) [OF m n] d by simp
qed

definition one_entry :: "string \<Rightarrow> string \<Rightarrow> chunkdat" where
  "one_entry k s = Chunkdat None 0 (Some (Chunk_map [(k, Chunkdat None 0 (Some (Chunk_string s)))]))"

lemma one_entry_ok: "wf_chunk (one_entry k s)" "chunk_type (one_entry k s) = MapT"
  by (simp_all add: one_entry_def)

theorem concatenate_maps_witness:
  "fst (concatenate (one_entry ''b'' ''y'') (one_entry ''a'' ''x'')) = None \<longleftrightarrow>
    (\<forall>k. subChunkPtr_key k (one_entry ''a'' ''x'') = None \<or> subChunkPtr_key k (one_entry ''b'' ''y'') = None)"
  by (rule concatenate_maps [THEN conjunct1]) (simp_all add: one_entry_ok)

text \<open>Merging with \<open>overwrite\<close> never throws, whatever the two objects hold.\<close>

theorem merge_overwrite_total:
  assumes "wf_chunk c" "wf_chunk this"
  shows "fst (merge True c this) = None \<and> wf_chunk (snd (merge True c this))"
  using merge_overwrite [OF assms] merge_wf [OF assms] by blast

theorem merge_overwrite_total_witness:
  "fst (merge True (one_entry ''a'' ''y'') (one_entry ''a'' ''x'')) = None
    \<and> wf_chunk (snd (merge True (one_entry ''a'' ''y'') (one_entry ''a'' ''x'')))"
  by (rule merge_overwrite_total) (simp_all add: one_entry_ok)

text \<open>C12: without \<open>overwrite\<close>, merging throws exactly when somewhere along common keys two objects
  meet that are not both maps or both lists, which depends on the two trees only and not
  on the order in which they are walked.\<close>

theorem merge_throws_iff:
  assumes "wf_chunk c" "wf_chunk this"
  shows "fst (merge False c this) = None \<longleftrightarrow> mergeable c this"
  by (rule merge_mergeable [OF assms])

theorem merge_throws_iff_witness:
  "fst (merge False (one_entry ''a'' ''y'') (one_entry ''a'' ''x'')) = None \<longleftrightarrow>
    mergeable (one_entry ''a'' ''y'') (one_entry ''a'' ''x'')"
  by (rule merge_throws_iff) (simp_all add: one_entry_ok)

text \<open>C13: after a merge every string of the argument is found at its path, every string found is
  of one of the two objects, and without \<open>overwrite\<close> no string of the object is lost.\<close>

theorem merge_strings_kept:
  assumes "wf_chunk c" "wf_chunk this" "merge ow c this = (None, r)"
  shows "(leaf ks c = Some s \<longrightarrow> leaf ks r = Some s)
    \<and> (leaf ks r = Some s \<longrightarrow> leaf ks c = Some s \<or> leaf ks this = Some s)
    \<and> (\<not> ow \<longrightarrow> leaf ks this = Some s \<longrightarrow> leaf ks r = Some s)"
  by (rule leaf_merge [OF assms])

theorem merge_strings_kept_witness:
  "leaf [''a''] (snd (merge True (one_entry ''a'' ''y'') (one_entry ''a'' ''x''))) = Some ''y''"
proof -
  have "merge True (one_entry ''a'' ''y'') (one_entry ''a'' ''x'') =
    (None, snd (merge True (one_entry ''a'' ''y'') (one_entry ''a'' ''x'')))"
    by (simp add: prod_eq_iff merge_overwrite one_entry_ok)
  from merge_strings_kept [OF one_entry_ok(1) one_entry_ok(1) this, of "[''a'']" "''y''"]
  show ?thesis by (simp add: one_entry_def subChunkPtr_key_def)
qed

text \<open>Erasing a key just added gives the map back.\<close>

theorem erase_undoes_add:
  assumes "wf_chunk c" "chunk_type c = MapT" and "addToMap (k, v) c = (None, c')"
  shows "erase_key k c' = (None, c)"
proof -
  obtain m where m: "m_achunk c = Some (Chunk_map m)" using assms(2) chunk_type_map by auto
  have ok: "map_ok m" using wf_chunk_achunk(1) [OF assms(1) m] by blast
  have none: "map_find k m = None"
    using assms(3) addToMap_present [OF m assms(1), of k v] by (cases "map_find k m") auto
  with assms(3) addToMap_fresh [OF m assms(1) none, of v]
  have c': "c' = set_achunk (Chunk_map (fst (map_insert k (copy_chunk v) m))) c" by simp
  have "map_find k (fst (map_insert k (copy_chunk v) m)) \<noteq> None"
    using ok none by (simp add: kv.find_insert)
  with ok none m show ?thesis
    by (auto simp: c' erase_key_def kv.erase_insert set_achunk_same)
qed

theorem erase_undoes_add_witness:
  "erase_key ''b'' (snd (addToMap (''b'', new_chunkdat) (one_entry ''a'' ''x''))) = (None, one_entry ''a'' ''x'')"
  by (rule erase_undoes_add [OF one_entry_ok, where v = new_chunkdat])
    (simp add: one_entry_def addToMap_def new_chunkdat_def)

text \<open>Erasing an index of a list drops that item when it is within the list and throws,
  changing nothing, when it is not; the sizes compare as \<open>unsigned int\<close>.\<close>

theorem erase_index_effect:
  assumes "m_achunk c = Some (Chunk_list l)" "length l < 2 ^ 31"
  shows "if unat i < length l
     then erase_index i c = (None, set_achunk (Chunk_list (take (unat i) l @ drop (Suc (unat i)) l)) c)
     else \<exists>e. erase_index i c = (Some e, c)"
proof -
  have "sint (word_of_nat (length l) :: 32 word) = int (length l)"
    using assms(2) by (simp add: signed_of_nat signed_take_bit_int_eq_self)
  then have size: "listSize c = int (length l)" using assms(1) by (simp add: listSize_def)
  have "(of_int (int (length l)) :: 32 word) \<le> i \<longleftrightarrow> length l \<le> unat i"
    using assms(2) by (simp add: word_le_nat_alt unsigned_of_nat take_bit_nat_eq_self)
  then show ?thesis using assms(1) by (simp add: erase_index_def size not_le)
qed

theorem erase_index_effect_witness:
  "\<exists>e. erase_index 1 (Chunkdat None 0 (Some (Chunk_list [new_chunkdat]))) =
    (Some e, Chunkdat None 0 (Some (Chunk_list [new_chunkdat])))"
  using erase_index_effect [of "Chunkdat None 0 (Some (Chunk_list [new_chunkdat]))" "[new_chunkdat]" 1]
  by simp

text \<open>The lookups that throw and those that return a null pointer agree; the exception names
  the file the object was read from, at its offset, when it has one.\<close>

theorem lookups_agree:
  "(subChunkRef_key files k c = Inr x \<longleftrightarrow> subChunkPtr_key k c = Some x)
    \<and> (subChunkRef_index files i c = Inr x \<longleftrightarrow> subChunkPtr_index i c = Some x)
    \<and> (subChunkRef_key files k c = Inl e \<longrightarrow> m_parent c = Some f \<longrightarrow>
        origin e = fst (files f) \<and> sdat e = snd (files f) \<and> location e = m_offset c)"
  by (auto simp: subChunkRef_key_def subChunkPtr_key_def subChunkRef_index_def subChunkPtr_index_def
      located_error_def split: option.splits chunk_abstract.splits if_splits)

theorem lookups_agree_witness:
  "subChunkRef_key (\<lambda>_. ([], [])) ''a'' (one_entry ''a'' ''x'') = Inr (Chunkdat None 0 (Some (Chunk_string ''x'')))"
  using lookups_agree [of "\<lambda>_. ([], [])" "''a''" "one_entry ''a'' ''x''"
      "Chunkdat None 0 (Some (Chunk_string ''x''))"]
  by (simp add: one_entry_def subChunkPtr_key_def)

end
