(* ===== verification/Chunk_Heap.thy ===== *)
theory Chunk_Heap
  imports Chunk_Ops
begin

text \<open>
  The objects in memory (src/src/filedat.cpp, lines 623-842 and 1006-1102): every
  \<open>chunkdat\<close> made by \<open>new\<close> and every \<open>chunk_string\<close>, \<open>chunk_map\<close> and \<open>chunk_list\<close> is a block of
  a store, the pointers between them are addresses, and the destructors free them. The
  arguments are addresses too, so that an argument may be the object itself, a part of it or
  an object that contains it.

  An address is never handed out twice, so an access through a pointer to a deleted object is
  always noticed: it is a \<open>fault\<close>, as is the use of an iterator that an insertion has
  invalidated. The destructors, the copy and the loops take fuel; a run that uses it up is a
  fault of its own. The pointers in a map or a list are never null.
\<close>

section \<open>The store\<close>

type_synonym addr = nat

datatype block =
    Obj "nat option" int "addr option"
  | Str string
  | Entries "(string \<times> addr) list"
  | Items "addr list"

record store =
  cells :: "addr \<Rightarrow> block option"
  fresh :: addr

datatype fault = Freed | Stale | Out_of_fuel

type_synonym 'a mem = "store \<Rightarrow> fault + 'a \<times> store"

definition returnM :: "'a \<Rightarrow> 'a mem" where
  "returnM x s = Inr (x, s)"

definition faultM :: "fault \<Rightarrow> 'a mem" where
  "faultM f s = Inl f"

definition bindM :: "'a mem \<Rightarrow> ('a \<Rightarrow> 'b mem) \<Rightarrow> 'b mem" where
  "bindM m f s = (case m s of Inl e \<Rightarrow> Inl e | Inr (x, s') \<Rightarrow> f x s')"

definition new_block :: "block \<Rightarrow> addr mem" where
  "new_block b s = Inr (fresh s, s\<lparr>cells := (cells s)(fresh s \<mapsto> b), fresh := Suc (fresh s)\<rparr>)"

definition free_block :: "addr \<Rightarrow> unit mem" where
  "free_block a s =
     (if cells s a = None then Inl Freed else Inr ((), s\<lparr>cells := (cells s)(a := None)\<rparr>))"

definition put_block :: "addr \<Rightarrow> block \<Rightarrow> unit mem" where
  "put_block a b s =
     (if cells s a = None then Inl Freed else Inr ((), s\<lparr>cells := (cells s)(a \<mapsto> b)\<rparr>))"

definition get_block :: "addr \<Rightarrow> block mem" where
  "get_block a s = (case cells s a of None \<Rightarrow> Inl Freed | Some b \<Rightarrow> Inr (b, s))"

definition get_obj :: "addr \<Rightarrow> (nat option \<times> int \<times> addr option) mem" where
  "get_obj a s = (case cells s a of Some (Obj p off ac) \<Rightarrow> Inr ((p, off, ac), s) | _ \<Rightarrow> Inl Freed)"

definition get_entries :: "addr \<Rightarrow> (string \<times> addr) list mem" where
  "get_entries a s = (case cells s a of Some (Entries m) \<Rightarrow> Inr (m, s) | _ \<Rightarrow> Inl Freed)"

definition get_items :: "addr \<Rightarrow> addr list mem" where
  "get_items a s = (case cells s a of Some (Items l) \<Rightarrow> Inr (l, s) | _ \<Rightarrow> Inl Freed)"

primrec each :: "('e \<Rightarrow> unit mem) \<Rightarrow> 'e list \<Rightarrow> unit mem" where
  "each f [] = returnM ()"
| "each f (x # xs) = bindM (f x) (\<lambda>_. each f xs)"

primrec collect :: "('e \<Rightarrow> 'b mem) \<Rightarrow> 'e list \<Rightarrow> 'b list mem" where
  "collect f [] = returnM []"
| "collect f (x # xs) = bindM (f x) (\<lambda>y. bindM (collect f xs) (\<lambda>ys. returnM (y # ys)))"

section \<open>Destructors\<close>

text \<open>\<open>delete\<close> on a \<open>chunk_abstract*\<close>: its destructor deletes the objects it points to.\<close>

definition delete_abstract :: "(addr \<Rightarrow> unit mem) \<Rightarrow> addr \<Rightarrow> unit mem" where
  "delete_abstract del b =
     bindM (get_block b) (\<lambda>blk.
     bindM (case blk of
              Entries m \<Rightarrow> each del (map snd m)
            | Items l \<Rightarrow> each del l
            | Str v \<Rightarrow> returnM ()
            | Obj p off ac \<Rightarrow> faultM Freed) (\<lambda>_.
     free_block b))"

definition clear_with :: "(addr \<Rightarrow> unit mem) \<Rightarrow> addr \<Rightarrow> unit mem" where
  "clear_with del a =
     bindM (get_obj a) (\<lambda>(p, off, ac).
     bindM (case ac of Some b \<Rightarrow> delete_abstract del b | None \<Rightarrow> returnM ()) (\<lambda>_.
     put_block a (Obj p off None)))"

text \<open>\<open>delete\<close> on a \<open>chunkdat*\<close>: the destructor clears the object, then the block is freed.\<close>

primrec delete_obj :: "nat \<Rightarrow> addr \<Rightarrow> unit mem" where
  "delete_obj 0 = (\<lambda>a. faultM Out_of_fuel)"
| "delete_obj (Suc n) = (\<lambda>a. bindM (clear_with (delete_obj n) a) (\<lambda>_. free_block a))"

definition clear_obj :: "nat \<Rightarrow> addr \<Rightarrow> unit mem" where
  "clear_obj n a = clear_with (delete_obj n) a"

section \<open>Copies\<close>

definition insert_entry :: "addr \<Rightarrow> string \<Rightarrow> addr \<Rightarrow> bool mem" where
  "insert_entry b k c =
     bindM (get_entries b) (\<lambda>m.
     case map_insert k c m of (m', second) \<Rightarrow>
       bindM (put_block b (Entries m')) (\<lambda>_. returnM second))"

definition append_item :: "addr \<Rightarrow> addr \<Rightarrow> unit mem" where
  "append_item b c = bindM (get_items b) (\<lambda>l. put_block b (Items (l @ [c])))"

text \<open>\<open>set(chunkdat const&)\<close>; \<open>pcopy\<close> is the copy of an entry.\<close>

definition copy_entry :: "(addr \<Rightarrow> addr mem) \<Rightarrow> addr \<Rightarrow> string \<times> addr \<Rightarrow> unit mem" where
  "copy_entry pcopy t it =
     bindM (pcopy (snd it)) (\<lambda>c. bindM (insert_entry t (fst it) c) (\<lambda>_. returnM ()))"

definition copy_abstract :: "(addr \<Rightarrow> addr mem) \<Rightarrow> addr \<Rightarrow> addr mem" where
  "copy_abstract pcopy b =
     bindM (get_block b) (\<lambda>blk.
     case blk of
       Entries m \<Rightarrow>
         bindM (new_block (Entries [])) (\<lambda>t.
         bindM (each (copy_entry pcopy t) m) (\<lambda>_.
         returnM t))
     | Items l \<Rightarrow>
         bindM (new_block (Items [])) (\<lambda>t.
         bindM (each (\<lambda>c. bindM (pcopy c) (append_item t)) l) (\<lambda>_.
         returnM t))
     | Str v \<Rightarrow> new_block (Str v)
     | Obj p off ac \<Rightarrow> faultM Freed)"

definition set_with :: "(addr \<Rightarrow> unit mem) \<Rightarrow> (addr \<Rightarrow> addr mem) \<Rightarrow> addr \<Rightarrow> addr \<Rightarrow> unit mem" where
  "set_with del pcopy i a =
     bindM (clear_with del a) (\<lambda>_.
     bindM (get_obj i) (\<lambda>(p, off, ac).
     bindM (put_block a (Obj p off None)) (\<lambda>_.
     case ac of None \<Rightarrow> returnM ()
     | Some b \<Rightarrow> bindM (copy_abstract pcopy b) (\<lambda>t. put_block a (Obj p off (Some t))))))"

primrec pcopy :: "nat \<Rightarrow> addr \<Rightarrow> addr mem" where
  "pcopy 0 = (\<lambda>i. faultM Out_of_fuel)"
| "pcopy (Suc n) = (\<lambda>i.
     bindM (new_block (Obj None 0 None)) (\<lambda>a.
     bindM (set_with (delete_obj n) (pcopy n) i a) (\<lambda>_. returnM a)))"

definition set_obj :: "nat \<Rightarrow> addr \<Rightarrow> addr \<Rightarrow> unit mem" where
  "set_obj n i a = set_with (delete_obj n) (pcopy n) i a"

section \<open>Reading\<close>

text \<open>The object tree at an address, which is all that \<open>strval\<close> reads.\<close>

primrec load :: "nat \<Rightarrow> addr \<Rightarrow> chunkdat mem" where
  "load 0 = (\<lambda>a. faultM Out_of_fuel)"
| "load (Suc n) = (\<lambda>a.
     bindM (get_obj a) (\<lambda>(p, off, ac).
     case ac of None \<Rightarrow> returnM (Chunkdat p off None)
     | Some b \<Rightarrow>
         bindM (get_block b) (\<lambda>blk.
         case blk of
           Entries m \<Rightarrow>
             bindM (collect (load n) (map snd m)) (\<lambda>cs.
             returnM (Chunkdat p off (Some (Chunk_map (zip (map fst m) cs)))))
         | Items l \<Rightarrow>
             bindM (collect (load n) l) (\<lambda>cs.
             returnM (Chunkdat p off (Some (Chunk_list cs))))
         | Str v \<Rightarrow> returnM (Chunkdat p off (Some (Chunk_string v)))
         | Obj p' off' ac' \<Rightarrow> faultM Freed)))"

definition strval_obj :: "nat \<Rightarrow> nat \<Rightarrow> string \<Rightarrow> addr \<Rightarrow> string mem" where
  "strval_obj n alignment aligner a =
     bindM (load n a) (\<lambda>c. returnM (strval alignment aligner c))"

text \<open>A call that changes an object returns the exception it leaves with, if any.\<close>

definition doneM :: "exn option mem" where
  "doneM = returnM None"

definition throwM :: "exn \<Rightarrow> exn option mem" where
  "throwM e = returnM (Some e)"

definition own_error_obj :: "nat \<Rightarrow> string \<Rightarrow> addr \<Rightarrow> exn option mem" where
  "own_error_obj n msg a =
     bindM (strval_obj n 0 [tab] a) (\<lambda>v. throwM (Format_error msg [] v (-1)))"

definition subChunkPtr_key_obj :: "string \<Rightarrow> addr \<Rightarrow> addr option mem" where
  "subChunkPtr_key_obj k a =
     bindM (get_obj a) (\<lambda>(p, off, ac).
     case ac of None \<Rightarrow> returnM None
     | Some b \<Rightarrow>
         bindM (get_block b) (\<lambda>blk.
         case blk of Entries m \<Rightarrow> returnM (map_find k m) | _ \<Rightarrow> returnM None))"

definition subChunkPtr_index_obj :: "32 word \<Rightarrow> addr \<Rightarrow> addr option mem" where
  "subChunkPtr_index_obj i a =
     bindM (get_obj a) (\<lambda>(p, off, ac).
     case ac of None \<Rightarrow> returnM None
     | Some b \<Rightarrow>
         bindM (get_block b) (\<lambda>blk.
         case blk of
           Items l \<Rightarrow> returnM (if length l \<le> unat i then None else Some (l ! unat i))
         | _ \<Rightarrow> returnM None))"

section \<open>Adding\<close>

definition addToMap_obj :: "nat \<Rightarrow> string \<Rightarrow> addr \<Rightarrow> addr \<Rightarrow> exn option mem" where
  "addToMap_obj n name val this =
     bindM (get_obj this) (\<lambda>(p, off, ac).
     case ac of
       None \<Rightarrow>
         bindM (new_block (Entries [])) (\<lambda>cp.
         bindM (put_block this (Obj p off (Some cp))) (\<lambda>_.
         bindM (pcopy n val) (\<lambda>chk.
         bindM (insert_entry cp name chk) (\<lambda>_. doneM))))
     | Some cp \<Rightarrow>
         bindM (get_block cp) (\<lambda>blk.
         case blk of
           Entries m \<Rightarrow>
             bindM (pcopy n val) (\<lambda>chk.
             bindM (insert_entry cp name chk) (\<lambda>second.
             if second then doneM
             else bindM (delete_obj n chk) (\<lambda>_.
                  own_error_obj n (key_message ''Key '' name '' already present'') this)))
         | _ \<Rightarrow> own_error_obj n ''Cannot add keys to non-map chunks'' this))"

definition addToList_obj :: "nat \<Rightarrow> addr \<Rightarrow> addr \<Rightarrow> exn option mem" where
  "addToList_obj n val this =
     bindM (get_obj this) (\<lambda>(p, off, ac).
     case ac of
       None \<Rightarrow>
         bindM (new_block (Items [])) (\<lambda>lp.
         bindM (put_block this (Obj p off (Some lp))) (\<lambda>_.
         bindM (pcopy n val) (\<lambda>chk.
         bindM (append_item lp chk) (\<lambda>_. doneM))))
     | Some lp \<Rightarrow>
         bindM (get_block lp) (\<lambda>blk.
         case blk of
           Items l \<Rightarrow>
             bindM (pcopy n val) (\<lambda>chk.
             bindM (append_item lp chk) (\<lambda>_. doneM))
         | _ \<Rightarrow> own_error_obj n ''Cannot add elements to non-list chunks'' this))"

section \<open>Concatenating and merging\<close>

text \<open>
  The range-based \<open>for\<close> over a \<open>std::map\<close>: its iterators stay valid while entries are
  inserted, so the next entry is the one with the next larger key of the map as it then is.
\<close>

definition next_entry :: "string option \<Rightarrow> (string \<times> addr) list \<Rightarrow> (string \<times> addr) option" where
  "next_entry pos m = (case pos of None \<Rightarrow> find (\<lambda>_. True) m | Some k \<Rightarrow> find (\<lambda>kc. k < fst kc) m)"

primrec each_entry :: "nat \<Rightarrow> (string \<Rightarrow> addr \<Rightarrow> exn option mem) \<Rightarrow> addr \<Rightarrow> string option \<Rightarrow> exn option mem" where
  "each_entry 0 f b pos = faultM Out_of_fuel"
| "each_entry (Suc n) f b pos =
     bindM (get_entries b) (\<lambda>m.
     case next_entry pos m of None \<Rightarrow> doneM
     | Some (k, c) \<Rightarrow>
         bindM (f k c) (\<lambda>e. case e of Some x \<Rightarrow> throwM x | None \<Rightarrow> each_entry n f b (Some k)))"

text \<open>Over a \<open>std::vector\<close>, whose iterators do not survive an insertion.\<close>

primrec each_item :: "(addr \<Rightarrow> exn option mem) \<Rightarrow> addr \<Rightarrow> addr list \<Rightarrow> addr list \<Rightarrow> exn option mem" where
  "each_item f b l [] =
     bindM (get_items b) (\<lambda>l'. if l' = l then doneM else faultM Stale)"
| "each_item f b l (c # cs) =
     bindM (get_items b) (\<lambda>l'.
     if l' = l then
       bindM (f c) (\<lambda>e. case e of Some x \<Rightarrow> throwM x | None \<Rightarrow> each_item f b l cs)
     else faultM Stale)"

definition concatenate_obj :: "nat \<Rightarrow> addr \<Rightarrow> addr \<Rightarrow> exn option mem" where
  "concatenate_obj n chk this =
     bindM (get_obj this) (\<lambda>(p, off, ac).
     case ac of None \<Rightarrow> bindM (set_obj n chk this) (\<lambda>_. doneM)
     | Some b \<Rightarrow>
         bindM (get_block b) (\<lambda>blk.
         bindM (get_obj chk) (\<lambda>(p', off', ac').
         case ac' of
           None \<Rightarrow> throwM (Format_error ''Cannot concatenate chunks of different types'' [] [] (-1))
         | Some b' \<Rightarrow>
             bindM (get_block b') (\<lambda>blk'.
             case (blk, blk') of
               (Entries m, Entries m') \<Rightarrow> each_entry n (\<lambda>k c. addToMap_obj n k c this) b' None
             | (Items l, Items l') \<Rightarrow> each_item (\<lambda>c. addToList_obj n c this) b' l' l'
             | (Str s, Str t) \<Rightarrow> bindM (put_block b (Str (s @ t))) (\<lambda>_. doneM)
             | _ \<Rightarrow> throwM (Format_error ''Cannot concatenate chunks of different types'' [] [] (-1))))))"

definition merge_mismatch_obj :: "nat \<Rightarrow> bool \<Rightarrow> addr \<Rightarrow> addr \<Rightarrow> exn option mem" where
  "merge_mismatch_obj n overwrite chk this =
     (if overwrite then bindM (set_obj n chk this) (\<lambda>_. doneM)
      else throwM (Format_error ''Cannot merge chunks of different types'' [] [] (-1)))"

text \<open>
  \<open>merge\<close> reads the map of the argument through the pointer \<open>ci\<close> and its own through \<open>cc\<close>,
  both taken before the loop.
\<close>

definition merge_entry :: "(addr \<Rightarrow> addr \<Rightarrow> exn option mem) \<Rightarrow> nat \<Rightarrow> addr \<Rightarrow> addr \<Rightarrow> string \<Rightarrow> addr \<Rightarrow> exn option mem" where
  "merge_entry sub n cc this k c =
     bindM (get_entries cc) (\<lambda>m.
     case map_find k m of None \<Rightarrow> addToMap_obj n k c this | Some d \<Rightarrow> sub c d)"

primrec merge_obj :: "nat \<Rightarrow> bool \<Rightarrow> addr \<Rightarrow> addr \<Rightarrow> exn option mem" where
  "merge_obj 0 overwrite = (\<lambda>chk this. faultM Out_of_fuel)"
| "merge_obj (Suc n) overwrite = (\<lambda>chk this.
     bindM (get_obj this) (\<lambda>(p, off, ac).
     case ac of None \<Rightarrow> bindM (set_obj n chk this) (\<lambda>_. doneM)
     | Some cc \<Rightarrow>
         bindM (get_block cc) (\<lambda>blk.
         bindM (get_obj chk) (\<lambda>(p', off', ac').
         case ac' of None \<Rightarrow> merge_mismatch_obj n overwrite chk this
         | Some ci \<Rightarrow>
             bindM (get_block ci) (\<lambda>blk'.
             case (blk, blk') of
               (Entries m, Entries m') \<Rightarrow>
                 each_entry n (merge_entry (merge_obj n overwrite) n cc this) ci None
             | (Items l, Items l') \<Rightarrow> each_item (\<lambda>c. addToList_obj n c this) ci l' l'
             | (Str s, Str t) \<Rightarrow>
                 (if overwrite then
                    bindM (strval_obj n 0 [tab] chk) (\<lambda>v.
                    bindM (put_block cc (Str v)) (\<lambda>_. doneM))
                  else throwM (Format_error ''Cannot merge string chunks'' [] [] (-1)))
             | _ \<Rightarrow> merge_mismatch_obj n overwrite chk this)))))"

section \<open>Erasing\<close>

definition erase_key_obj :: "nat \<Rightarrow> string \<Rightarrow> addr \<Rightarrow> exn option mem" where
  "erase_key_obj n key this =
     bindM (get_obj this) (\<lambda>(p, off, ac).
     case ac of None \<Rightarrow> own_error_obj n ''Cannot erase element from non-map chunk'' this
     | Some cp \<Rightarrow>
         bindM (get_block cp) (\<lambda>blk.
         case blk of
           Entries m \<Rightarrow>
             (case map_find key m of
                None \<Rightarrow> own_error_obj n (key_message ''Key '' key '' not present'') this
              | Some c \<Rightarrow>
                  bindM (delete_obj n c) (\<lambda>_.
                  bindM (put_block cp (Entries (map_erase key m))) (\<lambda>_. doneM)))
         | _ \<Rightarrow> own_error_obj n ''Cannot erase element from non-map chunk'' this))"

definition erase_index_obj :: "nat \<Rightarrow> 32 word \<Rightarrow> addr \<Rightarrow> exn option mem" where
  "erase_index_obj n index this =
     bindM (get_obj this) (\<lambda>(p, off, ac).
     case ac of None \<Rightarrow> own_error_obj n ''Cannot erase element from non-list chunk'' this
     | Some lp \<Rightarrow>
         bindM (get_block lp) (\<lambda>blk.
         case blk of
           Items l \<Rightarrow>
             (let listSize = sint (of_nat (length l) :: 32 word)
              in if (of_int listSize :: 32 word) \<le> index
                 then own_error_obj n (''Cannot erase out of bonds: '' @ to_string (unat index)
                   @ '' in size '' @ int_to_string listSize) this
                 else bindM (delete_obj n (l ! unat index)) (\<lambda>_.
                      bindM (put_block lp (Items (take (unat index) l @ drop (Suc (unat index)) l))) (\<lambda>_.
                      doneM)))
         | _ \<Rightarrow> own_error_obj n ''Cannot erase element from non-list chunk'' this))"

end
