(* ===== verification/Chunk_Heap_Laws.thy ===== *)
theory Chunk_Heap_Laws
  imports Chunk_Heap Chunk_Laws
begin

text \<open>
  The objects in memory against the trees of Chunk_Ops: \<open>stored s a c S\<close> says that the tree
  \<open>c\<close> lies at the address \<open>a\<close> and that \<open>S\<close> are its blocks, each owned once;
  \<open>becomes s S s' S'\<close> says that a run has turned the blocks \<open>S\<close> into \<open>S'\<close>, freed the others
  of \<open>S\<close>, left everything else alone and kept no block it does not own. Every operation on
  separate objects does to the stored tree what the operation of Chunk_Ops does to the tree.
\<close>

declare merge.simps [simp del]

section \<open>Stored objects\<close>

fun stored :: "store \<Rightarrow> addr \<Rightarrow> chunkdat \<Rightarrow> addr set \<Rightarrow> bool"
  and stored_entries :: "store \<Rightarrow> (string \<times> addr) list \<Rightarrow> (string \<times> chunkdat) list \<Rightarrow> addr set \<Rightarrow> bool"
  and stored_items :: "store \<Rightarrow> addr list \<Rightarrow> chunkdat list \<Rightarrow> addr set \<Rightarrow> bool" where
  "stored s a (Chunkdat p off ac) S =
     (case ac of
        None \<Rightarrow> cells s a = Some (Obj p off None) \<and> S = {a}
      | Some (Chunk_string v) \<Rightarrow>
          (\<exists>b. cells s a = Some (Obj p off (Some b)) \<and> cells s b = Some (Str v) \<and> S = {a, b})
      | Some (Chunk_map m) \<Rightarrow>
          (\<exists>b xs T. cells s a = Some (Obj p off (Some b)) \<and> cells s b = Some (Entries xs) \<and>
             stored_entries s xs m T \<and> a \<notin> T \<and> b \<notin> T \<and> S = {a, b} \<union> T)
      | Some (Chunk_list l) \<Rightarrow>
          (\<exists>b xs T. cells s a = Some (Obj p off (Some b)) \<and> cells s b = Some (Items xs) \<and>
             stored_items s xs l T \<and> a \<notin> T \<and> b \<notin> T \<and> S = {a, b} \<union> T))"
| "stored_entries s xs [] S = (xs = [] \<and> S = {})"
| "stored_entries s xs ((k, c) # m) S =
     (\<exists>x ys S1 S2. xs = (k, x) # ys \<and> stored s x c S1 \<and> stored_entries s ys m S2 \<and>
        S1 \<inter> S2 = {} \<and> S = S1 \<union> S2)"
| "stored_items s xs [] S = (xs = [] \<and> S = {})"
| "stored_items s xs (c # l) S =
     (\<exists>x ys S1 S2. xs = x # ys \<and> stored s x c S1 \<and> stored_items s ys l S2 \<and>
        S1 \<inter> S2 = {} \<and> S = S1 \<union> S2)"

declare stored.simps(1) [simp del]

lemma stored_simps [simp]:
  "stored s a (Chunkdat p off None) S \<longleftrightarrow> cells s a = Some (Obj p off None) \<and> S = {a}"
  "stored s a (Chunkdat p off (Some (Chunk_string v))) S \<longleftrightarrow>
     (\<exists>b. cells s a = Some (Obj p off (Some b)) \<and> cells s b = Some (Str v) \<and> S = {a, b})"
  "stored s a (Chunkdat p off (Some (Chunk_map m))) S \<longleftrightarrow>
     (\<exists>b xs T. cells s a = Some (Obj p off (Some b)) \<and> cells s b = Some (Entries xs) \<and>
        stored_entries s xs m T \<and> a \<notin> T \<and> b \<notin> T \<and> S = {a, b} \<union> T)"
  "stored s a (Chunkdat p off (Some (Chunk_list l))) S \<longleftrightarrow>
     (\<exists>b xs T. cells s a = Some (Obj p off (Some b)) \<and> cells s b = Some (Items xs) \<and>
        stored_items s xs l T \<and> a \<notin> T \<and> b \<notin> T \<and> S = {a, b} \<union> T)"
  by (simp_all add: stored.simps(1))

lemma stored_obj: "stored s a c S \<Longrightarrow> \<exists>ac. cells s a = Some (Obj (m_parent c) (m_offset c) ac) \<and> a \<in> S
    \<and> (ac = None \<longleftrightarrow> m_achunk c = None)"
  by (cases c rule: chunk_cases) auto

text \<open>The entries of a map are the items of a list that carry keys.\<close>

lemma entries_items: "stored_entries s xs m S \<longleftrightarrow>
    map fst xs = map fst m \<and> stored_items s (map snd xs) (map snd m) S"
proof (induction m arbitrary: xs S)
  case (Cons kc m)
  obtain k c where kc: "kc = (k, c)" by force
  show ?case by (cases xs) (auto simp: kc Cons.IH, blast+)
qed auto

lemma stored_items_append:
  "length as = length cs \<Longrightarrow> stored_items s (as @ bs) (cs @ ds) S \<longleftrightarrow>
     (\<exists>S1 S2. stored_items s as cs S1 \<and> stored_items s bs ds S2 \<and> S1 \<inter> S2 = {} \<and> S = S1 \<union> S2)"
proof (induction as cs arbitrary: S rule: list_induct2)
  case (Cons a as c cs)
  show ?case
  proof
    assume "stored_items s ((a # as) @ bs) ((c # cs) @ ds) S"
    then obtain T1 T2 S1 S2 where "stored s a c T1" "stored_items s as cs S1" "stored_items s bs ds S2"
      "S1 \<inter> S2 = {}" "T2 = S1 \<union> S2" "T1 \<inter> T2 = {}" "S = T1 \<union> T2" by (auto simp: Cons.IH)
    then show "\<exists>S1 S2. stored_items s (a # as) (c # cs) S1 \<and> stored_items s bs ds S2 \<and> S1 \<inter> S2 = {} \<and> S = S1 \<union> S2"
      by (intro exI [of _ "T1 \<union> S1"] exI [of _ S2]) auto
  next
    assume "\<exists>S1 S2. stored_items s (a # as) (c # cs) S1 \<and> stored_items s bs ds S2 \<and> S1 \<inter> S2 = {} \<and> S = S1 \<union> S2"
    then obtain S2 T1 T2 where "stored s a c T1" "stored_items s as cs T2" "T1 \<inter> T2 = {}"
      "stored_items s bs ds S2" "(T1 \<union> T2) \<inter> S2 = {}" "S = T1 \<union> T2 \<union> S2" by auto
    then show "stored_items s ((a # as) @ bs) ((c # cs) @ ds) S"
      by (simp add: Cons.IH) (rule exI [of _ T1], simp, rule exI [of _ "T2 \<union> S2"], blast)
  qed
qed auto

lemma stored_items_length: "stored_items s xs l S \<Longrightarrow> length xs = length l"
  by (induction l arbitrary: xs S) auto

lemma stored_frame_items:
  assumes "\<And>c x T. c \<in> set l \<Longrightarrow> \<forall>y \<in> T. cells s' y = cells s y \<Longrightarrow> stored s x c T \<Longrightarrow> stored s' x c T"
    and "\<forall>y \<in> S. cells s' y = cells s y" and "stored_items s xs l S"
  shows "stored_items s' xs l S"
  using assms
proof (induction l arbitrary: xs S)
  case (Cons c l)
  from Cons.prems(3) obtain x ys S1 S2 where xs: "xs = x # ys" "stored s x c S1" "stored_items s ys l S2"
    "S1 \<inter> S2 = {}" "S = S1 \<union> S2" by auto
  have "stored s' x c S1" by (rule Cons.prems(1)) (use Cons.prems(2) xs in auto)
  moreover have "stored_items s' ys l S2"
    by (rule Cons.IH [OF Cons.prems(1) _ xs(3)]) (use Cons.prems(2) xs in auto)
  ultimately show ?case using xs by auto
qed simp

text \<open>What lies in some blocks depends on these blocks only.\<close>

lemma stored_frame: "stored s a c S \<Longrightarrow> \<forall>y \<in> S. cells s' y = cells s y \<Longrightarrow> stored s' a c S"
proof (induction c arbitrary: a S rule: chunk_induct)
  case (map p off m)
  from map.prems obtain b xs T where *: "cells s a = Some (Obj p off (Some b))" "cells s b = Some (Entries xs)"
    "stored_items s (map snd xs) (map snd m) T" "map fst xs = map fst m" "a \<notin> T" "b \<notin> T" "S = {a, b} \<union> T"
    by (auto simp: entries_items)
  have "stored_items s' (map snd xs) (map snd m) T"
    by (rule stored_frame_items [OF _ _ *(3)]) (use map * in auto)
  with * map.prems(2) show ?case by (auto simp: entries_items)
next
  case (list p off l)
  from list.prems obtain b xs T where *: "cells s a = Some (Obj p off (Some b))" "cells s b = Some (Items xs)"
    "stored_items s xs l T" "a \<notin> T" "b \<notin> T" "S = {a, b} \<union> T"
    by auto
  have "stored_items s' xs l T"
    by (rule stored_frame_items [OF _ _ *(3)]) (use list * in auto)
  with * list.prems(2) show ?case by auto
qed auto

lemma items_frame: "stored_items s xs l S \<Longrightarrow> \<forall>y \<in> S. cells s' y = cells s y \<Longrightarrow> stored_items s' xs l S"
  by (rule stored_frame_items [OF stored_frame])

lemma entries_frame: "stored_entries s xs m S \<Longrightarrow> \<forall>y \<in> S. cells s' y = cells s y \<Longrightarrow> stored_entries s' xs m S"
  using items_frame by (auto simp: entries_items)

lemma items_allocated:
  "(\<And>c x T. c \<in> set l \<Longrightarrow> stored s x c T \<Longrightarrow> T \<subseteq> dom (cells s)) \<Longrightarrow> stored_items s xs l S \<Longrightarrow> S \<subseteq> dom (cells s)"
proof (induction l arbitrary: xs S)
  case (Cons c l)
  from Cons.prems(2) obtain x ys S1 S2 where "stored s x c S1" "stored_items s ys l S2" "S = S1 \<union> S2" by auto
  then show ?case using Cons.IH [of ys S2] Cons.prems(1) by (metis Un_least list.set_intros)
qed simp

lemma stored_allocated: "stored s a c S \<Longrightarrow> S \<subseteq> dom (cells s)"
proof (induction c arbitrary: a S rule: chunk_induct)
  case (map p off m)
  then obtain b xs T where *: "cells s a = Some (Obj p off (Some b))" "cells s b = Some (Entries xs)"
    "stored_items s (map snd xs) (map snd m) T" "S = {a, b} \<union> T" by (auto simp: entries_items)
  have "T \<subseteq> dom (cells s)" by (rule items_allocated [OF _ *(3)]) (use map.IH in force)
  with * show ?case by auto
next
  case (list p off l)
  then obtain b xs T where *: "cells s a = Some (Obj p off (Some b))" "cells s b = Some (Items xs)"
    "stored_items s xs l T" "S = {a, b} \<union> T" by auto
  have "T \<subseteq> dom (cells s)" by (rule items_allocated [OF _ *(3)]) (use list.IH in auto)
  with * show ?case by auto
qed auto

section \<open>Ownership\<close>

definition store_ok :: "store \<Rightarrow> bool" where
  "store_ok s \<longleftrightarrow> (\<forall>a. fresh s \<le> a \<longrightarrow> cells s a = None)"

definition becomes :: "store \<Rightarrow> addr set \<Rightarrow> store \<Rightarrow> addr set \<Rightarrow> bool" where
  "becomes s S s' S' \<longleftrightarrow> store_ok s' \<and> fresh s \<le> fresh s' \<and> S' \<subseteq> S \<union> {fresh s..<fresh s'} \<and>
     (\<forall>x. x \<notin> S' \<longrightarrow> cells s' x = (if x \<in> S then None else cells s x))"

lemma stored_below: "stored s a c S \<Longrightarrow> store_ok s \<Longrightarrow> x \<in> S \<Longrightarrow> x < fresh s"
  using stored_allocated [of s a c S] by (force simp: store_ok_def not_le [symmetric])

lemma items_below: "stored_items s xs l S \<Longrightarrow> store_ok s \<Longrightarrow> x \<in> S \<Longrightarrow> x < fresh s"
  using items_allocated [of l s xs S] stored_allocated by (force simp: store_ok_def not_le [symmetric])

lemma becomes_ok: "becomes s S s' S' \<Longrightarrow> store_ok s'"
  by (simp add: becomes_def)

lemma becomes_refl: "store_ok s \<Longrightarrow> becomes s S s S"
  by (simp add: becomes_def)

lemma becomes_trans:
  assumes "becomes s S s1 S1" "becomes s1 S1 s2 S2" "store_ok s"
  shows "becomes s S s2 S2"
proof -
  have "cells s2 x = (if x \<in> S then None else cells s x)" if "x \<notin> S2" for x
  proof (cases "x \<in> S1 - S")
    case True
    then have "fresh s \<le> x" using assms(1) by (auto simp: becomes_def)
    with True that assms show ?thesis by (auto simp: becomes_def store_ok_def)
  qed (use that assms in \<open>auto simp: becomes_def\<close>)
  moreover have "S2 \<subseteq> S \<union> {fresh s..<fresh s2}"
    using assms(1,2) by (force simp: becomes_def)
  ultimately show ?thesis using assms by (auto simp: becomes_def)
qed

text \<open>A run leaves the blocks of others alone, so it also turns \<open>S\<close> with them into \<open>S'\<close> with them.\<close>

lemma becomes_same: "becomes s S s' S' \<Longrightarrow> x \<notin> S \<Longrightarrow> x < fresh s \<Longrightarrow> cells s' x = cells s x \<and> x \<notin> S'"
  by (cases "x \<in> S'") (auto simp: becomes_def)

lemma becomes_frame:
  "becomes s S s' S' \<Longrightarrow> T \<inter> S = {} \<Longrightarrow> \<forall>x \<in> T. x < fresh s \<Longrightarrow> becomes s (S \<union> T) s' (S' \<union> T)"
  by (auto simp: becomes_def)

lemma becomes_stored:
  "becomes s S s' S' \<Longrightarrow> stored s a c T \<Longrightarrow> T \<inter> S = {} \<Longrightarrow> store_ok s \<Longrightarrow> stored s' a c T \<and> T \<inter> S' = {}"
  using becomes_same [of s S s' S'] stored_below by (blast intro: stored_frame)

lemma becomes_items:
  "becomes s S s' S' \<Longrightarrow> stored_items s xs l T \<Longrightarrow> T \<inter> S = {} \<Longrightarrow> store_ok s \<Longrightarrow> stored_items s' xs l T \<and> T \<inter> S' = {}"
  using becomes_same [of s S s' S'] items_below by (blast intro: items_frame)

lemma becomes_entries:
  "becomes s S s' S' \<Longrightarrow> stored_entries s xs m T \<Longrightarrow> T \<inter> S = {} \<Longrightarrow> store_ok s \<Longrightarrow>
     stored_entries s' xs m T \<and> T \<inter> S' = {}"
  using becomes_items [of s S s' S' "map snd xs" "map snd m" T] by (simp add: entries_items)

section \<open>Runs\<close>

named_theorems run_simps \<open>running the primitives of the store\<close>

abbreviation put_cell :: "addr \<Rightarrow> block \<Rightarrow> store \<Rightarrow> store" where
  "put_cell a b s \<equiv> s\<lparr>cells := (cells s)(a \<mapsto> b)\<rparr>"

definition alloc :: "block \<Rightarrow> store \<Rightarrow> store" where
  "alloc b s = s\<lparr>cells := (cells s)(fresh s \<mapsto> b), fresh := Suc (fresh s)\<rparr>"

definition drop_blocks :: "addr set \<Rightarrow> store \<Rightarrow> store" where
  "drop_blocks S s = s\<lparr>cells := (cells s) |` (- S)\<rparr>"

lemma run_primitives [run_simps]:
  "returnM x s = Inr (x, s)"
  "faultM ft s = Inl ft"
  "doneM s = Inr (None, s)"
  "throwM e s = Inr (Some e, s)"
  "new_block b s = Inr (fresh s, alloc b s)"
  "cells s a = Some blk \<Longrightarrow> get_block a s = Inr (blk, s)"
  "cells s a = Some (Obj p off ac) \<Longrightarrow> get_obj a s = Inr ((p, off, ac), s)"
  "cells s a = Some (Entries m) \<Longrightarrow> get_entries a s = Inr (m, s)"
  "cells s a = Some (Items l) \<Longrightarrow> get_items a s = Inr (l, s)"
  "cells s a = Some blk \<Longrightarrow> put_block a b s = Inr ((), put_cell a b s)"
  "cells s a = Some blk \<Longrightarrow> free_block a s = Inr ((), drop_blocks {a} s)"
  "act s = Inr (x, s') \<Longrightarrow> bindM act g s = g x s'"
  "act s = Inl ft \<Longrightarrow> bindM act g s = Inl ft"
  by (auto simp: returnM_def faultM_def doneM_def throwM_def new_block_def alloc_def get_block_def get_obj_def
      get_entries_def get_items_def put_block_def free_block_def bindM_def drop_blocks_def restrict_map_def
      fun_eq_iff intro!: store.equality)

lemma alloc_simps [simp]:
  "cells (alloc b s) x = (if x = fresh s then Some b else cells s x)"
  "fresh (alloc b s) = Suc (fresh s)"
  by (simp_all add: alloc_def)

lemma drop_blocks_simps [simp]:
  "cells (drop_blocks S s) x = (if x \<in> S then None else cells s x)"
  "fresh (drop_blocks S s) = fresh s"
  "drop_blocks S (drop_blocks T s) = drop_blocks (T \<union> S) s"
  "drop_blocks {} s = s"
  by (auto simp: drop_blocks_def restrict_map_def fun_eq_iff intro!: store.equality)

lemma put_cell_same: "cells s a = Some b \<Longrightarrow> put_cell a b s = s"
  by (auto simp: fun_eq_iff intro!: store.equality)

lemma becomes_put: "store_ok s \<Longrightarrow> a \<in> S \<Longrightarrow> a < fresh s \<Longrightarrow> becomes s S (put_cell a b s) S"
  by (auto simp: becomes_def store_ok_def)

lemma becomes_alloc: "store_ok s \<Longrightarrow> becomes s {} (alloc b s) {fresh s}"
  by (auto simp: becomes_def store_ok_def)

lemma becomes_drop: "store_ok s \<Longrightarrow> T \<subseteq> S \<Longrightarrow> becomes s S (drop_blocks T s) (S - T)"
  by (auto simp: becomes_def store_ok_def)

lemma becomes_new:
  "becomes s {} s' T \<Longrightarrow> \<forall>x \<in> S. x < fresh s \<Longrightarrow> becomes s S s' (S \<union> T)"
  using becomes_frame [of s "{}" s' T S] by (simp add: Un_commute)

section \<open>Contents\<close>

definition stored_abstract :: "store \<Rightarrow> addr \<Rightarrow> chunk_abstract \<Rightarrow> addr set \<Rightarrow> bool" where
  "stored_abstract s b x S =
     (case x of
        Chunk_string v \<Rightarrow> cells s b = Some (Str v) \<and> S = {b}
      | Chunk_map m \<Rightarrow>
          (\<exists>xs T. cells s b = Some (Entries xs) \<and> stored_entries s xs m T \<and> b \<notin> T \<and> S = insert b T)
      | Chunk_list l \<Rightarrow>
          (\<exists>xs T. cells s b = Some (Items xs) \<and> stored_items s xs l T \<and> b \<notin> T \<and> S = insert b T))"

lemma stored_abstract_simps [simp]:
  "stored_abstract s b (Chunk_string v) S \<longleftrightarrow> cells s b = Some (Str v) \<and> S = {b}"
  "stored_abstract s b (Chunk_map m) S \<longleftrightarrow>
     (\<exists>xs T. cells s b = Some (Entries xs) \<and> stored_entries s xs m T \<and> b \<notin> T \<and> S = insert b T)"
  "stored_abstract s b (Chunk_list l) S \<longleftrightarrow>
     (\<exists>xs T. cells s b = Some (Items xs) \<and> stored_items s xs l T \<and> b \<notin> T \<and> S = insert b T)"
  by (simp_all add: stored_abstract_def)

lemma stored_some: "stored s a (Chunkdat p off (Some x)) S \<longleftrightarrow>
    (\<exists>b T. cells s a = Some (Obj p off (Some b)) \<and> stored_abstract s b x T \<and> a \<notin> T \<and> S = insert a T)"
proof (cases x)
  case (Chunk_string v)
  then show ?thesis by force
next
  case (Chunk_map m)
  have "a \<noteq> b" if "cells s a = Some (Obj p off (Some b))" "cells s b = Some (Entries xs)" for b xs
    using that by auto
  then show ?thesis unfolding Chunk_map stored_simps stored_abstract_simps by blast
next
  case (Chunk_list l)
  have "a \<noteq> b" if "cells s a = Some (Obj p off (Some b))" "cells s b = Some (Items xs)" for b xs
    using that by auto
  then show ?thesis unfolding Chunk_list stored_simps stored_abstract_simps by blast
qed

lemma stored_cases [consumes 1, case_names none some]:
  assumes "stored s a c S"
  obtains p off where "c = Chunkdat p off None" "cells s a = Some (Obj p off None)" "S = {a}"
  | p off x b T where "c = Chunkdat p off (Some x)" "cells s a = Some (Obj p off (Some b))"
      "stored_abstract s b x T" "a \<notin> T" "S = insert a T"
proof (cases c)
  case (Chunkdat p off ac)
  show ?thesis
  proof (cases ac)
    case None
    then show ?thesis using assms Chunkdat by (intro that(1)) auto
  next
    case (Some x)
    then show ?thesis using assms Chunkdat that(2) unfolding Some Chunkdat stored_some by blast
  qed
qed

lemma abstract_frame: "stored_abstract s b x S \<Longrightarrow> \<forall>y \<in> S. cells s' y = cells s y \<Longrightarrow> stored_abstract s' b x S"
  using entries_frame [of s _ _ _ s'] items_frame [of s _ _ _ s'] by (cases x) fastforce+

lemma items_dom: "stored_items s xs l S \<Longrightarrow> S \<subseteq> dom (cells s)"
  by (rule items_allocated) (use stored_allocated in blast)

lemma abstract_allocated: "stored_abstract s b x S \<Longrightarrow> S \<subseteq> dom (cells s)"
  using items_dom by (cases x) (auto simp: entries_items, blast+)

lemma abstract_below: "stored_abstract s b x S \<Longrightarrow> store_ok s \<Longrightarrow> y \<in> S \<Longrightarrow> y < fresh s"
  using abstract_allocated [of s b x S] by (force simp: store_ok_def not_le [symmetric])

lemma becomes_abstract:
  "becomes s S s' S' \<Longrightarrow> stored_abstract s b x T \<Longrightarrow> T \<inter> S = {} \<Longrightarrow> store_ok s \<Longrightarrow>
     stored_abstract s' b x T \<and> T \<inter> S' = {}"
  using becomes_same [of s S s' S'] abstract_below by (blast intro: abstract_frame)

lemma abstract_block: "stored_abstract s b x S \<Longrightarrow> b \<in> S \<and> (\<exists>blk. cells s b = Some blk \<and> (\<forall>p off ac. blk \<noteq> Obj p off ac))"
  by (cases x) auto

section \<open>Deletion\<close>

fun depth :: "chunkdat \<Rightarrow> nat"
  and depth_values :: "(string \<times> chunkdat) list \<Rightarrow> nat"
  and depth_items :: "chunkdat list \<Rightarrow> nat" where
  "depth (Chunkdat p off a) = Suc (case a of
      Some (Chunk_map m) \<Rightarrow> depth_values m
    | Some (Chunk_list l) \<Rightarrow> depth_items l
    | Some (Chunk_string v) \<Rightarrow> 0
    | None \<Rightarrow> 0)"
| "depth_values [] = 0"
| "depth_values ((k, c) # m) = max (depth c) (depth_values m)"
| "depth_items [] = 0"
| "depth_items (c # l) = max (depth c) (depth_items l)"

lemma depth_values_items: "depth_values m = depth_items (map snd m)"
  by (induction m) auto

lemma depth_items_le: "depth_items l \<le> n \<longleftrightarrow> (\<forall>c \<in> set l. depth c \<le> n)"
  by (induction l) auto

lemma depth_item: "d \<in> set l \<Longrightarrow> depth d \<le> depth_items l"
  using depth_items_le by blast

definition deletes :: "(addr \<Rightarrow> unit mem) \<Rightarrow> chunkdat \<Rightarrow> bool" where
  "deletes del c \<longleftrightarrow> (\<forall>s a S. stored s a c S \<longrightarrow> del a s = Inr ((), drop_blocks S s))"

lemma delete_items:
  "\<forall>c \<in> set l. deletes del c \<Longrightarrow> stored_items s xs l S \<Longrightarrow> each del xs s = Inr ((), drop_blocks S s)"
proof (induction l arbitrary: s xs S)
  case (Cons c l)
  from Cons.prems(2) obtain x ys S1 S2 where *: "xs = x # ys" "stored s x c S1" "stored_items s ys l S2"
    "S1 \<inter> S2 = {}" "S = S1 \<union> S2" by auto
  have "del x s = Inr ((), drop_blocks S1 s)" using Cons.prems(1) *(2) by (simp add: deletes_def)
  moreover have "stored_items (drop_blocks S1 s) ys l S2"
    by (rule items_frame [OF *(3)]) (use *(4) in auto)
  ultimately show ?case using Cons * by (simp add: run_simps)
qed (simp add: run_simps)

text \<open>The objects a content points to.\<close>

fun parts :: "chunk_abstract \<Rightarrow> chunkdat list" where
  "parts (Chunk_string v) = []"
| "parts (Chunk_map m) = map snd m"
| "parts (Chunk_list l) = l"

lemma delete_abstract_run:
  assumes "\<forall>c \<in> set (parts x). deletes del c" "stored_abstract s b x S"
  shows "delete_abstract del b s = Inr ((), drop_blocks S s)"
proof -
  have run: "delete_abstract del b s = Inr ((), drop_blocks (insert b T) s)"
    if "cells s b = Some blk" "(case blk of Entries m \<Rightarrow> each del (map snd m) | Items l \<Rightarrow> each del l
      | Str v \<Rightarrow> returnM () | Obj p off ac \<Rightarrow> faultM Freed) s = Inr ((), drop_blocks T s)" "b \<notin> T" for blk T
  proof -
    have "cells (drop_blocks T s) b = Some blk" using that by simp
    with that show ?thesis by (simp add: delete_abstract_def run_simps)
  qed
  show ?thesis
  proof (cases x)
    case (Chunk_string v)
    then show ?thesis using assms by (auto intro!: run [of "Str v" "{}"] simp: run_simps)
  next
    case (Chunk_map m)
    then obtain xs T where "cells s b = Some (Entries xs)" "stored_items s (map snd xs) (map snd m) T"
      "b \<notin> T" "S = insert b T" using assms(2) by (auto simp: entries_items)
    then show ?thesis using delete_items [of "map snd m" del s "map snd xs" T] assms(1) Chunk_map run [of "Entries xs" T] by simp
  next
    case (Chunk_list l)
    then obtain xs T where "cells s b = Some (Items xs)" "stored_items s xs l T"
      "b \<notin> T" "S = insert b T" using assms(2) by auto
    then show ?thesis using delete_items [of l del s xs T] assms(1) Chunk_list run [of "Items xs" T] by simp
  qed
qed

fun children :: "chunkdat \<Rightarrow> chunkdat list" where
  "children (Chunkdat p off ac) = (case ac of None \<Rightarrow> [] | Some x \<Rightarrow> parts x)"

lemma clear_with_run:
  assumes "\<forall>d \<in> set (children c). deletes del d" "stored s a c S"
  shows "clear_with del a s =
    Inr ((), put_cell a (Obj (m_parent c) (m_offset c) None) (drop_blocks (S - {a}) s))"
  using assms(2)
proof (cases rule: stored_cases)
  case (some p off x b T)
  have "delete_abstract del b s = Inr ((), drop_blocks T s)"
    by (rule delete_abstract_run [OF _ some(3)]) (use assms(1) some(1) in auto)
  moreover have "cells (drop_blocks T s) a = Some (Obj p off (Some b))" using some by simp
  moreover have "S - {a} = T" using some by auto
  ultimately show ?thesis using some by (simp add: clear_with_def run_simps)
qed (simp add: clear_with_def run_simps)

lemma depth_children: "d \<in> set (children c) \<Longrightarrow> depth d < depth c"
  using depth_item by (cases c rule: chunk_cases) (auto simp: depth_values_items less_Suc_eq_le simp del: set_map)

lemma delete_obj_run: "depth c \<le> n \<Longrightarrow> deletes (delete_obj n) c"
proof (induction n arbitrary: c)
  case 0
  then show ?case by (cases c) simp
next
  case (Suc n)
  have "deletes (delete_obj n) d" if "d \<in> set (children c)" for d
    using Suc depth_children [OF that] by simp
  then show ?case unfolding deletes_def
  proof (intro allI impI)
    fix s a S assume c: "stored s a c S"
    let ?s = "put_cell a (Obj (m_parent c) (m_offset c) None) (drop_blocks (S - {a}) s)"
    have "drop_blocks {a} ?s = drop_blocks S s"
      using stored_obj [OF c] by (auto simp: fun_eq_iff drop_blocks_def restrict_map_def intro!: store.equality)
    moreover have "clear_with (delete_obj n) a s = Inr ((), ?s)"
      using clear_with_run [OF _ c] \<open>\<And>d. d \<in> set (children c) \<Longrightarrow> deletes (delete_obj n) d\<close> by blast
    ultimately show "delete_obj (Suc n) a s = Inr ((), drop_blocks S s)" by (simp add: run_simps)
  qed
qed

section \<open>Copies\<close>

definition copies :: "(addr \<Rightarrow> addr mem) \<Rightarrow> chunkdat \<Rightarrow> bool" where
  "copies cp c \<longleftrightarrow> (\<forall>s i S. stored s i c S \<longrightarrow> store_ok s \<longrightarrow>
     (\<exists>a s' T. cp i s = Inr (a, s') \<and> stored s' a c T \<and> becomes s {} s' T))"

lemma entries_insert:
  assumes "stored_entries s xs m S" "stored s x c T" "T \<inter> S = {}"
  shows "snd (map_insert k x xs) = snd (map_insert k c m)
    \<and> (if snd (map_insert k c m) then stored_entries s (fst (map_insert k x xs)) (fst (map_insert k c m)) (S \<union> T)
       else fst (map_insert k x xs) = xs \<and> fst (map_insert k c m) = m)"
  using assms
proof (induction m arbitrary: xs S)
  case Nil
  then show ?case by simp
next
  case (Cons kd m)
  obtain j d where kd: "kd = (j, d)" by force
  obtain y ys S1 S2 where *: "xs = (j, y) # ys" "stored s y d S1" "stored_entries s ys m S2" "S1 \<inter> S2 = {}" "S = S1 \<union> S2"
    using Cons.prems(1) kd by auto
  have ih: "snd (map_insert k x ys) = snd (map_insert k c m)
    \<and> (if snd (map_insert k c m) then stored_entries s (fst (map_insert k x ys)) (fst (map_insert k c m)) (S2 \<union> T)
       else fst (map_insert k x ys) = ys \<and> fst (map_insert k c m) = m)"
    by (rule Cons.IH) (use * Cons.prems in auto)
  have "stored_entries s ((k, x) # (j, y) # ys) ((k, c) # (j, d) # m) (S \<union> T)"
    using * Cons.prems(2,3) by (simp, intro exI conjI) (assumption | blast)+
  moreover have "stored_entries s ((j, y) # zs) ((j, d) # n) (S \<union> T)"
    if "stored_entries s zs n (S2 \<union> T)" for zs n
    using that * Cons.prems(2,3) by (simp, intro exI [of _ S1] conjI exI [of _ "S2 \<union> T"]) auto
  ultimately show ?case using ih * kd by simp
qed

lemma insert_entry_run:
  assumes "stored_abstract s t (Chunk_map m) S" "stored s x c T" "T \<inter> S = {}" "store_ok s"
  shows "\<exists>s'. insert_entry t k x s = Inr (snd (map_insert k c m), s')
    \<and> (if snd (map_insert k c m)
       then stored_abstract s' t (Chunk_map (fst (map_insert k c m))) (S \<union> T) \<and> becomes s (S \<union> T) s' (S \<union> T)
       else s' = s)"
proof -
  obtain xs A where *: "cells s t = Some (Entries xs)" "stored_entries s xs m A" "t \<notin> A" "S = insert t A"
    using assms(1) by auto
  have ins: "snd (map_insert k x xs) = snd (map_insert k c m)
    \<and> (if snd (map_insert k c m) then stored_entries s (fst (map_insert k x xs)) (fst (map_insert k c m)) (A \<union> T)
       else fst (map_insert k x xs) = xs \<and> fst (map_insert k c m) = m)"
    by (rule entries_insert) (use * assms in auto)
  let ?s = "put_cell t (Entries (fst (map_insert k x xs))) s"
  have run: "insert_entry t k x s = Inr (snd (map_insert k c m), ?s)"
    using *(1) ins by (cases "map_insert k x xs") (simp add: insert_entry_def run_simps)
  show ?thesis
  proof (cases "snd (map_insert k c m)")
    case True
    have "stored_entries ?s (fst (map_insert k x xs)) (fst (map_insert k c m)) (A \<union> T)"
      by (rule entries_frame [of s]) (use ins True *(3,4) assms(3) in auto)
    moreover have "t < fresh s" using *(1) assms(4) by (metis not_le option.distinct(1) store_ok_def)
    then have "becomes s (S \<union> T) ?s (S \<union> T)" using becomes_put assms(4) *(4) by auto
    moreover have "t \<notin> A \<union> T" using *(3,4) assms(3) by auto
    ultimately show ?thesis using run True *(4) by (intro exI [of _ ?s]) auto
  next
    case False
    then have "?s = s" using ins *(1) put_cell_same by simp
    then show ?thesis using run False by auto
  qed
qed

lemma append_item_run:
  assumes "stored_abstract s t (Chunk_list l) S" "stored s x c T" "T \<inter> S = {}" "store_ok s"
  shows "\<exists>s'. append_item t x s = Inr ((), s') \<and> stored_abstract s' t (Chunk_list (l @ [c])) (S \<union> T)
    \<and> becomes s (S \<union> T) s' (S \<union> T)"
proof -
  obtain xs A where *: "cells s t = Some (Items xs)" "stored_items s xs l A" "t \<notin> A" "S = insert t A"
    using assms(1) by auto
  let ?s = "put_cell t (Items (xs @ [x])) s"
  have run: "append_item t x s = Inr ((), ?s)" using *(1) by (simp add: append_item_def run_simps)
  have "stored_items s (xs @ [x]) (l @ [c]) (A \<union> T)"
    unfolding stored_items_append [OF stored_items_length [OF *(2)]]
    using * assms by (intro exI [of _ A] exI [of _ T]) auto
  then have "stored_items ?s (xs @ [x]) (l @ [c]) (A \<union> T)"
    by (rule items_frame) (use *(3,4) assms(3) in auto)
  moreover have "t < fresh s" using *(1) assms(4) by (metis not_le option.distinct(1) store_ok_def)
  then have "becomes s (S \<union> T) ?s (S \<union> T)" using becomes_put assms(4) *(4) by auto
  moreover have "t \<notin> A \<union> T" using *(3,4) assms(3) by auto
  ultimately show ?thesis using run *(4) by (intro exI [of _ ?s]) auto
qed

text \<open>One round of the copy: a copy is made and becomes part of \<open>S\<close>.\<close>

lemma copy_one:
  assumes "copies cp c" "stored s i c U" "store_ok s" "\<forall>x \<in> S. x < fresh s"
  obtains a s' T where "cp i s = Inr (a, s')" "stored s' a c T" "T \<inter> S = {}" "becomes s S s' (S \<union> T)"
    "becomes s {} s' T"
proof -
  from assms(1-3) obtain a s' T where *: "cp i s = Inr (a, s')" "stored s' a c T" "becomes s {} s' T"
    unfolding copies_def by blast
  moreover have "T \<inter> S = {}" using *(3) assms(4) by (force simp: becomes_def)
  ultimately show ?thesis using that becomes_new [OF *(3) assms(4)] by blast
qed

lemma copy_entries_run:
  assumes "\<forall>c \<in> set (map snd m). copies cp c" "map_ok (done @ m)"
    and "stored_abstract s t (Chunk_map done) S" "stored_entries s xs m U" "U \<inter> S = {}" "store_ok s"
  shows "\<exists>s' S'. each (copy_entry cp t) xs s = Inr ((), s')
    \<and> stored_abstract s' t (Chunk_map (done @ m)) S' \<and> becomes s S s' S'"
  using assms
proof (induction m arbitrary: "done" s S xs U)
  case Nil
  then have "becomes s S s S" by (simp add: becomes_refl)
  with Nil show ?case by (intro exI [of _ s] exI [of _ S]) (simp add: run_simps)
next
  case (Cons kc m)
  obtain k c where kc: "kc = (k, c)" by force
  obtain x ys U1 U2 where *: "xs = (k, x) # ys" "stored s x c U1" "stored_entries s ys m U2" "U1 \<inter> U2 = {}" "U = U1 \<union> U2"
    using Cons.prems(4) kc by auto
  obtain a s1 T where 1: "cp x s = Inr (a, s1)" "stored s1 a c T" "T \<inter> S = {}" "becomes s S s1 (S \<union> T)" "becomes s {} s1 T"
    using copy_one [of cp c s x U1 S] Cons.prems(1,6) kc *(2) abstract_below [OF Cons.prems(3,6)] by auto
  have ok1: "store_ok s1" by (rule becomes_ok [OF 1(4)])
  have 2: "stored_abstract s1 t (Chunk_map done) S" "stored_entries s1 ys m U2" "U2 \<inter> (S \<union> T) = {}"
    using becomes_abstract [OF 1(5) Cons.prems(3) _ Cons.prems(6)] becomes_entries [OF 1(4) *(3) _ Cons.prems(6)]
      Cons.prems(5) *(5) by auto
  have app: "map_insert k c done = (done @ [(k, c)], True)"
    by (rule map_insert_append) (use Cons.prems(2) kc in \<open>auto simp: map_ok_def map_keys_def sorted_wrt_append\<close>)
  obtain s2 where 3: "insert_entry t k a s1 = Inr (True, s2)" "stored_abstract s2 t (Chunk_map (done @ [(k, c)])) (S \<union> T)"
    "becomes s1 (S \<union> T) s2 (S \<union> T)"
    using insert_entry_run [OF 2(1) 1(2,3) ok1, of k] app by auto
  have "stored_entries s2 ys m U2" using becomes_entries [OF 3(3) 2(2,3) ok1] by simp
  then obtain s' S' where 4: "each (copy_entry cp t) ys s2 = Inr ((), s')"
    "stored_abstract s' t (Chunk_map ((done @ [(k, c)]) @ m)) S'" "becomes s2 (S \<union> T) s' S'"
    using Cons.IH [OF _ _ 3(2) _ 2(3) becomes_ok [OF 3(3)], of ys] Cons.prems(1,2) kc by auto
  have "becomes s S s' S'"
    by (rule becomes_trans [OF becomes_trans [OF 1(4) 3(3)] 4(3)]) (rule Cons.prems(6))+
  moreover have "copy_entry cp t (k, x) s = Inr ((), s2)"
    using 1(1) 3(1) by (simp add: copy_entry_def run_simps)
  ultimately show ?case using 4 *(1) kc
    by (intro exI [of _ s'] exI [of _ S']) (simp add: run_simps)
qed

lemma copy_items_run:
  assumes "\<forall>c \<in> set l. copies cp c"
    and "stored_abstract s t (Chunk_list done) S" "stored_items s xs l U" "U \<inter> S = {}" "store_ok s"
  shows "\<exists>s' S'. each (\<lambda>c. bindM (cp c) (append_item t)) xs s = Inr ((), s')
    \<and> stored_abstract s' t (Chunk_list (done @ l)) S' \<and> becomes s S s' S'"
  using assms
proof (induction l arbitrary: "done" s S xs U)
  case Nil
  then have "becomes s S s S" by (simp add: becomes_refl)
  with Nil show ?case by (intro exI [of _ s] exI [of _ S]) (simp add: run_simps)
next
  case (Cons c l)
  obtain x ys U1 U2 where *: "xs = x # ys" "stored s x c U1" "stored_items s ys l U2" "U1 \<inter> U2 = {}" "U = U1 \<union> U2"
    using Cons.prems(3) by auto
  obtain a s1 T where 1: "cp x s = Inr (a, s1)" "stored s1 a c T" "T \<inter> S = {}" "becomes s S s1 (S \<union> T)" "becomes s {} s1 T"
    using copy_one [of cp c s x U1 S] Cons.prems(1,5) *(2) abstract_below [OF Cons.prems(2,5)] by auto
  have ok1: "store_ok s1" by (rule becomes_ok [OF 1(4)])
  have 2: "stored_abstract s1 t (Chunk_list done) S" "stored_items s1 ys l U2" "U2 \<inter> (S \<union> T) = {}"
    using becomes_abstract [OF 1(5) Cons.prems(2) _ Cons.prems(5)] becomes_items [OF 1(4) *(3) _ Cons.prems(5)]
      Cons.prems(4) *(5) by auto
  obtain s2 where 3: "append_item t a s1 = Inr ((), s2)" "stored_abstract s2 t (Chunk_list (done @ [c])) (S \<union> T)"
    "becomes s1 (S \<union> T) s2 (S \<union> T)"
    using append_item_run [OF 2(1) 1(2,3) ok1] by auto
  have "stored_items s2 ys l U2" using becomes_items [OF 3(3) 2(2,3) ok1] by simp
  then obtain s' S' where 4: "each (\<lambda>c. bindM (cp c) (append_item t)) ys s2 = Inr ((), s')"
    "stored_abstract s' t (Chunk_list ((done @ [c]) @ l)) S'" "becomes s2 (S \<union> T) s' S'"
    using Cons.IH [OF _ 3(2) _ 2(3) becomes_ok [OF 3(3)], of ys] Cons.prems(1) by auto
  have "becomes s S s' S'"
    by (rule becomes_trans [OF becomes_trans [OF 1(4) 3(3)] 4(3)]) (rule Cons.prems(5))+
  with 4 show ?case using 1(1) 3(1) *(1) by (auto simp: run_simps)
qed

lemma copy_abstract_run:
  assumes "\<forall>c \<in> set (parts x). copies cp c" "\<And>m. x = Chunk_map m \<Longrightarrow> map_ok m"
    and "stored_abstract s b x S" "store_ok s"
  shows "\<exists>t s' T. copy_abstract cp b s = Inr (t, s') \<and> stored_abstract s' t x T \<and> becomes s {} s' T"
proof -
  have all: "becomes s {} s' T" if "becomes (alloc blk s) {fresh s} s' T" for s' blk T
    using becomes_trans [OF becomes_alloc [OF assms(4)] that assms(4)] .
  have ok: "store_ok (alloc blk s)" for blk using becomes_alloc [OF assms(4)] by (rule becomes_ok)
  have S: "fresh s \<notin> S" using abstract_below [OF assms(3,4)] by blast
  show ?thesis
  proof (cases x)
    case (Chunk_string v)
    then have "cells s b = Some (Str v)" using assms(3) by simp
    then have "copy_abstract cp b s = Inr (fresh s, alloc (Str v) s)" by (simp add: copy_abstract_def run_simps)
    moreover have "stored_abstract (alloc (Str v) s) (fresh s) x {fresh s}" using Chunk_string by simp
    ultimately show ?thesis using becomes_alloc [OF assms(4)] by blast
  next
    case (Chunk_map m)
    let ?s = "alloc (Entries []) s"
    obtain xs U where *: "cells s b = Some (Entries xs)" "stored_entries s xs m U" "S = insert b U"
      using assms(3) Chunk_map by auto
    have "stored_abstract ?s (fresh s) (Chunk_map []) {fresh s}" by simp
    moreover have "stored_entries ?s xs m U" by (rule entries_frame [OF *(2)]) (use S *(3) in auto)
    ultimately obtain s' T where
      "each (copy_entry cp (fresh s)) xs ?s = Inr ((), s')"
      "stored_abstract s' (fresh s) (Chunk_map m) T" "becomes ?s {fresh s} s' T"
      using copy_entries_run [of m cp "[]" ?s "fresh s" "{fresh s}" xs U] assms(1,2) Chunk_map S *(3) ok by auto
    moreover from this(1) *(1) have "copy_abstract cp b s = Inr (fresh s, s')"
      by (simp add: copy_abstract_def run_simps)
    ultimately show ?thesis using all Chunk_map by blast
  next
    case (Chunk_list l)
    let ?s = "alloc (Items []) s"
    obtain xs U where *: "cells s b = Some (Items xs)" "stored_items s xs l U" "S = insert b U"
      using assms(3) Chunk_list by auto
    have "stored_abstract ?s (fresh s) (Chunk_list []) {fresh s}" by simp
    moreover have "stored_items ?s xs l U" by (rule items_frame [OF *(2)]) (use S *(3) in auto)
    ultimately obtain s' T where
      "each (\<lambda>c. bindM (cp c) (append_item (fresh s))) xs ?s = Inr ((), s')"
      "stored_abstract s' (fresh s) (Chunk_list l) T" "becomes ?s {fresh s} s' T"
      using copy_items_run [of l cp ?s "fresh s" "[]" "{fresh s}" xs U] assms(1) Chunk_list S *(3) ok by auto
    moreover from this(1) *(1) have "copy_abstract cp b s = Inr (fresh s, s')"
      by (simp add: copy_abstract_def run_simps)
    ultimately show ?thesis using all Chunk_list by blast
  qed
qed

text \<open>Giving an empty object its content.\<close>

lemma attach:
  assumes "cells s a = Some blk" "stored_abstract s t x T" "a \<notin> T" "store_ok s"
  shows "stored (put_cell a (Obj p off (Some t)) s) a (Chunkdat p off (Some x)) (insert a T)
    \<and> becomes s (insert a T) (put_cell a (Obj p off (Some t)) s) (insert a T)"
proof -
  have "stored_abstract (put_cell a (Obj p off (Some t)) s) t x T"
    by (rule abstract_frame [OF assms(2)]) (use assms(3) in auto)
  moreover have "a < fresh s" using assms(1,4) by (metis not_le option.distinct(1) store_ok_def)
  ultimately show ?thesis using assms(3,4) by (auto simp: stored_some intro: becomes_put)
qed

lemma clear_becomes:
  assumes "stored s a c S" "store_ok s"
  shows "becomes s S (put_cell a (Obj p off None) (drop_blocks (S - {a}) s)) {a}"
proof -
  have "a \<in> S" "a < fresh s" using stored_obj [OF assms(1)] stored_below [OF assms] by auto
  then have "becomes s S (drop_blocks (S - {a}) s) {a}"
    using becomes_drop [OF assms(2), of "S - {a}" S] by (simp add: Diff_Diff_Int Int_absorb1)
  moreover from becomes_ok [OF this] \<open>a < fresh s\<close>
  have "becomes (drop_blocks (S - {a}) s) {a} (put_cell a (Obj p off None) (drop_blocks (S - {a}) s)) {a}"
    by (intro becomes_put) auto
  ultimately show ?thesis using becomes_trans assms(2) by blast
qed

lemma wf_parts: "wf_chunk (Chunkdat p off (Some x)) \<Longrightarrow> (\<forall>c \<in> set (parts x). wf_chunk c) \<and> (\<forall>m. x = Chunk_map m \<longrightarrow> map_ok m)"
  by (cases x) (auto simp: wf_values_iff wf_items_iff)

lemma set_with_run:
  assumes del: "\<forall>e \<in> set (children d). deletes del e" and cp: "\<forall>e \<in> set (children c). copies cp e"
    and wf: "wf_chunk c" and c: "stored s i c T" and d: "stored s a d S" and sep: "T \<inter> S = {}" and ok: "store_ok s"
  shows "\<exists>s' S'. set_with del cp i a s = Inr ((), s') \<and> stored s' a c S' \<and> becomes s S s' S'"
proof -
  define s1 where "s1 = put_cell a (Obj (m_parent d) (m_offset d) None) (drop_blocks (S - {a}) s)"
  have clear: "clear_with del a s = Inr ((), s1)" unfolding s1_def by (rule clear_with_run [OF del d])
  have s1: "becomes s S s1 {a}" unfolding s1_def by (rule clear_becomes [OF d ok])
  have ok1: "store_ok s1" and c1: "stored s1 i c T" "a \<notin> T"
    using becomes_ok [OF s1] becomes_stored [OF s1 c sep ok] by auto
  define s2 where "s2 = put_cell a (Obj (m_parent c) (m_offset c) None) s1"
  have a: "cells s1 a = Some (Obj (m_parent d) (m_offset d) None)" by (simp add: s1_def)
  have below: "a < fresh s1" using a ok1 by (metis not_le option.distinct(1) store_ok_def)
  have s2: "becomes s1 {a} s2 {a}" unfolding s2_def by (rule becomes_put [OF ok1]) (use below in auto)
  have ok2: "store_ok s2" and c2: "stored s2 i c T"
    using becomes_ok [OF s2] becomes_stored [OF s2 c1(1) _ ok1] c1(2) by auto
  from becomes_trans [OF s1 s2 ok] have s02: "becomes s S s2 {a}" .
  from c1(1) show ?thesis
  proof (cases rule: stored_cases)
    case (none p off)
    then have "set_with del cp i a s = Inr ((), s2)"
      using clear a by (simp add: set_with_def run_simps s2_def)
    moreover have "stored s2 a c {a}" using none by (simp add: s2_def)
    ultimately show ?thesis using s02 by blast
  next
    case (some p off x b U)
    have x: "stored_abstract s2 b x U"
      by (rule abstract_frame [OF some(3)]) (use some(5) c1(2) in \<open>auto simp: s2_def\<close>)
    obtain t s3 V where 3: "copy_abstract cp b s2 = Inr (t, s3)" "stored_abstract s3 t x V" "becomes s2 {} s3 V"
      using copy_abstract_run [OF _ _ x ok2, of cp] cp wf_parts [of p off x] wf some(1) by auto
    have V: "a \<notin> V" "becomes s2 {a} s3 (insert a V)" "cells s3 a = Some (Obj p off None)"
      using becomes_new [OF 3(3), of "{a}"] becomes_same [OF 3(3), of a] below some(1)
      by (auto simp: s2_def)
    let ?s = "put_cell a (Obj p off (Some t)) s3"
    have "set_with del cp i a s = Inr ((), ?s)"
      using clear a some(1,2) 3(1) V(3) by (simp add: set_with_def run_simps s2_def)
    moreover have "stored ?s a c (insert a V)" "becomes s3 (insert a V) ?s (insert a V)"
      using attach [OF V(3) 3(2) V(1) becomes_ok [OF 3(3)]] some(1) by auto
    moreover have "becomes s S ?s (insert a V)"
      by (rule becomes_trans [OF becomes_trans [OF s02 V(2)] calculation(3)]) (rule ok)+
    ultimately show ?thesis by blast
  qed
qed

lemma wf_children: "wf_chunk c \<Longrightarrow> d \<in> set (children c) \<Longrightarrow> wf_chunk d"
  using wf_parts by (cases c) (auto split: option.splits)

lemma pcopy_run: "wf_chunk c \<Longrightarrow> depth c \<le> n \<Longrightarrow> copies (pcopy n) c"
proof (induction n arbitrary: c)
  case 0
  then show ?case by (cases c) simp
next
  case (Suc n)
  have ch: "\<forall>d \<in> set (children c). copies (pcopy n) d"
    using Suc depth_children wf_children by fastforce
  show ?case unfolding copies_def
  proof (intro allI impI)
    fix s i S assume c: "stored s i c S" and ok: "store_ok s"
    let ?s = "alloc (Obj None 0 None) s"
    have 1: "becomes s {} ?s {fresh s}" by (rule becomes_alloc [OF ok])
    have "stored ?s i c S" by (rule conjunct1, rule becomes_stored [OF 1 c _ ok]) simp
    moreover have "S \<inter> {fresh s} = {}" using stored_below [OF c ok] by auto
    moreover have "stored ?s (fresh s) new_chunkdat {fresh s}" by (simp add: new_chunkdat_def)
    ultimately obtain s' T where 2: "set_with (delete_obj n) (pcopy n) i (fresh s) ?s = Inr ((), s')"
      "stored s' (fresh s) c T" "becomes ?s {fresh s} s' T"
      using set_with_run [of new_chunkdat "delete_obj n" c "pcopy n" ?s i S "fresh s" "{fresh s}"]
        ch Suc.prems(1) becomes_ok [OF 1] by (auto simp: new_chunkdat_def)
    have "pcopy (Suc n) i s = Inr (fresh s, s')" using 2(1) by (simp add: run_simps)
    moreover have "becomes s {} s' T" by (rule becomes_trans [OF 1 2(3) ok])
    ultimately show "\<exists>a s' T. pcopy (Suc n) i s = Inr (a, s') \<and> stored s' a c T \<and> becomes s {} s' T"
      using 2(2) by blast
  qed
qed

lemma set_obj_run:
  assumes "depth c \<le> n" "depth d \<le> n" "wf_chunk c" "stored s i c T" "stored s a d S" "T \<inter> S = {}" "store_ok s"
  shows "\<exists>s' S'. set_obj n i a s = Inr ((), s') \<and> stored s' a c S' \<and> becomes s S s' S'"
  unfolding set_obj_def
proof (rule set_with_run [OF _ _ assms(3-7)])
  show "\<forall>e \<in> set (children d). deletes (delete_obj n) e"
    using assms(2) depth_children by (meson delete_obj_run less_imp_le order_trans)
  show "\<forall>e \<in> set (children c). copies (pcopy n) e"
    using assms(1,3) depth_children wf_children by (meson pcopy_run less_imp_le order_trans)
qed

end
