(* ===== verification/Chunk_Refine.thy ===== *)
theory Chunk_Refine
  imports Chunk_Heap_Laws
begin

text \<open>
  The operations on stored objects refine the operations on trees (Chunk_Ops), when the
  argument does not share a block with the object. \<open>refines act s a S out\<close> says that \<open>act\<close>,
  run in \<open>s\<close>, leaves with the exception of \<open>out\<close>, leaves the tree of \<open>out\<close> at \<open>a\<close>, and frees what
  it does not keep.
\<close>

declare stored_abstract_simps(2,3) [simp del] stored_simps(3,4) [simp del]

definition refines :: "bool \<Rightarrow> exn option mem \<Rightarrow> store \<Rightarrow> addr \<Rightarrow> addr set \<Rightarrow> outcome \<Rightarrow> bool" where
  "refines keep act s a S out \<longleftrightarrow>
     (\<exists>s' S'. act s = Inr (fst out, s') \<and> stored s' a (snd out) S' \<and> becomes s S s' S' \<and>
        (keep \<longrightarrow> cells s' a = cells s a))"

lemma refinesI:
  "act s = Inr (e, s') \<Longrightarrow> stored s' a c S' \<Longrightarrow> becomes s S s' S' \<Longrightarrow> (keep \<Longrightarrow> cells s' a = cells s a) \<Longrightarrow>
     refines keep act s a S (e, c)"
  by (auto simp: refines_def)

section \<open>Reading\<close>

definition loads :: "(addr \<Rightarrow> chunkdat mem) \<Rightarrow> chunkdat \<Rightarrow> bool" where
  "loads ld c \<longleftrightarrow> (\<forall>s a S. stored s a c S \<longrightarrow> ld a s = Inr (c, s))"

lemma loadsD: "loads ld c \<Longrightarrow> stored s a c S \<Longrightarrow> ld a s = Inr (c, s)"
  by (auto simp: loads_def)

lemma collect_run: "\<forall>c \<in> set l. loads ld c \<Longrightarrow> stored_items s xs l S \<Longrightarrow> collect ld xs s = Inr (l, s)"
proof (induction l arbitrary: xs S)
  case (Cons c l)
  then obtain x ys S1 S2 where "xs = x # ys" "stored s x c S1" "stored_items s ys l S2" by auto
  with Cons loadsD [of ld c s x S1] show ?case by (simp add: run_simps)
qed (simp add: run_simps)

lemma load_run: "depth c \<le> n \<Longrightarrow> loads (load n) c"
proof (induction n arbitrary: c)
  case 0
  then show ?case by (cases c) simp
next
  case (Suc n)
  have ch: "\<forall>d \<in> set (children c). loads (load n) d" using Suc depth_children by fastforce
  show ?case unfolding loads_def
  proof (intro allI impI)
    fix s a S assume "stored s a c S"
    then show "load (Suc n) a s = Inr (c, s)"
    proof (cases rule: stored_cases)
      case (some p off x b T)
      show ?thesis
      proof (cases x)
        case (Chunk_map m)
        then obtain xs U where *: "cells s b = Some (Entries xs)" "map fst xs = map fst m"
          "stored_items s (map snd xs) (map snd m) U" using some(3) by (auto simp: entries_items stored_abstract_simps)
        have "collect (load n) (map snd xs) s = Inr (map snd m, s)"
          by (rule collect_run [OF _ *(3)]) (use ch some(1) Chunk_map in auto)
        then show ?thesis using * some Chunk_map by (simp add: run_simps zip_map_fst_snd)
      next
        case (Chunk_list l)
        then obtain xs U where *: "cells s b = Some (Items xs)" "stored_items s xs l U" using some(3) by (auto simp: stored_abstract_simps)
        have "collect (load n) xs s = Inr (l, s)"
          by (rule collect_run [OF _ *(2)]) (use ch some(1) Chunk_list in auto)
        then show ?thesis using * some Chunk_list by (simp add: run_simps)
      qed (use some in \<open>simp add: run_simps\<close>)
    qed (simp add: run_simps)
  qed
qed

lemma strval_obj_run: "depth c \<le> n \<Longrightarrow> stored s a c S \<Longrightarrow> strval_obj n al ws a s = Inr (strval al ws c, s)"
  using loadsD [OF load_run] by (simp add: strval_obj_def run_simps)

lemma own_error_run: "depth c \<le> n \<Longrightarrow> stored s a c S \<Longrightarrow> own_error_obj n msg a s = Inr (Some (own_error msg c), s)"
  using strval_obj_run [of c n s a S] by (simp add: own_error_obj_def own_error_def run_simps)

section \<open>Adding\<close>

lemma stored_blocks:
  "stored_abstract s b (Chunk_map m) U \<Longrightarrow> \<exists>xs. cells s b = Some (Entries xs)"
  "stored_abstract s b (Chunk_list l) U \<Longrightarrow> \<exists>xs. cells s b = Some (Items xs)"
  by (auto simp: stored_abstract_simps)

lemma stored_head: "stored s a c S \<Longrightarrow> store_ok s \<Longrightarrow> a < fresh s"
  using stored_obj stored_below by blast

text \<open>A change of the content of an object is a change of the object.\<close>

lemma regrow:
  assumes "cells s a = Some (Obj p off (Some b))" "a \<notin> U" "store_ok s" "becomes s U s' U'" "stored_abstract s' b x U'"
  shows "stored s' a (Chunkdat p off (Some x)) (insert a U')" "becomes s (insert a U) s' (insert a U')"
proof -
  have a: "a < fresh s" using assms(1,3) by (metis not_le option.distinct(1) store_ok_def)
  from becomes_same [OF assms(4) assms(2) a] assms(1,5)
  show "stored s' a (Chunkdat p off (Some x)) (insert a U')" by (auto simp: stored_some)
  show "becomes s (insert a U) s' (insert a U')"
    using becomes_frame [OF assms(4), of "{a}"] assms(2) a by simp
qed

lemma insert_copy_run:
  assumes "stored_abstract s b (Chunk_map m) U" "stored s v d T" "store_ok s" "wf_chunk d" "depth d \<le> n"
  shows "\<exists>chk s1 s2 V. pcopy n v s = Inr (chk, s1) \<and> insert_entry b k chk s1 = Inr (snd (map_insert k d m), s2)
    \<and> (if snd (map_insert k d m)
       then stored_abstract s2 b (Chunk_map (fst (map_insert k d m))) V \<and> becomes s U s2 V
       else stored s2 chk d V \<and> becomes s {} s2 V)"
proof -
  obtain chk s1 V where 1: "pcopy n v s = Inr (chk, s1)" "stored s1 chk d V" "V \<inter> U = {}"
    "becomes s U s1 (U \<union> V)" "becomes s {} s1 V"
    using copy_one [OF pcopy_run [OF assms(4,5)] assms(2,3), of U] abstract_below [OF assms(1,3)] by metis
  have b: "stored_abstract s1 b (Chunk_map m) U" using becomes_abstract [OF 1(5) assms(1) _ assms(3)] by simp
  obtain s2 where 2: "insert_entry b k chk s1 = Inr (snd (map_insert k d m), s2)"
    "if snd (map_insert k d m)
     then stored_abstract s2 b (Chunk_map (fst (map_insert k d m))) (U \<union> V) \<and> becomes s1 (U \<union> V) s2 (U \<union> V)
     else s2 = s1"
    using insert_entry_run [OF b 1(2,3) becomes_ok [OF 1(4)], of k] by blast
  show ?thesis
  proof (cases "snd (map_insert k d m)")
    case True
    then have "becomes s U s2 (U \<union> V)" using becomes_trans [OF 1(4) _ assms(3)] 2(2) by simp
    then show ?thesis using True 1(1) 2
      by (intro exI [of _ chk] exI [of _ s1] exI [of _ s2] exI [of _ "U \<union> V"]) simp
  next
    case False
    then show ?thesis using 1 2
      by (intro exI [of _ chk] exI [of _ s1] exI [of _ s2] exI [of _ V]) simp
  qed
qed

lemma append_copy_run:
  assumes "stored_abstract s b (Chunk_list l) U" "stored s v d T" "store_ok s" "wf_chunk d" "depth d \<le> n"
  shows "\<exists>chk s1 s2 V. pcopy n v s = Inr (chk, s1) \<and> append_item b chk s1 = Inr ((), s2)
    \<and> stored_abstract s2 b (Chunk_list (l @ [d])) V \<and> becomes s U s2 V"
proof -
  obtain chk s1 V where 1: "pcopy n v s = Inr (chk, s1)" "stored s1 chk d V" "V \<inter> U = {}"
    "becomes s U s1 (U \<union> V)" "becomes s {} s1 V"
    using copy_one [OF pcopy_run [OF assms(4,5)] assms(2,3), of U] abstract_below [OF assms(1,3)] by metis
  have b: "stored_abstract s1 b (Chunk_list l) U" using becomes_abstract [OF 1(5) assms(1) _ assms(3)] by simp
  obtain s2 where 2: "append_item b chk s1 = Inr ((), s2)" "stored_abstract s2 b (Chunk_list (l @ [d])) (U \<union> V)"
    "becomes s1 (U \<union> V) s2 (U \<union> V)"
    using append_item_run [OF b 1(2,3) becomes_ok [OF 1(4)]] by blast
  then show ?thesis using 1(1) becomes_trans [OF 1(4) 2(3) assms(3)] by blast
qed

text \<open>An empty object that is given a new map or list.\<close>

lemma fresh_content:
  assumes "cells s a = Some (Obj p off None)" "store_ok s" "stored_abstract (alloc blk s) (fresh s) x {fresh s}"
  defines "s' \<equiv> put_cell a (Obj p off (Some (fresh s))) (alloc blk s)"
  shows "stored_abstract s' (fresh s) x {fresh s}" "becomes s {a} s' {a, fresh s}"
    "stored s' a (Chunkdat p off (Some x)) {a, fresh s}" "a \<noteq> fresh s"
proof -
  have a: "a < fresh s" using assms(1,2) by (metis not_le option.distinct(1) store_ok_def)
  then show "a \<noteq> fresh s" by simp
  have al: "becomes s {a} (alloc blk s) {a, fresh s}"
    using becomes_new [OF becomes_alloc [OF assms(2)], of "{a}"] a by (simp add: insert_commute)
  have *: "stored s' a (Chunkdat p off (Some x)) {a, fresh s} \<and> becomes (alloc blk s) {a, fresh s} s' {a, fresh s}"
    unfolding s'_def using attach [OF _ assms(3), of a] assms(1) a becomes_ok [OF al] by simp
  then show "stored s' a (Chunkdat p off (Some x)) {a, fresh s}" by simp
  show "becomes s {a} s' {a, fresh s}" using becomes_trans [OF al conjunct2 [OF *] assms(2)] .
  show "stored_abstract s' (fresh s) x {fresh s}"
    unfolding s'_def by (rule abstract_frame [OF assms(3)]) (use a in auto)
qed

lemma first_content:
  assumes "cells s a = Some (Obj p off None)" "store_ok s" "stored_abstract (alloc blk s) (fresh s) x {fresh s}"
    and "becomes (put_cell a (Obj p off (Some (fresh s))) (alloc blk s)) {fresh s} s2 V"
    and "stored_abstract s2 (fresh s) y V"
  shows "stored s2 a (Chunkdat p off (Some y)) (insert a V)" "becomes s {a} s2 (insert a V)"
proof -
  let ?s = "put_cell a (Obj p off (Some (fresh s))) (alloc blk s)"
  note new = fresh_content [OF assms(1-3)]
  have "cells ?s a = Some (Obj p off (Some (fresh s)))" by simp
  note grown = regrow [OF this _ becomes_ok [OF new(2)] assms(4,5)]
  show "stored s2 a (Chunkdat p off (Some y)) (insert a V)" by (rule grown(1)) (use new(4) in simp)
  show "becomes s {a} s2 (insert a V)" using becomes_trans [OF new(2) grown(2) assms(2)] new(4) by simp
qed

text \<open>A key that is added to an empty object, that is new to a map, and that a map has already.\<close>

lemma addToMap_first:
  assumes "cells s a = Some (Obj p off None)" "stored s v d T" "a \<notin> T" "store_ok s" "wf_chunk d" "depth d \<le> n"
  shows "refines False (addToMap_obj n k v a) s a {a} (None, Chunkdat p off (Some (Chunk_map [(k, d)])))"
proof -
  let ?s = "put_cell a (Obj p off (Some (fresh s))) (alloc (Entries []) s)"
  have x: "stored_abstract (alloc (Entries []) s) (fresh s) (Chunk_map []) {fresh s}" by (simp add: stored_abstract_simps)
  note new = fresh_content [OF assms(1,4) x]
  have v: "stored ?s v d T" using becomes_stored [OF new(2) assms(2) _ assms(4)] assms(3) by simp
  obtain chk s1 s2 V where *: "pcopy n v ?s = Inr (chk, s1)" "insert_entry (fresh s) k chk s1 = Inr (True, s2)"
    "stored_abstract s2 (fresh s) (Chunk_map [(k, d)]) V" "becomes ?s {fresh s} s2 V"
    using insert_copy_run [OF new(1) v becomes_ok [OF new(2)] assms(5,6), of k] by auto
  have "addToMap_obj n k v a s = Inr (None, s2)"
    using assms(1) new(4) *(1,2) by (simp add: addToMap_obj_def run_simps)
  from refinesI [where act = "addToMap_obj n k v a" and keep = False, OF this first_content [OF assms(1,4) x *(4,3)]]
  show ?thesis by simp
qed

lemma addToMap_new_key:
  assumes "cells s a = Some (Obj p off (Some b))" "stored_abstract s b (Chunk_map m) U" "a \<notin> U"
    and "stored s v d T" "store_ok s" "wf_chunk d" "depth d \<le> n" "snd (map_insert k d m)"
  shows "refines True (addToMap_obj n k v a) s a (insert a U)
    (None, Chunkdat p off (Some (Chunk_map (fst (map_insert k d m)))))"
proof -
  obtain xs where xs: "cells s b = Some (Entries xs)" using assms(2) by (auto simp: stored_abstract_simps)
  obtain chk s1 s2 V where *: "pcopy n v s = Inr (chk, s1)" "insert_entry b k chk s1 = Inr (True, s2)"
    "stored_abstract s2 b (Chunk_map (fst (map_insert k d m))) V" "becomes s U s2 V"
    using insert_copy_run [OF assms(2,4-7), of k] assms(8) by auto
  have "addToMap_obj n k v a s = Inr (None, s2)"
    using assms(1) xs *(1,2) by (simp add: addToMap_obj_def run_simps)
  from refinesI [where act = "addToMap_obj n k v a" and keep = True, OF this regrow [OF assms(1,3,5) *(4,3)]]
  show ?thesis
    using becomes_same [OF *(4) assms(3)] assms(1,5) by (metis not_le option.distinct(1) store_ok_def)
qed

lemma addToMap_old_key:
  assumes "stored s a c S" "cells s a = Some (Obj p off (Some b))" "stored_abstract s b (Chunk_map m) U"
    and "stored s v d T" "store_ok s" "wf_chunk d" "depth d \<le> n" "depth c \<le> n" "\<not> snd (map_insert k d m)"
  shows "refines True (addToMap_obj n k v a) s a S (Some (own_error (key_message ''Key '' k '' already present'') c), c)"
proof -
  obtain xs where xs: "cells s b = Some (Entries xs)" using assms(3) by (auto simp: stored_abstract_simps)
  obtain chk s1 s2 V where *: "pcopy n v s = Inr (chk, s1)" "insert_entry b k chk s1 = Inr (snd (map_insert k d m), s2)"
    "stored s2 chk d V" "becomes s {} s2 V"
    using insert_copy_run [OF assms(3-7), of k] assms(9) by auto
  let ?s = "drop_blocks V s2"
  have del: "delete_obj n chk s2 = Inr ((), ?s)"
    using delete_obj_run [OF assms(7)] *(3) by (simp add: deletes_def)
  have s: "becomes s {} ?s {}"
    using becomes_trans [OF *(4) _ assms(5)] becomes_drop [OF becomes_ok [OF *(4)], of V V] by simp
  have c: "stored ?s a c S" using becomes_stored [OF s assms(1) _ assms(5)] by simp
  have "addToMap_obj n k v a s = Inr (Some (own_error (key_message ''Key '' k '' already present'') c), ?s)"
    using assms(2,9) xs *(1,2) del own_error_run [OF assms(8) c] by (simp add: addToMap_obj_def run_simps)
  moreover have "becomes s S ?s S" using becomes_new [OF s] stored_below [OF assms(1,5)] by auto
  moreover have "cells ?s a = cells s a" using becomes_same [OF s] stored_head [OF assms(1,5)] by blast
  ultimately show ?thesis using c by (auto intro: refinesI)
qed

text \<open>The argument may be a part of the object, or the object itself when it is not empty.\<close>

lemma addToMap_refines_inside:
  assumes "stored s a c S" "stored s v d T" "m_achunk c = None \<Longrightarrow> a \<notin> T" "store_ok s"
    and "wf_chunk c" "wf_chunk d" "depth c \<le> n" "depth d \<le> n"
  shows "refines (m_achunk c \<noteq> None) (addToMap_obj n k v a) s a S (addToMap (k, d) c)"
  using assms(1)
proof (cases rule: stored_cases)
  case (none p off)
  then show ?thesis using addToMap_first [OF none(2) assms(2) assms(3) assms(4,6,8), of k] copy_chunk_id [OF assms(6)]
    by (simp add: addToMap_none)
next
  case (some p off x b U)
  have err: ?thesis if "addToMap_obj n k v a s = own_error_obj n ''Cannot add keys to non-map chunks'' a s"
    "chunk_type c \<noteq> MapT"
    using that some(1) assms(1,4) own_error_run [OF assms(7,1)]
    by (cases x) (auto simp: addToMap_other intro: refinesI becomes_refl)
  show ?thesis
  proof (cases x)
    case (Chunk_map m)
    have ac: "m_achunk c = Some (Chunk_map m)" using some(1) Chunk_map by simp
    have ok: "map_ok m" using wf_chunk_achunk(1) [OF assms(5) ac] by simp
    note obj = some(3) [unfolded Chunk_map]
    show ?thesis
    proof (cases "map_find k m = None")
      case True
      then show ?thesis
        using addToMap_new_key [OF some(2) obj some(4) assms(2,4,6,8)] kv.insert_second [OF ok] some(1,5)
          addToMap_fresh [OF ac assms(5) True] copy_chunk_id [OF assms(6)] by simp
    next
      case False
      then show ?thesis
        using addToMap_old_key [OF assms(1) some(2) obj assms(2,4,6,8,7)] kv.insert_second [OF ok] some(1)
          addToMap_present [OF ac assms(5) False] by simp
    qed
  qed (intro err; use some in \<open>auto simp: addToMap_obj_def run_simps dest!: stored_blocks\<close>)+
qed

lemma addToMap_refines:
  assumes "stored s a c S" "stored s v d T" "T \<inter> S = {}" "store_ok s"
    and "wf_chunk c" "wf_chunk d" "depth c \<le> n" "depth d \<le> n"
  shows "refines (m_achunk c \<noteq> None) (addToMap_obj n k v a) s a S (addToMap (k, d) c)"
  using addToMap_refines_inside [OF assms(1,2) _ assms(4-8)] stored_obj [OF assms(1)] assms(3) by blast

lemma addToList_first:
  assumes "cells s a = Some (Obj p off None)" "stored s v d T" "a \<notin> T" "store_ok s" "wf_chunk d" "depth d \<le> n"
  shows "refines False (addToList_obj n v a) s a {a} (None, Chunkdat p off (Some (Chunk_list [d])))"
proof -
  let ?s = "put_cell a (Obj p off (Some (fresh s))) (alloc (Items []) s)"
  have x: "stored_abstract (alloc (Items []) s) (fresh s) (Chunk_list []) {fresh s}" by (simp add: stored_abstract_simps)
  note new = fresh_content [OF assms(1,4) x]
  have v: "stored ?s v d T" using becomes_stored [OF new(2) assms(2) _ assms(4)] assms(3) by simp
  obtain chk s1 s2 V where *: "pcopy n v ?s = Inr (chk, s1)" "append_item (fresh s) chk s1 = Inr ((), s2)"
    "stored_abstract s2 (fresh s) (Chunk_list [d]) V" "becomes ?s {fresh s} s2 V"
    using append_copy_run [OF new(1) v becomes_ok [OF new(2)] assms(5,6)] by auto
  have "addToList_obj n v a s = Inr (None, s2)"
    using assms(1) new(4) *(1,2) by (simp add: addToList_obj_def run_simps)
  from refinesI [where act = "addToList_obj n v a" and keep = False, OF this first_content [OF assms(1,4) x *(4,3)]]
  show ?thesis by simp
qed

lemma addToList_refines_inside:
  assumes "stored s a c S" "stored s v d T" "m_achunk c = None \<Longrightarrow> a \<notin> T" "store_ok s"
    and "wf_chunk d" "depth c \<le> n" "depth d \<le> n"
  shows "refines (m_achunk c \<noteq> None) (addToList_obj n v a) s a S (addToList d c)"
  using assms(1)
proof (cases rule: stored_cases)
  case (none p off)
  then show ?thesis using addToList_first [OF none(2) assms(2) assms(3) assms(4,5,7)] copy_chunk_id [OF assms(5)]
    by (simp add: addToList_def)
next
  case (some p off x b U)
  have err: ?thesis if "addToList_obj n v a s = own_error_obj n ''Cannot add elements to non-list chunks'' a s"
    "chunk_type c \<noteq> ListT"
    using that some(1) assms(1,4) own_error_run [OF assms(6,1)]
    by (cases x) (auto simp: addToList_def intro: refinesI becomes_refl)
  show ?thesis
  proof (cases x)
    case (Chunk_list l)
    note obj = some(3) [unfolded Chunk_list]
    obtain xs where xs: "cells s b = Some (Items xs)" using obj by (auto simp: stored_abstract_simps)
    obtain chk s1 s2 V where *: "pcopy n v s = Inr (chk, s1)" "append_item b chk s1 = Inr ((), s2)"
      "stored_abstract s2 b (Chunk_list (l @ [d])) V" "becomes s U s2 V"
      using append_copy_run [OF obj assms(2,4,5,7)] by metis
    have "addToList_obj n v a s = Inr (None, s2)"
      using some(2) xs *(1,2) by (simp add: addToList_obj_def run_simps)
    then show ?thesis
      using regrow [OF some(2,4) assms(4) *(4,3)] some(1,5) Chunk_list
        becomes_same [OF *(4) some(4)] stored_head [OF assms(1,4)] copy_chunk_id [OF assms(5)]
      by (auto simp: addToList_def intro: refinesI)
  qed (intro err; use some in \<open>auto simp: addToList_obj_def run_simps dest!: stored_blocks\<close>)+
qed

lemma addToList_refines:
  assumes "stored s a c S" "stored s v d T" "T \<inter> S = {}" "store_ok s"
    and "wf_chunk d" "depth c \<le> n" "depth d \<le> n"
  shows "refines (m_achunk c \<noteq> None) (addToList_obj n v a) s a S (addToList d c)"
  using addToList_refines_inside [OF assms(1,2) _ assms(4-7)] stored_obj [OF assms(1)] assms(3) by blast

section \<open>Loops over the argument\<close>

lemma find_skip: "\<forall>y \<in> set ys. \<not> P y \<Longrightarrow> find P (ys @ zs) = find P zs"
  by (induction ys) auto

lemma next_entry_step:
  assumes "map_ok (ys @ zs)"
  shows "next_entry (if ys = [] then None else Some (fst (last ys))) (ys @ zs) =
    (case zs of [] \<Rightarrow> None | z # _ \<Rightarrow> Some z)"
proof (cases ys rule: rev_cases)
  case Nil
  then show ?thesis by (cases zs) (auto simp: next_entry_def)
next
  case (snoc us u)
  have "\<forall>y \<in> set ys. \<not> fst u < fst y" "\<forall>z \<in> set zs. fst u < fst z"
    using assms unfolding snoc by (auto simp: map_ok_def sorted_wrt_append)
  then show ?thesis using snoc by (cases zs) (auto simp: next_entry_def find_skip)
qed

lemma map_ok_keys: "map fst xs = map fst m \<Longrightarrow> map_ok xs \<longleftrightarrow> map_ok m"
  by (simp add: map_ok_def)

lemma entries_at:
  "stored_entries s xs (ms @ (k, c) # ns) U \<Longrightarrow>
     \<exists>ys x zs V. xs = ys @ (k, x) # zs \<and> map fst ys = map fst ms \<and> stored s x c V \<and> V \<subseteq> U"
proof (induction ms arbitrary: xs U)
  case Nil
  then show ?case by (auto intro!: exI [of _ "[]"])
next
  case (Cons jd ms)
  obtain j d where jd: "jd = (j, d)" by force
  obtain y ys S1 S2 where *: "xs = (j, y) # ys" "stored_entries s ys (ms @ (k, c) # ns) S2" "U = S1 \<union> S2"
    using Cons.prems jd by auto
  obtain ws x zs V where "ys = ws @ (k, x) # zs" "map fst ws = map fst ms" "stored s x c V" "V \<subseteq> S2"
    using Cons.IH [OF *(2)] by blast
  with *(1,3) jd show ?case by (intro exI [of _ "(j, y) # ws"]) auto
qed

lemma items_at:
  "stored_items s xs (ls @ c # ns) U \<Longrightarrow>
     \<exists>ys x zs V. xs = ys @ x # zs \<and> length ys = length ls \<and> stored s x c V \<and> V \<subseteq> U"
proof (induction ls arbitrary: xs U)
  case Nil
  then show ?case by (auto intro!: exI [of _ "[]"])
next
  case (Cons d ls)
  obtain y ys S1 S2 where *: "xs = y # ys" "stored_items s ys (ls @ c # ns) S2" "U = S1 \<union> S2"
    using Cons.prems by auto
  obtain ws x zs V where "ys = ws @ x # zs" "length ws = length ls" "stored s x c V" "V \<subseteq> S2"
    using Cons.IH [OF *(2)] by blast
  with *(1,3) show ?case by (intro exI [of _ "y # ws"]) auto
qed

text \<open>
  The argument of a loop lies outside the object, so the loop sees it as it was; what the
  loop needs of the object is an invariant \<open>J\<close> of the tree, kept by every round.
\<close>

lemma each_entry_refines:
  assumes step: "\<And>k c x V s now S. (k, c) \<in> set m \<Longrightarrow> stored s x c V \<Longrightarrow> stored s a now S \<Longrightarrow> V \<inter> S = {} \<Longrightarrow>
      store_ok s \<Longrightarrow> J now \<Longrightarrow> cells s a = cell \<Longrightarrow>
      refines True (f k x) s a S (op (k, c) now) \<and> J (snd (op (k, c) now))"
    and "map_ok m" "m = ms @ ns" "stored_abstract s b (Chunk_map m) W" "W \<inter> S = {}"
    and "stored s a now S" "store_ok s" "J now" "cells s a = cell" "length ns < n"
  shows "refines True (each_entry n f b (if ms = [] then None else Some (fst (last ms)))) s a S (for_each op ns now)"
  using assms(3-)
proof (induction ns arbitrary: ms s now S n)
  case Nil
  obtain n' where n: "n = Suc n'" using Nil.prems(8) by (cases n) auto
  obtain xs U where xs: "cells s b = Some (Entries xs)" "map fst xs = map fst m"
    using Nil.prems(2) by (auto simp: stored_abstract_simps entries_items)
  have pos: "(if ms = [] then None else Some (fst (last ms))) = (if xs = [] then None else Some (fst (last xs)))"
    using xs(2) Nil.prems(1) by (cases ms rule: rev_cases; cases xs rule: rev_cases) auto
  have "next_entry (if xs = [] then None else Some (fst (last xs))) xs = None"
    using next_entry_step [of xs "[]"] map_ok_keys [OF xs(2)] assms(2) by simp
  then show ?case using Nil.prems(4,5) xs(1) n pos becomes_refl [OF Nil.prems(5)]
    by (auto simp: run_simps intro!: refinesI)
next
  case (Cons kc ns)
  obtain k c where kc: "kc = (k, c)" by force
  obtain n' where n: "n = Suc n'" using Cons.prems(8) by (cases n) auto
  obtain xs U where xs: "cells s b = Some (Entries xs)" "stored_entries s xs m U" "W = insert b U"
    using Cons.prems(2) by (auto simp: stored_abstract_simps)
  obtain ys x zs V where *: "xs = ys @ (k, x) # zs" "map fst ys = map fst ms" "stored s x c V" "V \<subseteq> U"
    using entries_at [of s xs ms k c ns U] xs(2) Cons.prems(1) kc by blast
  have keys: "map fst xs = map fst m" using xs(2) by (simp add: entries_items)
  have pos: "(if ms = [] then None else Some (fst (last ms))) = (if ys = [] then None else Some (fst (last ys)))"
    using *(2) by (cases ms rule: rev_cases; cases ys rule: rev_cases) auto
  have nxt: "next_entry (if ys = [] then None else Some (fst (last ys))) xs = Some (k, x)"
    using next_entry_step [of ys "(k, x) # zs"] map_ok_keys [OF keys] assms(2) *(1) by simp
  have sep: "V \<inter> S = {}" using *(4) xs(3) Cons.prems(3) by blast
  have "(k, c) \<in> set m" using Cons.prems(1) kc by simp
  from step [OF this *(3) Cons.prems(4) sep Cons.prems(5-7)]
  have st: "refines True (f k x) s a S (op (k, c) now)" and J: "J (snd (op (k, c) now))" by auto
  obtain s' S' where 1: "f k x s = Inr (fst (op (k, c) now), s')" "stored s' a (snd (op (k, c) now)) S'"
    "becomes s S s' S'" "cells s' a = cell"
    using st Cons.prems(7) by (auto simp: refines_def)
  have run: "each_entry n f b (if ms = [] then None else Some (fst (last ms))) s =
      (case fst (op (k, c) now) of Some e \<Rightarrow> Inr (Some e, s') | None \<Rightarrow> each_entry n' f b (Some k) s')"
    using n pos nxt xs(1) 1(1) by (simp add: run_simps split: option.splits)
  show ?case
  proof (cases "fst (op (k, c) now)")
    case (Some e)
    then have "for_each op (kc # ns) now = (Some e, snd (op (k, c) now))"
      using kc by (cases "op (k, c) now") simp
    then show ?thesis using run Some 1 Cons.prems(7) by (auto intro: refinesI)
  next
    case None
    then have loop: "for_each op (kc # ns) now = for_each op ns (snd (op (k, c) now))"
      using kc by (cases "op (k, c) now") simp
    have W: "stored_abstract s' b (Chunk_map m) W" "W \<inter> S' = {}"
      using becomes_abstract [OF 1(3) Cons.prems(2) Cons.prems(3) Cons.prems(5)] by auto
    have "refines True (each_entry n' f b (Some k)) s' a S' (for_each op ns (snd (op (k, c) now)))"
      using Cons.IH [of "ms @ [kc]" s' S' "snd (op (k, c) now)" n'] Cons.prems W 1 J becomes_ok [OF 1(3)] kc n
      by simp
    then show ?thesis
      using run None loop 1(3,4) becomes_trans [OF 1(3) _ Cons.prems(5)] Cons.prems(7)
      by (auto simp: refines_def)
  qed
qed

lemma each_item_refines:
  assumes step: "\<And>c x V s now S. c \<in> set l \<Longrightarrow> stored s x c V \<Longrightarrow> stored s a now S \<Longrightarrow> V \<inter> S = {} \<Longrightarrow>
      store_ok s \<Longrightarrow> J now \<Longrightarrow> refines True (f x) s a S (op c now) \<and> J (snd (op c now))"
    and "l = ls @ ns" "stored_abstract s b (Chunk_list l) W" "W \<inter> S = {}"
    and "stored s a now S" "store_ok s" "J now" "cells s b = Some (Items xs)" "length ls \<le> length xs"
  shows "refines True (each_item f b xs (drop (length ls) xs)) s a S (for_each op ns now)"
  using assms(2-)
proof (induction ns arbitrary: ls s now S)
  case Nil
  then have "length ls = length xs"
    by (auto simp: stored_abstract_simps dest: stored_items_length)
  then show ?case using Nil.prems becomes_refl by (auto simp: run_simps intro!: refinesI)
next
  case (Cons c ns)
  obtain U where xs: "stored_items s xs l U" "W = insert b U"
    using Cons.prems(2,7) by (auto simp: stored_abstract_simps)
  obtain ys x zs V where *: "xs = ys @ x # zs" "length ys = length ls" "stored s x c V" "V \<subseteq> U"
    using items_at [of s xs ls c ns U] xs(1) Cons.prems(1) by blast
  have sep: "V \<inter> S = {}" using *(4) xs(2) Cons.prems(3) by blast
  have "c \<in> set l" using Cons.prems(1) by simp
  from step [OF this *(3) Cons.prems(4) sep Cons.prems(5,6)]
  have st: "refines True (f x) s a S (op c now)" and J: "J (snd (op c now))" by auto
  obtain s' S' where 1: "f x s = Inr (fst (op c now), s')" "stored s' a (snd (op c now)) S'"
    "becomes s S s' S'" "cells s' a = cells s a"
    using st by (auto simp: refines_def)
  have run: "each_item f b xs (drop (length ls) xs) s =
      (case fst (op c now) of Some e \<Rightarrow> Inr (Some e, s') | None \<Rightarrow> each_item f b xs zs s')"
    using *(1) *(2) [symmetric] Cons.prems(7) 1(1) by (simp add: run_simps split: option.splits)
  show ?case
  proof (cases "fst (op c now)")
    case (Some e)
    then have "for_each op (c # ns) now = (Some e, snd (op c now))"
      by (cases "op c now") simp
    then show ?thesis using run Some 1 by (auto intro: refinesI)
  next
    case None
    then have loop: "for_each op (c # ns) now = for_each op ns (snd (op c now))"
      by (cases "op c now") simp
    have W: "stored_abstract s' b (Chunk_list l) W" "W \<inter> S' = {}"
      using becomes_abstract [OF 1(3) Cons.prems(2) Cons.prems(3) Cons.prems(5)] by auto
    have "b \<notin> S" using xs(2) Cons.prems(3) by blast
    then have b: "cells s' b = Some (Items xs)"
      using becomes_same [OF 1(3)] abstract_below [OF Cons.prems(2,5), of b] xs(2) Cons.prems(7) by auto
    have "zs = drop (length (ls @ [c])) xs" using *(1) *(2) [symmetric] by simp
    moreover have "length (ls @ [c]) \<le> length xs" using *(1) *(2) by simp
    ultimately have "refines True (each_item f b xs zs) s' a S' (for_each op ns (snd (op c now)))"
      using Cons.IH [of "ls @ [c]" s' S' "snd (op c now)"] Cons.prems(1) W 1(2) J becomes_ok [OF 1(3)] b
      by simp
    then show ?thesis
      using run None loop 1(3,4) becomes_trans [OF 1(3) _ Cons.prems(5)]
      by (auto simp: refines_def)
  qed
qed

section \<open>Concatenating\<close>

text \<open>
  The fuel an argument asks for: more than its depth, and at every map of it more than the
  map has entries.
\<close>

fun weight :: "chunkdat \<Rightarrow> nat"
  and weight_values :: "(string \<times> chunkdat) list \<Rightarrow> nat"
  and weight_items :: "chunkdat list \<Rightarrow> nat" where
  "weight (Chunkdat p off a) = Suc (case a of
      Some (Chunk_map m) \<Rightarrow> max (Suc (length m)) (weight_values m)
    | Some (Chunk_list l) \<Rightarrow> weight_items l
    | Some (Chunk_string v) \<Rightarrow> 0
    | None \<Rightarrow> 0)"
| "weight_values [] = 0"
| "weight_values ((k, c) # m) = max (weight c) (weight_values m)"
| "weight_items [] = 0"
| "weight_items (c # l) = max (weight c) (weight_items l)"

lemma weight_values_le: "(k, c) \<in> set m \<Longrightarrow> weight c \<le> weight_values m"
  by (induction m) auto

lemma weight_items_le: "c \<in> set l \<Longrightarrow> weight c \<le> weight_items l"
  by (induction l) auto

lemma weight_children: "d \<in> set (children c) \<Longrightarrow> weight d < weight c"
  using weight_values_le weight_items_le
  by (cases c rule: chunk_cases) (fastforce simp: less_Suc_eq_le le_max_iff_disj)+

lemma depth_weight: "depth c \<le> weight c"
proof (induction c rule: chunk_induct)
  case (map p off m)
  have "depth_values m \<le> weight_values m" using map by (induction m) (fastforce simp: le_max_iff_disj)+
  then show ?case by simp
next
  case (list p off l)
  have "depth_items l \<le> weight_items l" using list by (induction l) (fastforce simp: le_max_iff_disj)+
  then show ?case by simp
qed simp_all

lemma depth_set_achunk: "depth (set_achunk x c) = Suc (depth_items (parts x))"
  by (cases c; cases x) (auto simp: depth_values_items)

lemma depth_achunk: "m_achunk c = Some x \<Longrightarrow> depth c = Suc (depth_items (parts x))"
  by (cases c; cases x) (auto simp: depth_values_items)

lemma depth_addToMap: "wf_chunk d \<Longrightarrow> depth (snd (addToMap (k, d) c)) \<le> max (depth c) (Suc (depth d))"
proof -
  assume d: "wf_chunk d"
  have ins: "depth_items (map snd (fst (map_insert k d m))) \<le> max (depth_items (map snd m)) (depth d)" for m
    by (induction m) auto
  show ?thesis
  proof (cases "m_achunk c")
    case None
    then show ?thesis by (simp add: addToMap_none depth_set_achunk copy_chunk_id [OF d])
  next
    case (Some x)
    then show ?thesis using ins copy_chunk_id [OF d]
      by (cases x) (auto simp: addToMap_def Let_def depth_set_achunk depth_achunk split: prod.splits
          dest!: arg_cong [where f = fst])
  qed
qed

lemma depth_addToList: "wf_chunk d \<Longrightarrow> depth (snd (addToList d c)) \<le> max (depth c) (Suc (depth d))"
proof -
  assume d: "wf_chunk d"
  have app: "depth_items (l @ [d]) = max (depth_items l) (depth d)" for l
    by (induction l) auto
  show ?thesis
  proof (cases "m_achunk c")
    case (Some x)
    then show ?thesis using copy_chunk_id [OF d]
      by (cases x) (auto simp: addToList_def depth_set_achunk depth_achunk app)
  qed (simp add: addToList_def depth_set_achunk copy_chunk_id [OF d])
qed

lemma add_keeps:
  "m_achunk c \<noteq> None \<Longrightarrow> m_achunk (snd (addToMap kv c)) \<noteq> None"
  "m_achunk c \<noteq> None \<Longrightarrow> m_achunk (snd (addToList d c)) \<noteq> None"
  by (auto simp: addToMap_def addToList_def Let_def split: option.splits chunk_abstract.splits prod.splits)

text \<open>What a loop keeps of the object.\<close>

definition loop_inv :: "nat \<Rightarrow> chunkdat \<Rightarrow> bool" where
  "loop_inv n c \<longleftrightarrow> wf_chunk c \<and> m_achunk c \<noteq> None \<and> depth c \<le> n"

lemma addToMap_loop:
  assumes "stored s x d V" "stored s a c S" "V \<inter> S = {}" "store_ok s" "loop_inv n c" "wf_chunk d" "depth d < n"
  shows "refines True (addToMap_obj n k x a) s a S (addToMap (k, d) c) \<and> loop_inv n (snd (addToMap (k, d) c))"
proof
  show "refines True (addToMap_obj n k x a) s a S (addToMap (k, d) c)"
    using addToMap_refines [OF assms(2,1,3,4) _ assms(6)] assms(5,7) by (simp add: loop_inv_def)
  show "loop_inv n (snd (addToMap (k, d) c))"
    using assms(5-7) depth_addToMap [OF assms(6), of k c] to_map.wf_add [of c "(k, d)"] add_keeps(1)
    by (auto simp: loop_inv_def elem_entry_def)
qed

lemma addToList_loop:
  assumes "stored s x d V" "stored s a c S" "V \<inter> S = {}" "store_ok s" "loop_inv n c" "wf_chunk d" "depth d < n"
  shows "refines True (addToList_obj n x a) s a S (addToList d c) \<and> loop_inv n (snd (addToList d c))"
proof
  show "refines True (addToList_obj n x a) s a S (addToList d c)"
    using addToList_refines [OF assms(2,1,3,4,6)] assms(5,7) by (simp add: loop_inv_def)
  show "loop_inv n (snd (addToList d c))"
    using assms(5-7) depth_addToList [OF assms(6), of c] to_list.wf_add [of c d] add_keeps(2)
    by (auto simp: loop_inv_def)
qed

lemma refines_mono: "refines True act s a S out \<Longrightarrow> refines keep act s a S out"
  by (auto simp: refines_def)

lemma refines_cong: "act s = act' s \<Longrightarrow> refines keep act s a S out = refines keep act' s a S out"
  by (simp add: refines_def)

lemma each_addToMap:
  assumes "stored_abstract s b (Chunk_map m) W" "W \<inter> S = {}" "stored s a d S" "store_ok s"
    and "map_ok m" "\<forall>c \<in> set (map snd m). wf_chunk c \<and> depth c < n" "length m < n" "loop_inv n d"
  shows "refines True (each_entry n (\<lambda>k c. addToMap_obj n k c a) b None) s a S (for_each addToMap m d)"
proof -
  have "refines True (each_entry n (\<lambda>k c. addToMap_obj n k c a) b
      (if [] = ([] :: (string \<times> chunkdat) list) then None else Some (fst (last ([] :: (string \<times> chunkdat) list))))) s a S (for_each addToMap m d)"
    by (rule each_entry_refines [where m = m and W = W and J = "loop_inv n" and ms = "[]" and cell = "cells s a",
          OF _ assms(5) _ assms(1,2,3,4,8) refl assms(7)])
      (use assms(6) addToMap_loop in auto)
  then show ?thesis by simp
qed

lemma each_addToList:
  assumes "stored_abstract s b (Chunk_list l) W" "W \<inter> S = {}" "stored s a d S" "store_ok s"
    and "cells s b = Some (Items xs)" "\<forall>c \<in> set l. wf_chunk c \<and> depth c < n" "loop_inv n d"
  shows "refines True (each_item (\<lambda>c. addToList_obj n c a) b xs xs) s a S (for_each addToList l d)"
proof -
  have "refines True (each_item (\<lambda>c. addToList_obj n c a) b xs (drop (length ([] :: chunkdat list)) xs)) s a S
      (for_each addToList l d)"
    by (rule each_item_refines [where l = l and W = W and J = "loop_inv n" and ls = "[]",
          OF _ _ assms(1,2,3,4,7,5)])
      (use assms(6) addToList_loop in auto)
  then show ?thesis by simp
qed

lemma set_refines:
  assumes "stored s i c T" "stored s a d S" "T \<inter> S = {}" "store_ok s" "wf_chunk c" "depth c \<le> n" "depth d \<le> n"
  shows "refines False (bindM (set_obj n i a) (\<lambda>_. doneM)) s a S (None, set_chunk c d)"
proof -
  obtain s' S' where "set_obj n i a s = Inr ((), s')" "stored s' a c S'" "becomes s S s' S'"
    using set_obj_run [OF assms(6,7,5,1,2,3,4)] by blast
  then show ?thesis using copy_chunk_id [OF assms(5)] by (auto simp: set_chunk_def run_simps intro: refinesI)
qed

lemma throw_refines: "stored s a d S \<Longrightarrow> store_ok s \<Longrightarrow> refines keep (throwM e) s a S (Some e, d)"
  using becomes_refl by (auto simp: run_simps intro!: refinesI)

lemma wf_weight_parts:
  assumes "wf_chunk (Chunkdat p off (Some x))" "weight (Chunkdat p off (Some x)) < n"
  shows "\<forall>c \<in> set (parts x). wf_chunk c \<and> weight c < n - 1 \<and> depth c < n - 1"
proof
  fix c assume c: "c \<in> set (parts x)"
  then have "weight c < n - 1" using weight_children [of c "Chunkdat p off (Some x)"] assms(2) by simp
  then show "wf_chunk c \<and> weight c < n - 1 \<and> depth c < n - 1"
    using depth_weight [of c] c wf_parts [OF assms(1)] by simp
qed

text \<open>An object and its argument: what the two of them hold.\<close>

lemma argument_cases [consumes 2, case_names empty no_argument differ strings maps lists]:
  assumes "stored s i c T" "stored s a d S"
  obtains
    p off where "d = Chunkdat p off None" "cells s a = Some (Obj p off None)"
  | p off x b U p' off' where "d = Chunkdat p off (Some x)" "cells s a = Some (Obj p off (Some b))"
      "stored_abstract s b x U" "c = Chunkdat p' off' None" "cells s i = Some (Obj p' off' None)"
  | p off x b U p' off' y b' V where "d = Chunkdat p off (Some x)" "cells s a = Some (Obj p off (Some b))"
      "stored_abstract s b x U" "c = Chunkdat p' off' (Some y)" "cells s i = Some (Obj p' off' (Some b'))"
      "stored_abstract s b' y V" "abstract_type x \<noteq> abstract_type y"
  | p off v b U p' off' t b' where "d = Chunkdat p off (Some (Chunk_string v))" "cells s a = Some (Obj p off (Some b))"
      "stored_abstract s b (Chunk_string v) U" "a \<notin> U" "S = insert a U" "c = Chunkdat p' off' (Some (Chunk_string t))"
      "cells s i = Some (Obj p' off' (Some b'))" "cells s b' = Some (Str t)"
  | p off m b xs p' off' m' b' xs' V where "d = Chunkdat p off (Some (Chunk_map m))" "cells s a = Some (Obj p off (Some b))"
      "cells s b = Some (Entries xs)" "c = Chunkdat p' off' (Some (Chunk_map m'))"
      "cells s i = Some (Obj p' off' (Some b'))" "cells s b' = Some (Entries xs')"
      "stored_abstract s b' (Chunk_map m') V" "V \<subseteq> T"
  | p off l b xs p' off' l' b' xs' V where "d = Chunkdat p off (Some (Chunk_list l))" "cells s a = Some (Obj p off (Some b))"
      "cells s b = Some (Items xs)" "c = Chunkdat p' off' (Some (Chunk_list l'))"
      "cells s i = Some (Obj p' off' (Some b'))" "cells s b' = Some (Items xs')"
      "stored_abstract s b' (Chunk_list l') V" "V \<subseteq> T"
  using assms(2)
proof (cases rule: stored_cases)
  case (none p off)
  then show ?thesis using that(1) by blast
next
  case d: (some p off x b U)
  from assms(1) show ?thesis
  proof (cases rule: stored_cases)
    case (none p' off')
    then show ?thesis using that(2) d by blast
  next
    case c: (some p' off' y b' V)
    have "V \<subseteq> T" using c(5) by blast
    then show ?thesis
      using that(3) [OF d(1-3) c(1-3)] that(4) [OF _ d(2) _ d(4,5) _ c(2)] that(5) [OF _ d(2) _ _ c(2)]
        that(6) [OF _ d(2) _ _ c(2)] c(1,3) d(1,3) stored_blocks
      by (cases x; cases y) (simp; metis stored_abstract_simps(1))+
  qed
qed

lemma put_string:
  assumes "cells s a = Some (Obj p off (Some b))" "stored_abstract s b (Chunk_string v) U" "a \<notin> U" "store_ok s"
  shows "stored (put_cell b (Str t) s) a (Chunkdat p off (Some (Chunk_string t))) (insert a U)"
    "becomes s (insert a U) (put_cell b (Str t) s) (insert a U)"
proof -
  have b: "stored_abstract (put_cell b (Str t) s) b (Chunk_string t) U" "b \<in> U" using assms(2) by auto
  note grown = regrow [OF assms(1,3,4) becomes_put [OF assms(4) b(2) abstract_below [OF assms(2,4) b(2)]] b(1)]
  from grown show "stored (put_cell b (Str t) s) a (Chunkdat p off (Some (Chunk_string t))) (insert a U)"
    "becomes s (insert a U) (put_cell b (Str t) s) (insert a U)" .
qed

lemma refines_by:
  "refines True act' s a S out' \<Longrightarrow> act s = act' s \<Longrightarrow> out = out' \<Longrightarrow> refines keep act s a S out"
  by (auto simp: refines_def)

lemma concatenate_refines:
  assumes "stored s i c T" "stored s a d S" "T \<inter> S = {}" "store_ok s" "wf_chunk c" "wf_chunk d"
    and "weight c < n" "depth d < n"
  shows "refines False (concatenate_obj n i a) s a S (concatenate c d)"
proof -
  have bad: ?thesis if "concatenate_obj n i a s = throwM (Format_error ''Cannot concatenate chunks of different types'' [] [] (-1)) s"
    "concatenate c d = (Some (Format_error ''Cannot concatenate chunks of different types'' [] [] (-1)), d)"
    unfolding refines_def that
    using throw_refines [OF assms(2,4), of False] by (simp only: refines_def fst_conv snd_conv)
  have inv: "loop_inv n d" if "m_achunk d \<noteq> None" using assms(6,8) that by (simp add: loop_inv_def)
  from assms(1,2) show ?thesis
  proof (cases rule: argument_cases)
    case (empty p off)
    have "refines False (bindM (set_obj n i a) (\<lambda>_. doneM)) s a S (None, set_chunk c d)"
      by (rule set_refines [OF assms(1-5)]) (use assms(7,8) depth_weight [of c] in auto)
    then show ?thesis using empty by (simp add: concatenate_obj_def concatenate_def refines_def run_simps)
  next
    case (no_argument p off x b U)
    then show ?thesis using abstract_block [OF no_argument(3)]
      by (intro bad) (cases x; auto simp: concatenate_obj_def concatenate_def run_simps)+
  next
    case (differ p off x b U p' off' y b' V)
    then show ?thesis
      by (intro bad; cases x; cases y) (auto simp: concatenate_obj_def concatenate_def run_simps dest!: stored_blocks)
  next
    case (strings p off v b U p' off' t b')
    then have "concatenate_obj n i a s = Inr (None, put_cell b (Str (v @ t)) s)"
      by (simp add: concatenate_obj_def run_simps)
    from refinesI [where act = "concatenate_obj n i a" and keep = False, OF this put_string [OF strings(2-4) assms(4)]]
    show ?thesis using strings(1,5,6) by (simp add: concatenate_def)
  next
    case (maps p off m b xs p' off' m' b' xs' V)
    have ch: "\<forall>e \<in> set (map snd m'). wf_chunk e \<and> depth e < n"
      using wf_weight_parts [OF assms(5,7) [unfolded maps(4)]] by fastforce
    have "refines True (each_entry n (\<lambda>k c. addToMap_obj n k c a) b' None) s a S (for_each addToMap m' d)"
      by (rule each_addToMap [OF maps(7) _ assms(2,4) _ ch])
        (use maps(1,4,8) assms(3,5,7) inv in auto)
    then show ?thesis
      by (rule refines_by) (use maps in \<open>simp_all add: concatenate_obj_def concatenate_def run_simps\<close>)
  next
    case (lists p off l b xs p' off' l' b' xs' V)
    have ch: "\<forall>e \<in> set l'. wf_chunk e \<and> depth e < n"
      using wf_weight_parts [OF assms(5,7) [unfolded lists(4)]] by fastforce
    have "refines True (each_item (\<lambda>c. addToList_obj n c a) b' xs' xs') s a S (for_each addToList l' d)"
      by (rule each_addToList [OF lists(7) _ assms(2,4) lists(6) ch]) (use lists(1,8) assms(3) inv in auto)
    then show ?thesis
      by (rule refines_by) (use lists in \<open>simp_all add: concatenate_obj_def concatenate_def run_simps\<close>)
  qed
qed

section \<open>Merging\<close>

lemma entries_part:
  assumes "stored_entries s xs m U" "map_find k m = Some c"
  shows "\<exists>x Sx Sr. map_find k xs = Some x \<and> stored s x c Sx \<and> U = Sx \<union> Sr \<and> Sx \<inter> Sr = {} \<and>
    stored_entries s (map_erase k xs) (map_erase k m) Sr \<and>
    (\<forall>s' c' T. stored s' x c' T \<longrightarrow> (\<forall>y \<in> Sr. cells s' y = cells s y) \<longrightarrow> T \<inter> Sr = {} \<longrightarrow>
       stored_entries s' xs (map_assign k c' m) (T \<union> Sr))"
  using assms
proof (induction m arbitrary: xs U)
  case (Cons jd m)
  obtain j d where jd: "jd = (j, d)" by force
  obtain y ys S1 S2 where *: "xs = (j, y) # ys" "stored s y d S1" "stored_entries s ys m S2" "S1 \<inter> S2 = {}" "U = S1 \<union> S2"
    using Cons.prems(1) jd by auto
  show ?case
  proof (cases "j = k")
    case True
    have "stored_entries s' xs (map_assign k c' (jd # m)) (T \<union> S2)"
      if "stored s' y c' T" "\<forall>y \<in> S2. cells s' y = cells s y" "T \<inter> S2 = {}" for s' c' T
      using that True jd *(1) entries_frame [OF *(3) that(2)] by auto
    with True * jd Cons.prems(2) show ?thesis
      by (intro exI [of _ y] exI [of _ S1] exI [of _ S2]) auto
  next
    case False
    then have "map_find k m = Some c" using Cons.prems(2) jd by simp
    from Cons.IH [OF *(3) this] obtain x Sx Sr where ih: "map_find k ys = Some x" "stored s x c Sx" "S2 = Sx \<union> Sr"
      "Sx \<inter> Sr = {}" "stored_entries s (map_erase k ys) (map_erase k m) Sr"
      "\<And>s' c' T. stored s' x c' T \<Longrightarrow> \<forall>y \<in> Sr. cells s' y = cells s y \<Longrightarrow> T \<inter> Sr = {} \<Longrightarrow>
         stored_entries s' ys (map_assign k c' m) (T \<union> Sr)" by metis
    have "stored_entries s (map_erase k xs) (map_erase k (jd # m)) (S1 \<union> Sr)"
      using False jd * ih(3,5) by (simp, intro exI [of _ S1] conjI exI [of _ Sr]) auto
    moreover have "stored_entries s' xs (map_assign k c' (jd # m)) (T \<union> (S1 \<union> Sr))"
      if "stored s' x c' T" "\<forall>y \<in> S1 \<union> Sr. cells s' y = cells s y" "T \<inter> (S1 \<union> Sr) = {}" for s' c' T
    proof -
      have "stored s' y d S1" by (rule stored_frame [OF *(2)]) (use that(2) in auto)
      moreover have "stored_entries s' ys (map_assign k c' m) (T \<union> Sr)" by (rule ih(6)) (use that in auto)
      moreover have "S1 \<inter> (T \<union> Sr) = {}" using *(4) ih(3) that(3) by auto
      ultimately show ?thesis
        using False jd *(1) by (simp, intro exI [of _ S1] conjI exI [of _ "T \<union> Sr"]) auto
    qed
    moreover have "U = Sx \<union> (S1 \<union> Sr)" "Sx \<inter> (S1 \<union> Sr) = {}" using *(4,5) ih(3,4) by auto
    ultimately show ?thesis using False ih(1,2) *(1)
      by (intro exI [of _ x] exI [of _ Sx] exI [of _ "S1 \<union> Sr"]) auto
  qed
qed simp

lemma entries_absent: "stored_entries s xs m U \<Longrightarrow> map_find k m = None \<Longrightarrow> map_find k xs = None"
proof (induction m arbitrary: xs U)
  case (Cons jd m)
  then show ?case by (cases jd) (auto split: if_splits)
qed simp

text \<open>The loop of \<open>merge_values\<close> as one over a step.\<close>

definition merge_step :: "bool \<Rightarrow> string \<times> chunkdat \<Rightarrow> chunkdat \<Rightarrow> outcome" where
  "merge_step ow kc this =
     (case m_achunk this of
        Some (Chunk_map cc) \<Rightarrow>
          (case map_find (fst kc) cc of
             None \<Rightarrow> addToMap kc this
           | Some sub \<Rightarrow>
               (case merge ow (snd kc) sub of (e, sub') \<Rightarrow>
                  (e, set_achunk (Chunk_map (map_assign (fst kc) sub' cc)) this)))
      | _ \<Rightarrow> (Some Undefined, this))"

lemma merge_values_steps: "merge_values ow ci this = for_each (merge_step ow) ci this"
proof (induction ci arbitrary: this)
  case (Cons kc ci)
  obtain k c where "kc = (k, c)" by force
  then show ?case using Cons
    by (auto simp: merge_step_def split: option.splits chunk_abstract.splits prod.splits)
qed simp

lemma depth_assign: "depth_items (map snd (map_assign k c m)) \<le> max (depth_items (map snd m)) (depth c)"
  by (induction m) auto

lemma for_each_inv:
  "(\<And>x c. x \<in> set xs \<Longrightarrow> J c \<Longrightarrow> J (snd (f x c))) \<Longrightarrow> J c \<Longrightarrow> J (snd (for_each f xs c))"
proof (induction xs arbitrary: c)
  case (Cons x xs)
  have "J (snd (f x c))" using Cons.prems by simp
  moreover have "J (snd (for_each f xs c'))" if "J c'" for c' using Cons that by simp
  ultimately show ?case by (cases "f x c"; cases "fst (f x c)") auto
qed simp

text \<open>What the loop over the keys keeps of the object.\<close>

definition merge_inv :: "nat \<Rightarrow> chunkdat \<Rightarrow> bool" where
  "merge_inv n c \<longleftrightarrow> wf_chunk c \<and> chunk_type c = MapT \<and> depth c \<le> n"

lemma map_content: "chunk_type c = MapT \<Longrightarrow> \<exists>p off m. c = Chunkdat p off (Some (Chunk_map m))"
  by (cases c rule: chunk_cases) auto

lemma merge_step_inv:
  assumes "merge_inv n this" "wf_chunk c" "depth c < n"
    and "\<And>x. wf_chunk x \<Longrightarrow> depth (snd (merge ow c x)) \<le> max (depth c) (depth x)"
  shows "merge_inv n (snd (merge_step ow (k, c) this))"
proof -
  from assms(1) obtain p off m where th: "this = Chunkdat p off (Some (Chunk_map m))"
    using map_content [of this] by (auto simp: merge_inv_def)
  have m: "map_ok m" "\<forall>(j, x) \<in> set m. wf_chunk x"
    using wf_chunk_achunk(1) [of this m] assms(1) th by (auto simp: merge_inv_def)
  show ?thesis
  proof (cases "map_find k m")
    case None
    have "addToMap (k, c) this = (None, set_achunk (Chunk_map (fst (map_insert k c m))) this)"
      using addToMap_fresh [of this m k c] copy_chunk_id [OF assms(2)] None assms(1) th by (simp add: merge_inv_def)
    moreover have "wf_chunk (snd (addToMap (k, c) this))" "depth (snd (addToMap (k, c) this)) \<le> n"
      using to_map.wf_add [of this "(k, c)"] depth_addToMap [OF assms(2), of k this] assms(1-3)
      by (auto simp: elem_entry_def merge_inv_def)
    ultimately show ?thesis using None th by (auto simp: merge_step_def merge_inv_def)
  next
    case (Some x)
    have x: "x \<in> set (map snd m)" using map_find_set [OF Some] by force
    have wx: "wf_chunk x" using m(2) map_find_set [OF Some] by auto
    have dm: "depth_items (map snd m) < n" using assms(1) th by (simp add: merge_inv_def depth_values_items)
    then have dx: "depth x < n" using depth_item [OF x] by simp
    let ?x = "snd (merge ow c x)"
    have "depth ?x < n" using assms(3) assms(4) [OF wx] dx by simp
    then have "depth_items (map snd (map_assign k ?x m)) < n" using depth_assign [of k ?x m] dm by simp
    moreover have "wf_chunk ?x" by (rule merge_wf [OF assms(2) wx])
    then have "\<forall>(j, y) \<in> set (map_assign k ?x m). wf_chunk y" using m(2) map_assign_set [of k ?x m] by auto
    moreover have "map_ok (map_assign k ?x m)" using m(1) by (simp add: map_ok_def map_assign_keys)
    ultimately have "merge_inv n (Chunkdat p off (Some (Chunk_map (map_assign k ?x m))))"
      by (simp add: merge_inv_def depth_values_items wf_values_iff)
    then show ?thesis using Some th by (auto simp: merge_step_def split: prod.splits)
  qed
qed

lemma merge_depth: "wf_chunk c \<Longrightarrow> wf_chunk this \<Longrightarrow> depth (snd (merge ow c this)) \<le> max (depth c) (depth this)"
proof (induction c arbitrary: this rule: chunk_induct)
  case (map p off m)
  let ?c = "Chunkdat p off (Some (Chunk_map m))"
  show ?case
  proof (cases "chunk_type this = MapT")
    case True
    let ?n = "max (depth ?c) (depth this)"
    have step: "merge_inv ?n (snd (merge_step ow kc x))" if kc: "kc \<in> set m" and x: "merge_inv ?n x" for kc x
    proof -
      obtain k d where kd: "kc = (k, d)" by force
      have d: "d \<in> set (children ?c)" using kc kd by force
      have "wf_chunk d" by (rule wf_children [OF map.prems(1) d])
      then show ?thesis unfolding kd
        using kc kd depth_children [OF d] map.IH [of k d] by (intro merge_step_inv [OF x]) auto
    qed
    have "merge_inv ?n (snd (for_each (merge_step ow) m this))"
      by (rule for_each_inv [where J = "merge_inv ?n", OF step]) (use map.prems(2) True in \<open>auto simp: merge_inv_def\<close>)
    then show ?thesis using True map_content [OF True] by (auto simp: merge_maps merge_values_steps merge_inv_def)
  next
    case False
    then show ?thesis using copy_chunk_id [OF map.prems(1)] merge_to_none [of this ow ?c] merge_mixed [of this ?c ow]
      by (cases "m_achunk this = None") (auto simp: max_def)
  qed
next
  case (list p off l)
  let ?c = "Chunkdat p off (Some (Chunk_list l))"
  show ?case
  proof (cases "chunk_type this = ListT")
    case True
    then obtain q o' l' where th: "this = Chunkdat q o' (Some (Chunk_list l'))" by (cases this rule: chunk_cases) auto
    have "map copy_chunk l = l" using copy_chunk_id list.prems(1) by (intro map_idI) (auto simp: wf_items_iff)
    moreover have "depth_items (l' @ l) \<le> max (depth_items l') (depth_items l)" by (induction l') auto
    moreover have "merge ow ?c this = (None, set_achunk (Chunk_list (l' @ map copy_chunk l)) this)"
      by (rule merge_lists) (simp add: th)
    ultimately show ?thesis using th by (simp add: depth_set_achunk)
  next
    case False
    then show ?thesis using copy_chunk_id [OF list.prems(1)] merge_to_none [of this ow ?c] merge_mixed [of this ?c ow]
      by (cases "m_achunk this = None") (auto simp: max_def)
  qed
next
  case (none p off)
  then show ?case using merge_to_none [of this ow "Chunkdat p off None"] merge_mixed [of this "Chunkdat p off None" ow]
    by (cases this rule: chunk_cases) auto
next
  case (string p off v)
  let ?c = "Chunkdat p off (Some (Chunk_string v))"
  show ?case
  proof (cases "m_achunk this = None \<or> chunk_type this \<noteq> StringT")
    case True
    then show ?thesis using merge_to_none [of this ow ?c] merge_mixed [of this ?c ow]
      by (cases this rule: chunk_cases) auto
  next
    case False
    then obtain t where "m_achunk this = Some (Chunk_string t)" by (cases this rule: chunk_cases) auto
    then show ?thesis by (auto simp: merge_strings depth_set_achunk)
  qed
qed

lemma merge_entry_refines:
  assumes IH: "\<And>s i c T a d S. stored s i c T \<Longrightarrow> stored s a d S \<Longrightarrow> T \<inter> S = {} \<Longrightarrow> store_ok s \<Longrightarrow> wf_chunk c \<Longrightarrow>
      wf_chunk d \<Longrightarrow> weight c < n \<Longrightarrow> depth d < n \<Longrightarrow> refines False (merge_obj n ow i a) s a S (merge ow c d)"
    and "stored s x c V" "stored s a now S" "V \<inter> S = {}" "store_ok s" "merge_inv n now"
    and "cells s a = Some (Obj p off (Some cc))" "wf_chunk c" "weight c < n"
  shows "refines True (merge_entry (merge_obj n ow) n cc a k x) s a S (merge_step ow (k, c) now)"
proof -
  from assms(6) map_content obtain m where now: "now = Chunkdat p off (Some (Chunk_map m))"
    using assms(3,7) stored_obj [OF assms(3)] by (fastforce simp: merge_inv_def)
  have m: "\<forall>(j, y) \<in> set m. wf_chunk y"
    using wf_chunk_achunk(1) [of now m] assms(6) now by (auto simp: merge_inv_def)
  obtain xs U where *: "cells s cc = Some (Entries xs)" "stored_entries s xs m U" "cc \<notin> U" "a \<notin> insert cc U"
    "S = insert a (insert cc U)"
    using assms(3,7) unfolding now stored_some stored_abstract_simps by auto
  show ?thesis
  proof (cases "map_find k m")
    case None
    then have "merge_entry (merge_obj n ow) n cc a k x s = addToMap_obj n k x a s"
      using *(1) entries_absent [OF *(2)] by (simp add: merge_entry_def run_simps)
    moreover have "refines True (addToMap_obj n k x a) s a S (addToMap (k, c) now)"
      using addToMap_loop [OF assms(2-5) _ assms(8), of n k] assms(6,9) depth_weight [of c] now
      by (auto simp: loop_inv_def merge_inv_def)
    ultimately show ?thesis using None now by (simp add: merge_step_def refines_def)
  next
    case (Some sub)
    obtain y Sy Sr where e: "map_find k xs = Some y" "stored s y sub Sy" "U = Sy \<union> Sr" "Sy \<inter> Sr = {}"
      "\<And>s' c' T. stored s' y c' T \<Longrightarrow> \<forall>z \<in> Sr. cells s' z = cells s z \<Longrightarrow> T \<inter> Sr = {} \<Longrightarrow>
         stored_entries s' xs (map_assign k c' m) (T \<union> Sr)"
      using entries_part [OF *(2) Some] by metis
    have sub: "wf_chunk sub" "depth sub < n"
      using m map_find_set [OF Some] depth_item [of sub "map snd m"] assms(6) now
      by (force simp: merge_inv_def depth_values_items)+
    have "refines False (merge_obj n ow x y) s y Sy (merge ow c sub)"
      by (rule IH [OF assms(2) e(2) _ assms(5,8) sub(1) assms(9) sub(2)]) (use assms(4) *(5) e(3) in auto)
    then obtain s' T where 1: "merge_obj n ow x y s = Inr (fst (merge ow c sub), s')"
      "stored s' y (snd (merge ow c sub)) T" "becomes s Sy s' T" by (auto simp: refines_def)
    have below: "\<forall>z \<in> S. z < fresh s" using stored_below [OF assms(3,5)] by blast
    have same: "cells s' z = cells s z \<and> z \<notin> T" if "z \<in> insert a (insert cc Sr)" for z
      by (rule becomes_same [OF 1(3)]) (use that below * e(3,4) in auto)
    let ?now = "Chunkdat p off (Some (Chunk_map (map_assign k (snd (merge ow c sub)) m)))"
    have "stored_entries s' xs (map_assign k (snd (merge ow c sub)) m) (T \<union> Sr)"
      by (rule e(5) [OF 1(2)]) (use same in auto)
    then have "stored_abstract s' cc (Chunk_map (map_assign k (snd (merge ow c sub)) m)) (insert cc (T \<union> Sr))"
      using *(1,3) e(3) same by (auto simp: stored_abstract_simps)
    moreover have "cells s' a = Some (Obj p off (Some cc))" "a \<notin> insert cc (T \<union> Sr)"
      using assms(7) same [of a] *(4) e(3) by auto
    ultimately have st: "stored s' a ?now (insert a (insert cc (T \<union> Sr)))"
      unfolding stored_some by blast
    have "becomes s (Sy \<union> insert a (insert cc Sr)) s' (T \<union> insert a (insert cc Sr))"
      by (rule becomes_frame [OF 1(3)]) (use below * e(3,4) in auto)
    moreover have "Sy \<union> insert a (insert cc Sr) = S" using *(5) e(3) by auto
    ultimately have be: "becomes s S s' (insert a (insert cc (T \<union> Sr)))" by simp
    have "merge_entry (merge_obj n ow) n cc a k x s = Inr (fst (merge ow c sub), s')"
      using *(1) e(1) 1(1) by (simp add: merge_entry_def run_simps)
    from refinesI [where act = "merge_entry (merge_obj n ow) n cc a k x" and keep = True, OF this st be]
    show ?thesis using same [of a] Some now by (cases "merge ow c sub") (simp add: merge_step_def)
  qed
qed

lemma each_merge_entry:
  assumes IH: "\<And>s i c T a d S. stored s i c T \<Longrightarrow> stored s a d S \<Longrightarrow> T \<inter> S = {} \<Longrightarrow> store_ok s \<Longrightarrow> wf_chunk c \<Longrightarrow>
      wf_chunk d \<Longrightarrow> weight c < n \<Longrightarrow> depth d < n \<Longrightarrow> refines False (merge_obj n ow i a) s a S (merge ow c d)"
    and "stored_abstract s b' (Chunk_map m) W" "W \<inter> S = {}" "stored s a d S" "store_ok s" "merge_inv n d"
    and "cells s a = Some (Obj p off (Some b))" "map_ok m" "length m < n"
    and "\<forall>e \<in> set (map snd m). wf_chunk e \<and> weight e < n \<and> depth e < n"
  shows "refines True (each_entry n (merge_entry (merge_obj n ow) n b a) b' None) s a S (for_each (merge_step ow) m d)"
proof -
  have "refines True (each_entry n (merge_entry (merge_obj n ow) n b a) b'
      (if [] = ([] :: (string \<times> chunkdat) list) then None else Some (fst (last ([] :: (string \<times> chunkdat) list)))))
      s a S (for_each (merge_step ow) m d)"
  proof (rule each_entry_refines [where m = m and W = W and J = "merge_inv n" and ms = "[]"
        and cell = "Some (Obj p off (Some b))", OF _ assms(8) _ assms(2-6,7,9)])
    show "refines True (merge_entry (merge_obj n ow) n b a k z) s a S (merge_step ow (k, e) now)
        \<and> merge_inv n (snd (merge_step ow (k, e) now))"
      if "(k, e) \<in> set m" "stored s z e V" "stored s a now S" "V \<inter> S = {}" "store_ok s" "merge_inv n now"
        "cells s a = Some (Obj p off (Some b))" for k e z V s now S
    proof
      have e: "wf_chunk e" "weight e < n" "depth e < n" using that(1) assms(10) by force+
      show "refines True (merge_entry (merge_obj n ow) n b a k z) s a S (merge_step ow (k, e) now)"
        by (rule merge_entry_refines [OF IH that(2-7) e(1,2)])
      show "merge_inv n (snd (merge_step ow (k, e) now))"
        by (rule merge_step_inv [OF that(6) e(1,3) merge_depth [OF e(1)]])
    qed
  qed simp
  then show ?thesis by simp
qed

lemma merge_refines:
  assumes "stored s i c T" "stored s a d S" "T \<inter> S = {}" "store_ok s" "wf_chunk c" "wf_chunk d"
    and "weight c < n" "depth d < n"
  shows "refines False (merge_obj n ow i a) s a S (merge ow c d)"
  using assms
proof (induction n arbitrary: s i c T a d S)
  case (Suc n)
  note st = Suc.prems(1-6)
  have setc: "refines False (bindM (set_obj n i a) (\<lambda>_. doneM)) s a S (None, set_chunk c d)"
    by (rule set_refines [OF st(1-5)]) (use Suc.prems(7,8) depth_weight [of c] in auto)
  have mixed: ?case if "merge_obj (Suc n) ow i a s = merge_mismatch_obj n ow i a s"
    "chunk_type d \<noteq> chunk_type c" "m_achunk d \<noteq> None"
  proof -
    have "refines False (merge_mismatch_obj n ow i a) s a S (merge ow c d)"
      using merge_mixed [of d c ow] that(2,3) setc throw_refines [OF st(2,4)]
      by (auto simp: merge_mismatch_obj_def set_chunk_def)
    then show ?thesis using that(1) by (simp add: refines_def)
  qed
  have parts: "\<forall>e \<in> set (parts y). wf_chunk e \<and> weight e < n \<and> depth e < n" if "m_achunk c = Some y" for y
    using wf_weight_parts [of "m_parent c" "m_offset c" y "Suc n"] st(5) Suc.prems(7) that by (cases c) auto
  from st(1,2) show ?case
  proof (cases rule: argument_cases)
    case (empty p off)
    then have "merge_obj (Suc n) ow i a s = bindM (set_obj n i a) (\<lambda>_. doneM) s" by (simp add: run_simps)
    then show ?thesis using setc empty(1) by (simp add: merge_to_none set_chunk_def refines_def)
  next
    case (no_argument p off x b U)
    then show ?thesis using abstract_block [OF no_argument(3)]
      by (intro mixed) (cases x; auto simp: run_simps)+
  next
    case (differ p off x b U p' off' y b' V)
    then show ?thesis
      by (intro mixed; cases x; cases y) (auto simp: run_simps dest!: stored_blocks)
  next
    case (strings p off v b U p' off' t b')
    have "strval_obj n 0 [tab] i s = Inr (t, s)"
      using strval_obj_run [OF _ st(1), of n 0 "[tab]"] Suc.prems(7) depth_weight [of c] strings(6) by simp
    then have "merge_obj (Suc n) ow i a s = (if ow then Inr (None, put_cell b (Str t) s)
        else Inr (Some (Format_error ''Cannot merge string chunks'' [] [] (-1)), s))"
      using strings by (simp add: run_simps)
    then show ?thesis
      using put_string [OF strings(2-4) st(4), of t] strings(1,5,6) st(2) becomes_refl [OF st(4)]
      by (auto simp: merge_strings intro: refinesI)
  next
    case (maps p off m b xs p' off' m' b' xs' V)
    have "refines True (each_entry n (merge_entry (merge_obj n ow) n b a) b' None) s a S (for_each (merge_step ow) m' d)"
    proof (rule each_merge_entry [OF Suc.IH maps(7) _ st(2,4) _ maps(2)])
      show "merge_inv n d" using st(6) maps(1) Suc.prems(8) by (simp add: merge_inv_def)
    qed (use maps(4,8) st(3,5) Suc.prems(7) parts [of "Chunk_map m'"] in auto)
    then show ?thesis
      by (rule refines_by) (use maps in \<open>simp_all add: run_simps merge_maps merge_values_steps\<close>)
  next
    case (lists p off l b xs p' off' l' b' xs' V)
    have "refines True (each_item (\<lambda>c. addToList_obj n c a) b' xs' xs') s a S (for_each addToList l' d)"
    proof (rule each_addToList [OF lists(7) _ st(2,4) lists(6)])
      show "loop_inv n d" using st(6) lists(1) Suc.prems(8) by (simp add: loop_inv_def)
    qed (use lists(4,8) st(3) parts [of "Chunk_list l'"] in auto)
    then show ?thesis
      by (rule refines_by) (use lists in \<open>simp_all add: run_simps merge.simps\<close>)
  qed
qed simp

section \<open>Erasing\<close>

lemma stored_items_remove:
  assumes "stored_items s xs l U" "i < length l"
  shows "\<exists>V R. stored s (xs ! i) (l ! i) V \<and> stored_items s (take i xs @ drop (Suc i) xs) (take i l @ drop (Suc i) l) R
    \<and> U = V \<union> R \<and> V \<inter> R = {}"
proof -
  have len: "length xs = length l" by (rule stored_items_length [OF assms(1)])
  have "stored_items s (take i xs @ xs ! i # drop (Suc i) xs) (take i l @ l ! i # drop (Suc i) l) U"
    using assms len by (simp add: id_take_nth_drop [symmetric])
  then obtain A B V R where *: "stored_items s (take i xs) (take i l) A" "stored s (xs ! i) (l ! i) V"
    "stored_items s (drop (Suc i) xs) (drop (Suc i) l) R" "V \<inter> R = {}" "A \<inter> (V \<union> R) = {}" "U = A \<union> (V \<union> R)"
    using len by (auto simp: stored_items_append)
  then have "stored_items s (take i xs @ drop (Suc i) xs) (take i l @ drop (Suc i) l) (A \<union> R)"
    using len by (subst stored_items_append) auto
  moreover have "U = V \<union> (A \<union> R)" "V \<inter> (A \<union> R) = {}" using *(4-6) by auto
  ultimately show ?thesis using *(2) by blast
qed

text \<open>Deleting a part of the content and writing the content back without it.\<close>

lemma erase_run:
  assumes "cells s a = Some (Obj p off (Some b))" "cells s b = Some blk" "stored s x c V" "depth c \<le> n"
    and "a \<notin> insert b (V \<union> R)" "b \<notin> V \<union> R" "V \<inter> R = {}" "store_ok s" "\<forall>z \<in> insert a (insert b (V \<union> R)). z < fresh s"
    and "\<And>s'. \<forall>z \<in> R. cells s' z = cells s z \<Longrightarrow> cells s' b = Some blk' \<Longrightarrow> stored_abstract s' b y (insert b R)"
  shows "refines True (bindM (delete_obj n x) (\<lambda>_. bindM (put_block b blk') (\<lambda>_. doneM))) s a (insert a (insert b (V \<union> R)))
    (None, Chunkdat p off (Some y))"
proof -
  let ?s = "put_cell b blk' (drop_blocks V s)"
  have "delete_obj n x s = Inr ((), drop_blocks V s)" using delete_obj_run [OF assms(4)] assms(3) by (simp add: deletes_def)
  then have run: "bindM (delete_obj n x) (\<lambda>_. bindM (put_block b blk') (\<lambda>_. doneM)) s = Inr (None, ?s)"
    using assms(2,6) by (simp add: run_simps)
  have "insert a (insert b (V \<union> R)) - V = insert a (insert b R)" using assms(5-7) by auto
  then have 1: "becomes s (insert a (insert b (V \<union> R))) (drop_blocks V s) (insert a (insert b R))"
    using becomes_drop [OF assms(8), of V "insert a (insert b (V \<union> R))"] by auto
  have "becomes (drop_blocks V s) (insert a (insert b R)) ?s (insert a (insert b R))"
    by (rule becomes_put [OF becomes_ok [OF 1]]) (use assms(9) in auto)
  from becomes_trans [OF 1 this assms(8)]
  have be: "becomes s (insert a (insert b (V \<union> R))) ?s (insert a (insert b R))" .
  have "stored_abstract ?s b y (insert b R)" by (rule assms(10)) (use assms(6,7) in auto)
  then have "stored ?s a (Chunkdat p off (Some y)) (insert a (insert b R))"
    unfolding stored_some using assms(1,5) by (intro exI [of _ b] exI [of _ "insert b R"]) auto
  from refinesI [where act = "bindM (delete_obj n x) (\<lambda>_. bindM (put_block b blk') (\<lambda>_. doneM))" and keep = True,
      OF run this be] show ?thesis using assms(5) by simp
qed

lemma own_error_refines: "depth d \<le> n \<Longrightarrow> stored s a d S \<Longrightarrow> store_ok s \<Longrightarrow>
    refines keep (own_error_obj n msg a) s a S (Some (own_error msg d), d)"
  using own_error_run [of d n s a S msg] becomes_refl by (auto intro!: refinesI)

lemma erase_key_refines:
  assumes "stored s a d S" "store_ok s" "depth d \<le> n"
  shows "refines True (erase_key_obj n key a) s a S (erase_key key d)"
  using assms(1)
proof (cases rule: stored_cases)
  case (none p off)
  then show ?thesis using own_error_refines [where keep = True, OF assms(3,1,2)]
    by (simp add: erase_key_def erase_key_obj_def refines_def run_simps)
next
  case (some p off x b U)
  show ?thesis
  proof (cases x)
    case (Chunk_map m)
    obtain xs T where *: "cells s b = Some (Entries xs)" "stored_entries s xs m T" "b \<notin> T" "U = insert b T"
      using some(3) Chunk_map by (auto simp: stored_abstract_simps)
    show ?thesis
    proof (cases "map_find key m")
      case None
      then show ?thesis using own_error_refines [where keep = True, OF assms(3,1,2)] some(1,2) Chunk_map *(1) entries_absent [OF *(2)]
        by (simp add: erase_key_def erase_key_obj_def refines_def run_simps)
    next
      case (Some c)
      obtain y V R where e: "map_find key xs = Some y" "stored s y c V" "T = V \<union> R" "V \<inter> R = {}"
        "stored_entries s (map_erase key xs) (map_erase key m) R"
        using entries_part [OF *(2) Some] by metis
      have "depth c \<le> n"
        using depth_item [of c "map snd m"] map_find_set [OF Some] assms(3) some(1) Chunk_map
        by (force simp: depth_values_items)
      then have "refines True (bindM (delete_obj n y) (\<lambda>_. bindM (put_block b (Entries (map_erase key xs))) (\<lambda>_. doneM)))
          s a (insert a (insert b (V \<union> R))) (None, Chunkdat p off (Some (Chunk_map (map_erase key m))))"
        by (rule erase_run [OF some(2) *(1) e(2)])
          (use some(4,5) * e(3-5) assms(2) stored_below [OF assms(1,2)] entries_frame [OF e(5)] in
            \<open>auto simp: stored_abstract_simps intro!: exI [of _ R]\<close>)
      then show ?thesis
        using Some some(1,2,5) Chunk_map *(1,4) e(1,3) by (simp add: erase_key_def erase_key_obj_def refines_def run_simps)
    qed
  next
    case (Chunk_list l)
    then show ?thesis using own_error_refines [where keep = True, OF assms(3,1,2)] some stored_blocks(2) [of s b l U]
      by (auto simp: erase_key_def erase_key_obj_def refines_def run_simps)
  qed (use own_error_refines [where keep = True, OF assms(3,1,2)] some in \<open>simp add: erase_key_def erase_key_obj_def refines_def run_simps\<close>)
qed

lemma index_below:
  assumes "\<not> (of_int (sint (of_nat n :: 32 word)) :: 32 word) \<le> i"
  shows "unat i < n"
proof -
  have "unat i < unat (of_nat n :: 32 word)" using assms by (simp add: not_le word_less_nat_alt)
  also have "\<dots> \<le> n" by (simp add: unsigned_of_nat take_bit_nat_less_eq_self)
  finally show ?thesis .
qed

lemma erase_index_refines:
  assumes "stored s a d S" "store_ok s" "depth d \<le> n"
  shows "refines True (erase_index_obj n i a) s a S (erase_index i d)"
  using assms(1)
proof (cases rule: stored_cases)
  case (none p off)
  then show ?thesis using own_error_refines [where keep = True, OF assms(3,1,2)]
    by (simp add: erase_index_def erase_index_obj_def refines_def run_simps)
next
  case (some p off x b U)
  show ?thesis
  proof (cases x)
    case (Chunk_list l)
    obtain xs T where *: "cells s b = Some (Items xs)" "stored_items s xs l T" "b \<notin> T" "U = insert b T"
      using some(3) Chunk_list by (auto simp: stored_abstract_simps)
    have len: "length xs = length l" by (rule stored_items_length [OF *(2)])
    show ?thesis
    proof (cases "(of_int (sint (of_nat (length l) :: 32 word)) :: 32 word) \<le> i")
      case True
      then show ?thesis using own_error_refines [where keep = True, OF assms(3,1,2)] some(1,2) Chunk_list *(1) len
        by (simp add: erase_index_def erase_index_obj_def refines_def run_simps listSize_def)
    next
      case False
      have i: "unat i < length l" by (rule index_below [OF False])
      obtain V R where e: "stored s (xs ! unat i) (l ! unat i) V"
        "stored_items s (take (unat i) xs @ drop (Suc (unat i)) xs) (take (unat i) l @ drop (Suc (unat i)) l) R"
        "T = V \<union> R" "V \<inter> R = {}" using stored_items_remove [OF *(2) i] by blast
      have "depth (l ! unat i) \<le> n"
        using depth_item [OF nth_mem [OF i]] assms(3) some(1) Chunk_list by simp
      then have "refines True (bindM (delete_obj n (xs ! unat i)) (\<lambda>_. bindM (put_block b
            (Items (take (unat i) xs @ drop (Suc (unat i)) xs))) (\<lambda>_. doneM)))
          s a (insert a (insert b (V \<union> R))) (None, Chunkdat p off (Some (Chunk_list (take (unat i) l @ drop (Suc (unat i)) l))))"
        by (rule erase_run [OF some(2) *(1) e(1)])
          (use some(4,5) * e(2-4) assms(2) stored_below [OF assms(1,2)] items_frame [OF e(2)] in
            \<open>auto simp: stored_abstract_simps intro!: exI [of _ R]\<close>)
      then show ?thesis
        using False some(1,2,5) Chunk_list *(1,4) e(3) len
        by (simp add: erase_index_def erase_index_obj_def refines_def run_simps listSize_def)
    qed
  next
    case (Chunk_map m)
    then show ?thesis using own_error_refines [where keep = True, OF assms(3,1,2)] some stored_blocks(1) [of s b m U]
      by (auto simp: erase_index_def erase_index_obj_def refines_def run_simps)
  qed (use own_error_refines [where keep = True, OF assms(3,1,2)] some in \<open>simp add: erase_index_def erase_index_obj_def refines_def run_simps\<close>)
qed

section \<open>Looking up\<close>

lemma ptr_key_run:
  assumes "stored s a d S"
  shows "\<exists>r. subChunkPtr_key_obj k a s = Inr (r, s) \<and>
    (case subChunkPtr_key k d of None \<Rightarrow> r = None
     | Some c \<Rightarrow> \<exists>x V. r = Some x \<and> stored s x c V \<and> V \<subseteq> S - {a})"
  using assms
proof (cases rule: stored_cases)
  case (some p off x b U)
  show ?thesis
  proof (cases x)
    case (Chunk_map m)
    obtain xs T where *: "cells s b = Some (Entries xs)" "stored_entries s xs m T" "U = insert b T"
      using some(3) Chunk_map by (auto simp: stored_abstract_simps)
    show ?thesis
    proof (cases "map_find k m")
      case None
      then show ?thesis using some(1,2) Chunk_map *(1) entries_absent [OF *(2)]
        by (simp add: subChunkPtr_key_def subChunkPtr_key_obj_def run_simps)
    next
      case (Some c)
      then show ?thesis using entries_part [OF *(2) Some] some(1,2,4,5) Chunk_map *(1,3)
        by (fastforce simp: subChunkPtr_key_def subChunkPtr_key_obj_def run_simps)
    qed
  next
    case (Chunk_list l)
    then show ?thesis using some stored_blocks(2) [of s b l U]
      by (auto simp: subChunkPtr_key_def subChunkPtr_key_obj_def run_simps)
  qed (use some in \<open>simp add: subChunkPtr_key_def subChunkPtr_key_obj_def run_simps\<close>)
qed (simp add: subChunkPtr_key_def subChunkPtr_key_obj_def run_simps)

lemma ptr_index_run:
  assumes "stored s a d S"
  shows "\<exists>r. subChunkPtr_index_obj i a s = Inr (r, s) \<and>
    (case subChunkPtr_index i d of None \<Rightarrow> r = None
     | Some c \<Rightarrow> \<exists>x V. r = Some x \<and> stored s x c V \<and> V \<subseteq> S - {a})"
  using assms
proof (cases rule: stored_cases)
  case (some p off x b U)
  show ?thesis
  proof (cases x)
    case (Chunk_list l)
    obtain xs T where *: "cells s b = Some (Items xs)" "stored_items s xs l T" "U = insert b T"
      using some(3) Chunk_list by (auto simp: stored_abstract_simps)
    have len: "length xs = length l" by (rule stored_items_length [OF *(2)])
    show ?thesis
    proof (cases "unat i < length l")
      case True
      then obtain V R where "stored s (xs ! unat i) (l ! unat i) V" "T = V \<union> R"
        using stored_items_remove [OF *(2) True] by blast
      then show ?thesis using True some(1,2,4,5) Chunk_list *(1,3) len
        by (fastforce simp: subChunkPtr_index_def subChunkPtr_index_obj_def run_simps)
    qed (use some(1,2) Chunk_list *(1) len in \<open>simp add: subChunkPtr_index_def subChunkPtr_index_obj_def run_simps\<close>)
  next
    case (Chunk_map m)
    then show ?thesis using some stored_blocks(1) [of s b m U]
      by (auto simp: subChunkPtr_index_def subChunkPtr_index_obj_def run_simps)
  qed (use some in \<open>simp add: subChunkPtr_index_def subChunkPtr_index_obj_def run_simps\<close>)
qed (simp add: subChunkPtr_index_def subChunkPtr_index_obj_def run_simps)

end
