(* ===== verification/Chunk_Text.thy ===== *)
theory Chunk_Text
  imports Chunk_Refine ParseFacts
begin

text \<open>
  Assignment from text on the store: \<open>set(std::string)\<close> and the constructors from text
  (src/src/filedat.cpp, lines 494-621 and 1011-1035), with the blocks they make. An exception
  that leaves a constructor frees the memory of the object, but its destructor does not run
  (C++17 14.2): what the object owned by then stays allocated and nothing points to it.
\<close>

section \<open>Operations\<close>

text \<open>
  The blocks of \<open>new chunkdat(value, offset, parent)\<close>: the result is the exception of the
  constructor or the address.
\<close>

definition new_from :: "(addr \<Rightarrow> exn option mem) \<Rightarrow> (exn + addr) mem" where
  "new_from construct =
     bindM (new_block (Obj None 0 None)) (\<lambda>a.
     bindM (construct a) (\<lambda>e. case e of
       Some x \<Rightarrow> bindM (free_block a) (\<lambda>_. returnM (Inl x))
     | None \<Rightarrow> returnM (Inr a)))"

function (sequential) set_str_obj :: "(string \<Rightarrow> string) \<Rightarrow> nat \<Rightarrow> string \<Rightarrow> int \<Rightarrow> nat option \<Rightarrow> addr \<Rightarrow> exn option mem"
  and map_loop_obj :: "(string \<Rightarrow> string) \<Rightarrow> nat \<Rightarrow> string \<Rightarrow> int \<Rightarrow> nat option \<Rightarrow> int \<Rightarrow> string \<Rightarrow> addr \<Rightarrow> exn option mem"
  and list_loop_obj :: "(string \<Rightarrow> string) \<Rightarrow> nat \<Rightarrow> string \<Rightarrow> int \<Rightarrow> nat option \<Rightarrow> int \<Rightarrow> string \<Rightarrow> addr \<Rightarrow> exn option mem" where
  "set_str_obj mem n inp offset parent this =
     bindM (clear_obj n this) (\<lambda>_.
     bindM (put_block this (Obj parent offset None)) (\<lambda>_.
     case getstrval mem inp nul nul of Inl e \<Rightarrow> throwM e
     | Inr (str, rest, i, j, _) \<Rightarrow>
      if str = [] then
        bindM (new_block (Str [])) (\<lambda>cv. bindM (put_block this (Obj parent offset (Some cv))) (\<lambda>_. doneM))
      else if hd str = CHR ''{'' then
        (let p = skip rest in
         if fst p \<noteq> [] then throwM (Format_error ''Unexpected char'' [] inp (i + int (snd p)))
         else if tl str = [] then throwM Undefined
         else
           (let str = butlast (tl str); i = j + 1 in
            bindM (new_block (Entries [])) (\<lambda>tch.
            bindM (put_block this (Obj parent offset (Some tch))) (\<lambda>_.
            if fst (skip str) = [] then doneM else map_loop_obj mem n inp offset parent i str tch))))
      else if hd str = CHR ''['' then
        (let p = skip rest in
         if fst p \<noteq> [] then throwM (Format_error ''Unexpected char'' [] inp (i + int (snd p)))
         else if tl str = [] then throwM Undefined
         else
           (let str = butlast (tl str); i = j + 1 in
            bindM (new_block (Items [])) (\<lambda>tch.
            bindM (put_block this (Obj parent offset (Some tch))) (\<lambda>_.
            if fst (skip str) = [] then doneM else list_loop_obj mem n inp offset parent i str tch))))
      else
        bindM (new_block (Str inp)) (\<lambda>cv. bindM (put_block this (Obj parent offset (Some cv))) (\<lambda>_. doneM))))"
| "map_loop_obj mem n inp offset parent i str tch =
     (if cur (fst (skip str)) = CHR ''='' then
        throwM (Format_error ''Value has no key'' [] inp (i + int (snd (skip str))))
      else case getkeyval mem str of
        Inl e \<Rightarrow> throwM (catch_format (\<lambda>w src p. Format_error (cstr w) (cstr src) inp (i + p)) e)
      | Inr (key, value, rest, rr, vs, ks) \<Rightarrow>
        (let valstart = i + vs; keystart = i + ks; i = i + rr;
             handler = catch_format (\<lambda>w src p. Format_error (cstr w) [] inp (p + valstart))
         in if key = [] then
              (if rest = [] then doneM else map_loop_obj mem n inp offset parent i rest tch)
            else
              bindM (new_from (\<lambda>chk. set_str_obj mem n value (offset + valstart) parent chk)) (\<lambda>r. case r of
                Inl e \<Rightarrow> throwM (handler e)
              | Inr chk \<Rightarrow>
                  bindM (insert_entry tch key chk) (\<lambda>second.
                  if \<not> second then
                    bindM (delete_obj n chk) (\<lambda>_.
                    throwM (handler (Format_error (''Key '' @ [squote] @ key @ [squote] @ '' already present'')
                      [] inp keystart)))
                  else if rest = [] then doneM
                  else map_loop_obj mem n inp offset parent i rest tch))))"
| "list_loop_obj mem n inp offset parent i str tch =
     (case getstrval mem str CHR '','' CHR '';'' of
        Inl e \<Rightarrow> throwM (catch_format (\<lambda>w src p. Format_error (cstr w) (cstr src) inp (p + i)) e)
      | Inr (value, rest, rp, vs, _) \<Rightarrow>
        (let valstart = i + vs; i = i + rp in
         bindM (new_from (\<lambda>chk. set_str_obj mem n value (offset + valstart) parent chk)) (\<lambda>r. case r of
           Inl e \<Rightarrow> throwM (catch_format (\<lambda>w src p. Format_error (cstr w) (cstr src) inp (p + valstart)) e)
         | Inr chk \<Rightarrow>
             bindM (append_item tch chk) (\<lambda>_.
             if rest = [] then doneM else list_loop_obj mem n inp offset parent i rest tch))))"
  by pat_completeness auto

termination
proof (relation "measure (\<lambda>x. case x of Inl (mem, n, inp, off, p, a) \<Rightarrow> 2 * length inp
      | Inr (Inl (mem, n, inp, off, p, i, str, b)) \<Rightarrow> 2 * length str + 1
      | Inr (Inr (mem, n, inp, off, p, i, str, b)) \<Rightarrow> 2 * length str + 1)", goal_cases)
qed (auto dest: getstrval_len getkeyval_len text_shrinks)

declare set_str_obj.simps [simp del] map_loop_obj.simps [simp del] list_loop_obj.simps [simp del]

text \<open>The constructors from a \<open>std::string\<close> and from a C string.\<close>

definition new_of_string :: "(string \<Rightarrow> string) \<Rightarrow> nat \<Rightarrow> string \<Rightarrow> int \<Rightarrow> nat option \<Rightarrow> (exn + addr) mem" where
  "new_of_string mem n inp offset parent = new_from (set_str_obj mem n inp offset parent)"

definition new_of_chars :: "(string \<Rightarrow> string) \<Rightarrow> nat \<Rightarrow> string \<Rightarrow> nat \<Rightarrow> int \<Rightarrow> nat option \<Rightarrow> (exn + addr) mem" where
  "new_of_chars mem n p in_size offset parent = new_from (set_str_obj mem n (take in_size p) offset parent)"

definition new_of_cstring :: "(string \<Rightarrow> string) \<Rightarrow> nat \<Rightarrow> string \<Rightarrow> (exn + addr) mem" where
  "new_of_cstring mem n p = new_of_chars mem n p (length (cstr p)) 0 None"

section \<open>Against the trees\<close>

lemma depth_insert: "depth_values (fst (map_insert k c m)) \<le> max (depth_values m) (depth c)"
  by (induction m) auto

lemma depth_append: "depth_items (l @ [c]) = max (depth_items l) (depth c)"
  by (induction l) auto

lemma depth_text: "depth (snd (set_str mem inp off p)) \<le> Suc (length inp)"
proof (induction inp arbitrary: off rule: length_induct)
  case (1 inp)
  show ?case
  proof (cases rule: set_str_step [of mem inp off p])
    case (entries i str e m)
    have "depth_values (snd (map_loop mem inp off p i str [])) \<le> Suc (length str)"
    proof (rule map_loop_rule [where I = "\<lambda>m. depth_values m \<le> Suc (length str)"])
      show "depth_values (fst (map_insert k c m)) \<le> Suc (length str)"
        if "length v \<le> length str" "set_str mem v off' p = (None, c)" "depth_values m \<le> Suc (length str)" for k v off' c m
        using "1.IH" [rule_format, of v off'] that entries(3) depth_insert [of k c m] by simp
    qed simp
    then show ?thesis using entries by simp
  next
    case (elements i str e l)
    have "depth_items (snd (list_loop mem inp off p i str [])) \<le> Suc (length str)"
    proof (rule list_loop_rule [where I = "\<lambda>l. depth_items l \<le> Suc (length str)"])
      show "depth_items (l @ [c]) \<le> Suc (length str)"
        if "length v \<le> length str" "set_str mem v off' p = (None, c)" "depth_items l \<le> Suc (length str)" for v off' c l
        using "1.IH" [rule_format, of v off'] that elements(3) depth_append [of l c] by simp
    qed simp
    then show ?thesis using elements by simp
  qed simp_all
qed

text \<open>
  A run that ends with \<open>e\<close>, has turned the blocks \<open>S\<close> into blocks \<open>S'\<close> with \<open>Q\<close> and leaked the
  blocks \<open>L\<close>; only an exception leaks.
\<close>

definition leaves :: "exn option mem \<Rightarrow> store \<Rightarrow> addr set \<Rightarrow> (store \<Rightarrow> addr set \<Rightarrow> bool) \<Rightarrow> exn option \<Rightarrow> bool" where
  "leaves act s S Q e \<longleftrightarrow> (\<exists>s' S' L. act s = Inr (e, s') \<and> Q s' S' \<and> S' \<inter> L = {} \<and> L \<subseteq> dom (cells s') \<and>
     becomes s S s' (S' \<union> L) \<and> (e = None \<longrightarrow> L = {}))"

lemma leavesI:
  "act s = Inr (e, s') \<Longrightarrow> Q s' S' \<Longrightarrow> becomes s S s' S' \<Longrightarrow> leaves act s S Q e"
  unfolding leaves_def by (rule exI [of _ s'], rule exI [of _ S'], rule exI [of _ "{}"]) simp

lemma leaves_cong: "act s = act' s \<Longrightarrow> leaves act s S Q e = leaves act' s S Q e"
  by (simp add: leaves_def)

lemma leaves_after:
  assumes "leaves act s1 S1 Q e" "becomes s S s1 S1" "store_ok s" "act' s = act s1"
  shows "leaves act' s S Q e"
  using assms(1,4) becomes_trans [OF assms(2) _ assms(3)] unfolding leaves_def by metis

text \<open>What \<open>set(std::string)\<close> does on every object it is called on.\<close>

definition sets :: "(addr \<Rightarrow> exn option mem) \<Rightarrow> outcome \<Rightarrow> nat \<Rightarrow> bool" where
  "sets f out n \<longleftrightarrow> (\<forall>s a d S. stored s a d S \<longrightarrow> store_ok s \<longrightarrow> depth d \<le> n \<longrightarrow>
     leaves (f a) s S (\<lambda>s' S'. stored s' a (snd out) S') (fst out))"

text \<open>The constructor: the object, or an exception and the blocks of its content.\<close>

lemma new_from_run:
  assumes "sets f (e, t) n" "store_ok s" "1 \<le> n"
  shows "\<exists>r s' S. new_from f s = Inr (r, s') \<and> becomes s {} s' S \<and>
    (case e of None \<Rightarrow> (\<exists>a. r = Inr a \<and> stored s' a t S)
     | Some x \<Rightarrow> r = Inl x \<and> S \<subseteq> dom (cells s') \<and> (m_achunk t \<noteq> None \<longrightarrow> S \<noteq> {}))"
proof -
  let ?s = "alloc (Obj None 0 None) s"
  have 1: "becomes s {} ?s {fresh s}" by (rule becomes_alloc [OF assms(2)])
  have "stored ?s (fresh s) new_chunkdat {fresh s}" by (simp add: new_chunkdat_def)
  moreover have "depth new_chunkdat \<le> n" using assms(3) by (simp add: new_chunkdat_def)
  ultimately obtain s' S' L where 2: "f (fresh s) ?s = Inr (e, s')" "stored s' (fresh s) t S'" "S' \<inter> L = {}"
    "L \<subseteq> dom (cells s')" "becomes ?s {fresh s} s' (S' \<union> L)" "e = None \<longrightarrow> L = {}"
    using assms(1) becomes_ok [OF 1] unfolding sets_def leaves_def by force
  have be: "becomes s {} s' (S' \<union> L)" by (rule becomes_trans [OF 1 2(5) assms(2)])
  show ?thesis
  proof (cases e)
    case None
    then have "new_from f s = Inr (Inr (fresh s), s')" using 2(1) by (simp add: new_from_def run_simps)
    then show ?thesis using None 2(2,6) be by (intro exI [of _ "Inr (fresh s)"] exI [of _ s'] exI [of _ S']) auto
  next
    case (Some x)
    let ?t = "drop_blocks {fresh s} s'" and ?L = "(S' - {fresh s}) \<union> L"
    obtain ac where a: "cells s' (fresh s) = Some (Obj (m_parent t) (m_offset t) ac)" "fresh s \<in> S'"
      using stored_obj [OF 2(2)] by blast
    have "new_from f s = Inr (Inl x, ?t)" using 2(1) Some a(1) by (simp add: new_from_def run_simps)
    moreover have "becomes s' (S' \<union> L) ?t (S' \<union> L - {fresh s})"
      by (rule becomes_drop [OF becomes_ok [OF be]]) (use a(2) in auto)
    with becomes_trans [OF be this assms(2)] have "becomes s {} ?t ?L"
      using a(2) 2(3) by (metis Un_Diff Diff_triv disjoint_iff insert_disjoint(1) inf_commute Int_insert_left_if0 inf_bot_left)
    moreover have "?L \<subseteq> dom (cells ?t)"
      using 2(3,4) a(2) stored_allocated [OF 2(2)] by (auto simp: domIff subset_iff)
    moreover have "?L \<noteq> {}" if "m_achunk t \<noteq> None"
      using 2(2)
    proof (cases rule: stored_cases)
      case (some p off y b T)
      then show ?thesis using abstract_block [OF some(3)] by auto
    qed (use that in simp)
    ultimately show ?thesis using Some by (intro exI [of _ "Inl x"] exI [of _ ?t] exI [of _ ?L]) auto
  qed
qed

lemma throw_leaves: "store_ok s \<Longrightarrow> Q s S \<Longrightarrow> leaves (throwM e) s S Q (Some e)"
  by (intro leavesI [where s' = s and S' = S]) (simp_all add: run_simps becomes_refl)

lemma done_leaves: "store_ok s \<Longrightarrow> Q s S \<Longrightarrow> leaves doneM s S Q None"
  by (intro leavesI [where s' = s and S' = S]) (simp_all add: run_simps becomes_refl)

text \<open>A constructor that throws leaks its content and changes nothing else.\<close>

lemma leak_leaves:
  assumes "new_from f s = Inr (r, s1)" "becomes s {} s1 L" "L \<subseteq> dom (cells s1)"
    and "stored_abstract s b x B" "store_ok s"
  shows "leaves (bindM (new_from f) (\<lambda>_. throwM e)) s B (\<lambda>s' B'. stored_abstract s' b x B') (Some e)"
proof -
  have "stored_abstract s1 b x B" "B \<inter> L = {}"
    using becomes_abstract [OF assms(2,4) _ assms(5)] by auto
  moreover have "becomes s B s1 (B \<union> L)"
    by (rule becomes_new [OF assms(2)]) (use abstract_below [OF assms(4,5)] in blast)
  ultimately show ?thesis using assms(1,3) unfolding leaves_def
    by (intro exI [of _ s1] exI [of _ B] exI [of _ L]) (simp add: run_simps)
qed

text \<open>One value of a map: what is parsed before \<open>rest\<close> is read on.\<close>

lemma map_insert_same: "\<not> snd (map_insert k c m) \<Longrightarrow> fst (map_insert k c m) = m"
  by (induction m) (auto split: if_splits)

lemma map_value_leaves:
  assumes f: "sets f (e, c) n" "depth c \<le> n" "1 \<le> n"
    and st: "stored_abstract s b (Chunk_map m) B" "store_ok s"
    and go: "\<And>s' B'. stored_abstract s' b (Chunk_map (fst (map_insert k c m))) B' \<Longrightarrow> store_ok s' \<Longrightarrow>
      leaves go s' B' (\<lambda>s' B'. stored_abstract s' b (Chunk_map (snd out)) B') (fst out)"
  shows "leaves (bindM (new_from f) (\<lambda>r. case r of Inl x \<Rightarrow> throwM (h x)
      | Inr chk \<Rightarrow> bindM (insert_entry b k chk) (\<lambda>second.
          if \<not> second then bindM (delete_obj n chk) (\<lambda>_. throwM dup) else go))) s B
    (\<lambda>s' B'. stored_abstract s' b (Chunk_map (snd (case e of Some x \<Rightarrow> (Some (h x), m)
      | None \<Rightarrow> if \<not> snd (map_insert k c m) then (Some dup, fst (map_insert k c m)) else out))) B')
    (fst (case e of Some x \<Rightarrow> (Some (h x), m)
      | None \<Rightarrow> if \<not> snd (map_insert k c m) then (Some dup, fst (map_insert k c m)) else out))"
proof -
  let ?act = "bindM (new_from f) (\<lambda>r. case r of Inl x \<Rightarrow> throwM (h x)
      | Inr chk \<Rightarrow> bindM (insert_entry b k chk) (\<lambda>second.
          if \<not> second then bindM (delete_obj n chk) (\<lambda>_. throwM dup) else go))"
  from new_from_run [OF f(1) st(2) f(3)] obtain x s1 S where new: "new_from f s = Inr (x, s1)"
    "becomes s {} s1 S" "case e of None \<Rightarrow> (\<exists>a. x = Inr a \<and> stored s1 a c S)
      | Some y \<Rightarrow> x = Inl y \<and> S \<subseteq> dom (cells s1) \<and> (m_achunk c \<noteq> None \<longrightarrow> S \<noteq> {})" by auto
  have b1: "stored_abstract s1 b (Chunk_map m) B" "S \<inter> B = {}"
    using becomes_abstract [OF new(2) st(1) _ st(2)] by auto
  have ok1: "store_ok s1" by (rule becomes_ok [OF new(2)])
  have be1: "becomes s B s1 (B \<union> S)"
    by (rule becomes_new [OF new(2)]) (use abstract_below [OF st] in blast)
  show ?thesis
  proof (cases e)
    case (Some y)
    then have S: "S \<subseteq> dom (cells s1)" "x = Inl y" using new(3) by auto
    have "leaves (bindM (new_from f) (\<lambda>_. throwM (h y))) s B
        (\<lambda>s' B'. stored_abstract s' b (Chunk_map m) B') (Some (h y))"
      by (rule leak_leaves [OF new(1,2) S(1) st])
    then show ?thesis using Some new(1) S(2) by (simp add: leaves_def run_simps)
  next
    case None
    then obtain a where a: "x = Inr a" "stored s1 a c S" using new(3) by auto
    obtain s2 where ins: "insert_entry b k a s1 = Inr (snd (map_insert k c m), s2)"
      "if snd (map_insert k c m)
       then stored_abstract s2 b (Chunk_map (fst (map_insert k c m))) (B \<union> S) \<and> becomes s1 (B \<union> S) s2 (B \<union> S)
       else s2 = s1"
      using insert_entry_run [OF b1(1) a(2) b1(2) ok1, of k] by blast
    show ?thesis
    proof (cases "snd (map_insert k c m)")
      case True
      then have b2: "stored_abstract s2 b (Chunk_map (fst (map_insert k c m))) (B \<union> S)" "becomes s B s2 (B \<union> S)"
        using ins(2) becomes_trans [OF be1 _ st(2)] by simp_all
      have "?act s = go s2" using new(1) a(1) ins(1) True by (simp add: run_simps)
      from leaves_after [where act' = ?act and s = s, OF go [OF b2(1) becomes_ok [OF b2(2)]] b2(2) st(2) this] show ?thesis
        using None True by simp
    next
      case False
      let ?s = "drop_blocks S s1"
      have "delete_obj n a s1 = Inr ((), ?s)" using delete_obj_run [OF f(2)] a(2) by (simp add: deletes_def)
      then have "?act s = Inr (Some dup, ?s)" using new(1) a(1) ins False by (simp add: run_simps)
      moreover have "B \<union> S - S = B" using b1(2) by auto
      with becomes_drop [OF ok1, of S "B \<union> S"] have "becomes s1 (B \<union> S) ?s B" by simp
      with becomes_trans [OF be1 _ st(2)] have "becomes s B ?s B" by blast
      moreover have "stored_abstract ?s b (Chunk_map m) B"
        by (rule abstract_frame [OF b1(1)]) (use b1(2) in auto)
      ultimately show ?thesis using None False map_insert_same [OF False]
        by (intro leavesI [where s' = ?s and S' = B]) simp_all
    qed
  qed
qed

lemma map_loop_leaves:
  assumes "\<And>v off'. length v \<le> length str \<Longrightarrow> sets (set_str_obj mem n v off' p) (set_str mem v off' p) n"
    and "length str < n" "stored_abstract s b (Chunk_map m) B" "store_ok s"
  shows "leaves (map_loop_obj mem n inp off p i str b) s B
    (\<lambda>s' B'. stored_abstract s' b (Chunk_map (snd (map_loop mem inp off p i str m))) B')
    (fst (map_loop mem inp off p i str m))"
  using assms
proof (induction str arbitrary: i m s B rule: length_induct)
  case (1 str)
  note st = "1.prems"(3,4)
  note unfold = map_loop_obj.simps [of mem n inp off p i str b] map_loop.simps [of mem inp off p i str m]
  show ?case
  proof (cases "cur (fst (skip str)) = CHR ''=''")
    case True
    show ?thesis unfolding unfold using True st by (simp add: throw_leaves)
  next
    case noeq: False
    show ?thesis
    proof (cases "getkeyval mem str")
      case (Inl e)
      show ?thesis unfolding unfold using noeq Inl st by (simp add: throw_leaves)
    next
      case (Inr res)
      obtain k v r rr vs ks where res: "res = (k, v, r, rr, vs, ks)" by (cases res) auto
      note len = getkeyval_len [OF Inr [unfolded res]]
      define go where "go = (if r = [] then doneM else map_loop_obj mem n inp off p (i + rr) r b)"
      define out where "out m' = (if r = [] then (None, m') else map_loop mem inp off p (i + rr) r m')" for m'
      have go: "leaves go s' B' (\<lambda>s' B'. stored_abstract s' b (Chunk_map (snd (out m'))) B') (fst (out m'))"
        if "stored_abstract s' b (Chunk_map m') B'" "store_ok s'" for m' s' B'
      proof (cases "r = []")
        case True
        then show ?thesis using that by (simp add: go_def out_def done_leaves)
      next
        case False
        then show ?thesis using "1.IH" [rule_format, OF len(2) _ _ that] "1.prems"(1,2) len(2)
          by (simp add: go_def out_def)
      qed
      show ?thesis
      proof (cases "k = []")
        case True
        with go [OF st] show ?thesis unfolding unfold using noeq Inr res
          by (simp add: Let_def go_def out_def split: if_splits)
      next
        case key: False
        obtain e c where c: "set_str mem v (off + (i + vs)) p = (e, c)" by force
        have f: "sets (\<lambda>chk. set_str_obj mem n v (off + (i + vs)) p chk) (e, c) n"
          using "1.prems"(1) [OF len(1), of "off + (i + vs)"] c by simp
        have d: "depth c \<le> n" "1 \<le> n"
          using depth_text [of mem v "off + (i + vs)" p] c len(1) "1.prems"(2) by auto
        let ?h = "catch_format (\<lambda>w src q. Format_error (cstr w) [] inp (q + (i + vs)))"
        let ?dup = "?h (Format_error (''Key '' @ [squote] @ k @ [squote] @ '' already present'') [] inp (i + ks))"
        have heap: "map_loop_obj mem n inp off p i str b =
            bindM (new_from (\<lambda>chk. set_str_obj mem n v (off + (i + vs)) p chk)) (\<lambda>r. case r of Inl x \<Rightarrow> throwM (?h x)
            | Inr chk \<Rightarrow> bindM (insert_entry b k chk) (\<lambda>second.
                if \<not> second then bindM (delete_obj n chk) (\<lambda>_. throwM ?dup) else go))"
          unfolding unfold(1) go_def using noeq Inr res key by (simp add: Let_def)
        have tree: "map_loop mem inp off p i str m = (case e of Some x \<Rightarrow> (Some (?h x), m)
            | None \<Rightarrow> if \<not> snd (map_insert k c m) then (Some ?dup, fst (map_insert k c m))
                else out (fst (map_insert k c m)))"
          unfolding unfold(2) out_def using noeq Inr res key c
          by (cases e; cases "map_insert k c m") (simp_all add: Let_def from_set_def)
        show ?thesis unfolding heap tree by (rule map_value_leaves [OF f d st go])
      qed
    qed
  qed
qed

lemma item_value_leaves:
  assumes f: "sets f (e, c) n" "1 \<le> n"
    and st: "stored_abstract s b (Chunk_list l) B" "store_ok s"
    and go: "\<And>s' B'. stored_abstract s' b (Chunk_list (l @ [c])) B' \<Longrightarrow> store_ok s' \<Longrightarrow>
      leaves go s' B' (\<lambda>s' B'. stored_abstract s' b (Chunk_list (snd out)) B') (fst out)"
  shows "leaves (bindM (new_from f) (\<lambda>r. case r of Inl x \<Rightarrow> throwM (h x)
      | Inr chk \<Rightarrow> bindM (append_item b chk) (\<lambda>_. go))) s B
    (\<lambda>s' B'. stored_abstract s' b (Chunk_list (snd (case e of Some x \<Rightarrow> (Some (h x), l) | None \<Rightarrow> out))) B')
    (fst (case e of Some x \<Rightarrow> (Some (h x), l) | None \<Rightarrow> out))"
proof -
  let ?act = "bindM (new_from f) (\<lambda>r. case r of Inl x \<Rightarrow> throwM (h x)
      | Inr chk \<Rightarrow> bindM (append_item b chk) (\<lambda>_. go))"
  from new_from_run [OF f(1) st(2) f(2)] obtain x s1 S where new: "new_from f s = Inr (x, s1)"
    "becomes s {} s1 S" "case e of None \<Rightarrow> (\<exists>a. x = Inr a \<and> stored s1 a c S)
      | Some y \<Rightarrow> x = Inl y \<and> S \<subseteq> dom (cells s1) \<and> (m_achunk c \<noteq> None \<longrightarrow> S \<noteq> {})" by auto
  show ?thesis
  proof (cases e)
    case (Some y)
    then have S: "S \<subseteq> dom (cells s1)" "x = Inl y" using new(3) by auto
    have "leaves (bindM (new_from f) (\<lambda>_. throwM (h y))) s B
        (\<lambda>s' B'. stored_abstract s' b (Chunk_list l) B') (Some (h y))"
      by (rule leak_leaves [OF new(1,2) S(1) st])
    then show ?thesis using Some new(1) S(2) by (simp add: leaves_def run_simps)
  next
    case None
    then obtain a where a: "x = Inr a" "stored s1 a c S" using new(3) by auto
    have b1: "stored_abstract s1 b (Chunk_list l) B" "S \<inter> B = {}"
      using becomes_abstract [OF new(2) st(1) _ st(2)] by auto
    have be1: "becomes s B s1 (B \<union> S)"
      by (rule becomes_new [OF new(2)]) (use abstract_below [OF st] in blast)
    obtain s2 where ins: "append_item b a s1 = Inr ((), s2)"
      "stored_abstract s2 b (Chunk_list (l @ [c])) (B \<union> S)" "becomes s1 (B \<union> S) s2 (B \<union> S)"
      using append_item_run [OF b1(1) a(2) b1(2) becomes_ok [OF new(2)]] by blast
    have be2: "becomes s B s2 (B \<union> S)" by (rule becomes_trans [OF be1 ins(3) st(2)])
    have "?act s = go s2" using new(1) a(1) ins(1) by (simp add: run_simps)
    from leaves_after [where act' = ?act and s = s, OF go [OF ins(2) becomes_ok [OF be2]] be2 st(2) this] show ?thesis
      using None by simp
  qed
qed

lemma list_loop_leaves:
  assumes "\<And>v off'. length v \<le> length str \<Longrightarrow> sets (set_str_obj mem n v off' p) (set_str mem v off' p) n"
    and "1 \<le> n" "stored_abstract s b (Chunk_list l) B" "store_ok s"
  shows "leaves (list_loop_obj mem n inp off p i str b) s B
    (\<lambda>s' B'. stored_abstract s' b (Chunk_list (snd (list_loop mem inp off p i str l))) B')
    (fst (list_loop mem inp off p i str l))"
  using assms
proof (induction str arbitrary: i l s B rule: length_induct)
  case (1 str)
  note st = "1.prems"(3,4)
  note unfold = list_loop_obj.simps [of mem n inp off p i str b] list_loop.simps [of mem inp off p i str l]
  show ?case
  proof (cases "getstrval mem str CHR '','' CHR '';''")
    case (Inl e)
    show ?thesis unfolding unfold using Inl st by (simp add: throw_leaves)
  next
    case (Inr res)
    obtain v r rp vs f where res: "res = (v, r, rp, vs, f)" by (cases res) auto
    note len = getstrval_len(1,2) [OF Inr [unfolded res]]
    define go where "go = (if r = [] then doneM else list_loop_obj mem n inp off p (i + rp) r b)"
    define out where "out l' = (if r = [] then (None, l') else list_loop mem inp off p (i + rp) r l')" for l'
    have go: "leaves go s' B' (\<lambda>s' B'. stored_abstract s' b (Chunk_list (snd (out l'))) B') (fst (out l'))"
      if "stored_abstract s' b (Chunk_list l') B'" "store_ok s'" for l' s' B'
    proof (cases "r = []")
      case True
      then show ?thesis using that by (simp add: go_def out_def done_leaves)
    next
      case False
      then show ?thesis using "1.IH" [rule_format, OF len(2) _ _ that] "1.prems"(1,2) len(2)
        by (simp add: go_def out_def)
    qed
    obtain e c where c: "set_str mem v (off + (i + vs)) p = (e, c)" by force
    have f: "sets (\<lambda>chk. set_str_obj mem n v (off + (i + vs)) p chk) (e, c) n"
      using "1.prems"(1) [of v "off + (i + vs)"] len(1) c by simp
    let ?h = "catch_format (\<lambda>w src q. Format_error (cstr w) (cstr src) inp (q + (i + vs)))"
    have heap: "list_loop_obj mem n inp off p i str b =
        bindM (new_from (\<lambda>chk. set_str_obj mem n v (off + (i + vs)) p chk)) (\<lambda>r. case r of Inl x \<Rightarrow> throwM (?h x)
        | Inr chk \<Rightarrow> bindM (append_item b chk) (\<lambda>_. go))"
      unfolding unfold(1) go_def using Inr res by (simp add: Let_def)
    have tree: "list_loop mem inp off p i str l = (case e of Some x \<Rightarrow> (Some (?h x), l) | None \<Rightarrow> out (l @ [c]))"
      unfolding unfold(2) out_def using Inr res c by (cases e) (simp_all add: Let_def from_set_def)
    show ?thesis unfolding heap tree by (rule item_value_leaves [OF f "1.prems"(2) st go])
  qed
qed

text \<open>The call on the cleared object, by the content it makes.\<close>

lemma content_leaves:
  assumes "cells s a = Some (Obj p off None)" "store_ok s"
    and "stored_abstract (alloc blk s) (fresh s) x {fresh s}"
    and "\<And>s'. stored_abstract s' (fresh s) x {fresh s} \<Longrightarrow> store_ok s' \<Longrightarrow>
      leaves (act (fresh s)) s' {fresh s} (\<lambda>s' B'. stored_abstract s' (fresh s) y B') e"
  shows "leaves (bindM (new_block blk) (\<lambda>t. bindM (put_block a (Obj p off (Some t))) (\<lambda>_. act t)))
    s {a} (\<lambda>s' S'. stored s' a (Chunkdat p off (Some y)) S') e"
proof -
  let ?s = "put_cell a (Obj p off (Some (fresh s))) (alloc blk s)"
  note new = fresh_content [OF assms(1,2,3)]
  have ok: "store_ok ?s" by (rule becomes_ok [OF new(2)])
  obtain s' B L where 1: "act (fresh s) ?s = Inr (e, s')" "stored_abstract s' (fresh s) y B" "B \<inter> L = {}" "L \<subseteq> dom (cells s')"
    "becomes ?s {fresh s} s' (B \<union> L)" "e = None \<longrightarrow> L = {}"
    using assms(4) [OF new(1) ok] unfolding leaves_def by blast
  have a: "a < fresh ?s" using assms(1,2) by simp (metis less_Suc_eq not_le option.distinct(1) store_ok_def)
  have same: "cells s' a = Some (Obj p off (Some (fresh s)))" "a \<notin> B \<union> L"
    using becomes_same [OF 1(5), of a] new(4) a by auto
  then have "stored s' a (Chunkdat p off (Some y)) (insert a B)"
    unfolding stored_some using 1(2) by auto
  moreover have "becomes ?s {a, fresh s} s' (insert a B \<union> L)"
    using becomes_frame [OF 1(5), of "{a}"] new(4) a by (simp add: insert_commute)
  with becomes_trans [OF new(2) _ assms(2)] have "becomes s {a} s' (insert a B \<union> L)" by blast
  moreover have "bindM (new_block blk) (\<lambda>t. bindM (put_block a (Obj p off (Some t))) (\<lambda>_. act t)) s
      = Inr (e, s')" using assms(1) new(4) 1(1) by (simp add: run_simps)
  moreover have "insert a B \<inter> L = {}" using 1(3) same(2) by auto
  ultimately show ?thesis using 1(4,6) unfolding leaves_def by blast
qed

text \<open>What is left to do once the object is cleared.\<close>

definition parse_body :: "(string \<Rightarrow> string) \<Rightarrow> nat \<Rightarrow> string \<Rightarrow> int \<Rightarrow> nat option \<Rightarrow> addr \<Rightarrow> exn option mem" where
  "parse_body mem n inp off p a = (case getstrval mem inp nul nul of Inl e \<Rightarrow> throwM e
     | Inr (str, rest, i, j, _) \<Rightarrow>
      if str = [] then
        bindM (new_block (Str [])) (\<lambda>cv. bindM (put_block a (Obj p off (Some cv))) (\<lambda>_. doneM))
      else if hd str = CHR ''{'' then
        (let q = skip rest in
         if fst q \<noteq> [] then throwM (Format_error ''Unexpected char'' [] inp (i + int (snd q)))
         else if tl str = [] then throwM Undefined
         else
           (let str = butlast (tl str); i = j + 1 in
            bindM (new_block (Entries [])) (\<lambda>tch.
            bindM (put_block a (Obj p off (Some tch))) (\<lambda>_.
            if fst (skip str) = [] then doneM else map_loop_obj mem n inp off p i str tch))))
      else if hd str = CHR ''['' then
        (let q = skip rest in
         if fst q \<noteq> [] then throwM (Format_error ''Unexpected char'' [] inp (i + int (snd q)))
         else if tl str = [] then throwM Undefined
         else
           (let str = butlast (tl str); i = j + 1 in
            bindM (new_block (Items [])) (\<lambda>tch.
            bindM (put_block a (Obj p off (Some tch))) (\<lambda>_.
            if fst (skip str) = [] then doneM else list_loop_obj mem n inp off p i str tch))))
      else
        bindM (new_block (Str inp)) (\<lambda>cv. bindM (put_block a (Obj p off (Some cv))) (\<lambda>_. doneM)))"

lemma new_map_leaves:
  assumes IH: "\<And>v off'. length v < length inp \<Longrightarrow> sets (set_str_obj mem n v off' p) (set_str mem v off' p) n"
    and n: "length inp < n" and a: "cells s a = Some (Obj p off None)" and ok: "store_ok s" and str: "length str < length inp"
  shows "leaves (bindM (new_block (Entries [])) (\<lambda>t. bindM (put_block a (Obj p off (Some t))) (\<lambda>_.
        if c then doneM else map_loop_obj mem n inp off p i str t))) s {a}
      (\<lambda>s' S'. stored s' a (Chunkdat p off (Some (Chunk_map (snd (if c then (None, []) else map_loop mem inp off p i str []))))) S')
      (fst (if c then (None, []) else map_loop mem inp off p i str []))"
proof (rule content_leaves [OF a ok, where x = "Chunk_map []"])
  fix s' assume "stored_abstract s' (fresh s) (Chunk_map []) {fresh s}" "store_ok s'"
  then show "leaves (if c then doneM else map_loop_obj mem n inp off p i str (fresh s)) s' {fresh s}
      (\<lambda>s' B'. stored_abstract s' (fresh s) (Chunk_map (snd (if c then (None, []) else map_loop mem inp off p i str []))) B')
      (fst (if c then (None, []) else map_loop mem inp off p i str []))"
    using map_loop_leaves [of str mem n p s' "fresh s" "[]" "{fresh s}" inp off i] str n IH
    by (cases c) (simp_all add: done_leaves)
qed (simp add: stored_abstract_simps)

lemma new_list_leaves:
  assumes IH: "\<And>v off'. length v < length inp \<Longrightarrow> sets (set_str_obj mem n v off' p) (set_str mem v off' p) n"
    and n: "length inp < n" and a: "cells s a = Some (Obj p off None)" and ok: "store_ok s" and str: "length str < length inp"
  shows "leaves (bindM (new_block (Items [])) (\<lambda>t. bindM (put_block a (Obj p off (Some t))) (\<lambda>_.
        if c then doneM else list_loop_obj mem n inp off p i str t))) s {a}
      (\<lambda>s' S'. stored s' a (Chunkdat p off (Some (Chunk_list (snd (if c then (None, []) else list_loop mem inp off p i str []))))) S')
      (fst (if c then (None, []) else list_loop mem inp off p i str []))"
proof (rule content_leaves [OF a ok, where x = "Chunk_list []"])
  fix s' assume "stored_abstract s' (fresh s) (Chunk_list []) {fresh s}" "store_ok s'"
  then show "leaves (if c then doneM else list_loop_obj mem n inp off p i str (fresh s)) s' {fresh s}
      (\<lambda>s' B'. stored_abstract s' (fresh s) (Chunk_list (snd (if c then (None, []) else list_loop mem inp off p i str []))) B')
      (fst (if c then (None, []) else list_loop mem inp off p i str []))"
    using list_loop_leaves [of str mem n p s' "fresh s" "[]" "{fresh s}" inp off i] str n IH
    by (cases c) (simp_all add: done_leaves)
qed (simp add: stored_abstract_simps)

lemma parse_body_leaves:
  assumes IH: "\<And>v off'. length v < length inp \<Longrightarrow> sets (set_str_obj mem n v off' p) (set_str mem v off' p) n"
    and n: "length inp < n" and a: "cells s a = Some (Obj p off None)" and ok: "store_ok s"
  shows "leaves (parse_body mem n inp off p a) s {a} (\<lambda>s' S'. stored s' a (snd (set_str mem inp off p)) S')
    (fst (set_str mem inp off p))"
proof -
  have throw: "leaves (throwM e) s {a} (\<lambda>s' S'. stored s' a (Chunkdat p off None) S') (Some e)" for e
    by (rule throw_leaves [OF ok]) (simp add: a)
  have leaf: "leaves (bindM (new_block (Str v)) (\<lambda>cv. bindM (put_block a (Obj p off (Some cv))) (\<lambda>_. doneM))) s {a}
      (\<lambda>s' S'. stored s' a (Chunkdat p off (Some (Chunk_string v))) S') None" for v
    by (rule content_leaves [OF a ok, where x = "Chunk_string v"]) (simp_all add: done_leaves)
  show ?thesis
  proof (cases "getstrval mem inp nul nul")
    case (Inl e)
    then show ?thesis using throw by (simp add: parse_body_def set_str.simps [of mem inp off p])
  next
    case (Inr res)
    obtain str rest i j f where res: "res = (str, rest, i, j, f)" by (cases res) auto
    have len: "length (butlast (tl str)) < length inp" if "tl str \<noteq> []"
      using text_shrinks [OF Inr [unfolded res] that] by simp
    note known = parse_body_def set_str.simps [of mem inp off p] Inr res
    consider (plain) "str = [] \<or> hd str \<noteq> CHR ''{'' \<and> hd str \<noteq> CHR ''[''"
      | (rest) "str \<noteq> []" "hd str = CHR ''{'' \<or> hd str = CHR ''[''" "fst (skip rest) \<noteq> [] \<or> tl str = []"
      | (is_map) "str \<noteq> []" "hd str = CHR ''{''" "fst (skip rest) = []" "tl str \<noteq> []"
      | (is_list) "str \<noteq> []" "hd str = CHR ''[''" "fst (skip rest) = []" "tl str \<noteq> []" by blast
    then show ?thesis
    proof cases
      case plain
      then show ?thesis using leaf by (cases "str = []") (simp_all add: known)
    next
      case rest
      then show ?thesis using throw by (cases "fst (skip rest) = []") (auto simp: known Let_def simp del: stored_simps(1))
    next
      case is_map
      let ?c = "fst (skip (butlast (tl str))) = []"
      have "set_str mem inp off p = (fst (if ?c then (None, []) else map_loop mem inp off p (j + 1) (butlast (tl str)) []),
          Chunkdat p off (Some (Chunk_map (snd (if ?c then (None, []) else map_loop mem inp off p (j + 1) (butlast (tl str)) [])))))"
        using is_map by (simp add: known Let_def split: prod.splits)
      moreover have "parse_body mem n inp off p a = bindM (new_block (Entries [])) (\<lambda>t. bindM (put_block a (Obj p off (Some t))) (\<lambda>_.
          if ?c then doneM else map_loop_obj mem n inp off p (j + 1) (butlast (tl str)) t))"
        using is_map by (simp add: known Let_def)
      ultimately show ?thesis using new_map_leaves [OF IH n a ok len [OF is_map(4)], of ?c "j + 1"] by simp
    next
      case is_list
      let ?c = "fst (skip (butlast (tl str))) = []"
      have "set_str mem inp off p = (fst (if ?c then (None, []) else list_loop mem inp off p (j + 1) (butlast (tl str)) []),
          Chunkdat p off (Some (Chunk_list (snd (if ?c then (None, []) else list_loop mem inp off p (j + 1) (butlast (tl str)) [])))))"
        using is_list by (simp add: known Let_def split: prod.splits)
      moreover have "parse_body mem n inp off p a = bindM (new_block (Items [])) (\<lambda>t. bindM (put_block a (Obj p off (Some t))) (\<lambda>_.
          if ?c then doneM else list_loop_obj mem n inp off p (j + 1) (butlast (tl str)) t))"
        using is_list by (simp add: known Let_def)
      ultimately show ?thesis using new_list_leaves [OF IH n a ok len [OF is_list(4)], of ?c "j + 1"] by simp
    qed
  qed
qed

lemma set_str_obj_run: "length inp < n \<Longrightarrow> sets (set_str_obj mem n inp off p) (set_str mem inp off p) n"
proof (induction inp arbitrary: off rule: length_induct)
  case (1 inp)
  have IH: "sets (set_str_obj mem n v off' p) (set_str mem v off' p) n" if "length v < length inp" for v off'
    using "1.IH" that "1.prems" by simp
  show ?case unfolding sets_def
  proof (intro allI impI)
    fix s a d S assume d: "stored s a d S" and ok: "store_ok s" and n: "depth d \<le> n"
    let ?s1 = "put_cell a (Obj (m_parent d) (m_offset d) None) (drop_blocks (S - {a}) s)"
    let ?s2 = "put_cell a (Obj p off None) ?s1"
    have "\<forall>e \<in> set (children d). deletes (delete_obj n) e"
      using n depth_children by (meson delete_obj_run less_imp_le order_trans)
    then have clear: "clear_obj n a s = Inr ((), ?s1)" using clear_with_run [OF _ d] by (simp add: clear_obj_def)
    have b1: "becomes s S ?s1 {a}" by (rule clear_becomes [OF d ok])
    have "a < fresh ?s1" using stored_head [OF d ok] by simp
    then have "becomes ?s1 {a} ?s2 {a}" by (intro becomes_put [OF becomes_ok [OF b1]]) auto
    then have b2: "becomes s S ?s2 {a}" using becomes_trans [OF b1 _ ok] by blast
    have "set_str_obj mem n inp off p a s = parse_body mem n inp off p a ?s2"
      using clear by (simp add: set_str_obj.simps [of mem n inp off p a] parse_body_def run_simps)
    moreover have "leaves (parse_body mem n inp off p a) ?s2 {a} (\<lambda>s' S'. stored s' a (snd (set_str mem inp off p)) S')
        (fst (set_str mem inp off p))"
      by (rule parse_body_leaves [OF IH "1.prems" _ becomes_ok [OF b2]]) simp_all
    ultimately show "leaves (set_str_obj mem n inp off p a) s S (\<lambda>s' S'. stored s' a (snd (set_str mem inp off p)) S')
        (fst (set_str mem inp off p))"
      using leaves_after [where act' = "set_str_obj mem n inp off p a" and s = s] b2 ok by blast
  qed
qed

section \<open>Properties\<close>

lemma becomes_dom: "becomes s {} s' S \<Longrightarrow> S \<subseteq> dom (cells s') \<Longrightarrow> store_ok s \<Longrightarrow>
    dom (cells s') = dom (cells s) \<union> S \<and> dom (cells s) \<inter> S = {}"
proof -
  assume b: "becomes s {} s' S" and S: "S \<subseteq> dom (cells s')" and ok: "store_ok s"
  have out: "cells s' x = cells s x" if "x \<notin> S" for x using b that by (simp add: becomes_def)
  have new: "cells s x = None" if "x \<in> S" for x
    using b ok that by (auto simp: becomes_def store_ok_def)
  have "x \<in> dom (cells s') \<longleftrightarrow> x \<in> dom (cells s) \<union> S" for x
    using out [of x] S by (cases "x \<in> S") (auto simp: domIff)
  then show ?thesis using new by (auto simp: domIff)
qed

text \<open>C16: A constructor from text that returns owns every block it has allocated. One
  that throws frees only the object itself: what it had built by then, at the least the map or
  the list it was filling, stays allocated, and nothing points to it.\<close>

theorem constructor_blocks:
  assumes "store_ok s" "length inp < n"
  shows "\<exists>r s' S. new_of_string mem n inp off p s = Inr (r, s') \<and>
    dom (cells s') = dom (cells s) \<union> S \<and> dom (cells s) \<inter> S = {} \<and>
    (case set_str mem inp off p of
       (None, c) \<Rightarrow> (\<exists>a. r = Inr a \<and> stored s' a c S)
     | (Some e, c) \<Rightarrow> r = Inl e \<and> (m_achunk c \<noteq> None \<longrightarrow> S \<noteq> {}))"
proof -
  obtain e c where c: "set_str mem inp off p = (e, c)" by force
  have "sets (set_str_obj mem n inp off p) (e, c) n" using set_str_obj_run [OF assms(2)] c by metis
  from new_from_run [OF this assms(1)] assms(2) obtain r s' S where *: "new_of_string mem n inp off p s = Inr (r, s')"
    "becomes s {} s' S" "case e of None \<Rightarrow> (\<exists>a. r = Inr a \<and> stored s' a c S)
      | Some x \<Rightarrow> r = Inl x \<and> S \<subseteq> dom (cells s') \<and> (m_achunk c \<noteq> None \<longrightarrow> S \<noteq> {})"
    by (auto simp: new_of_string_def)
  have "S \<subseteq> dom (cells s')" using *(3) stored_allocated [of s' _ c S] by (cases e) auto
  with becomes_dom [OF *(2) _ assms(1)] *(1,3) c show ?thesis
    by (intro exI [of _ r] exI [of _ s'] exI [of _ S]) (cases e; simp)
qed

theorem constructor_blocks_witness:
  "\<exists>r s' S. new_of_string (\<lambda>_. ''x'') 6 ''{=b}'' 0 None \<lparr>cells = (\<lambda>_. None), fresh = 0\<rparr> = Inr (r, s') \<and>
    dom (cells s') = S \<and> (\<exists>e. r = Inl e) \<and> S \<noteq> {}"
proof -
  have "set_str (\<lambda>_. ''x'') ''{=b}'' 0 None =
    (Some (Format_error ''Value has no key'' [] ''{=b}'' 1), Chunkdat None 0 (Some (Chunk_map [])))"
    by code_simp
  then show ?thesis
    using constructor_blocks [of "\<lparr>cells = (\<lambda>_. None), fresh = 0\<rparr>" "''{=b}''" 6 "\<lambda>_. ''x''" 0 None]
    by (auto simp: store_ok_def)
qed

end
