(* ===== verification/Chunk_Client.thy ===== *)
theory Chunk_Client
  imports Chunk_Text Objects
begin

text \<open>
  Programs that work with \<open>chunkdat\<close> objects: they create objects, empty or from text, copy and
  destroy them and call the member functions on them or, through the references \<open>subChunkRef\<close>
  returns, on objects inside them, with texts or arguments out of other objects. A program run on
  the store of Chunk_Heap does what it does on trees, never touches a deleted object, and owns
  every block once: what it has not destroyed is all that is left, but for the blocks that a
  parse has leaked when it threw.
\<close>

section \<open>Programs\<close>

datatype selector = At_key string | At_index "32 word"

type_synonym reference = "nat \<times> selector list"

datatype command =
    Create nat
  | Create_text nat string
  | Copy nat reference
  | Destroy nat
  | Clear reference
  | Assign_text reference string
  | Assign reference reference
  | AddKey reference string reference
  | AddItem reference reference
  | Concatenate reference reference
  | Merge bool reference reference
  | EraseKey reference string
  | EraseIndex reference "32 word"

section \<open>On trees\<close>

type_synonym objects = "nat \<Rightarrow> chunkdat option"

fun part_of :: "selector list \<Rightarrow> chunkdat \<Rightarrow> chunkdat option" where
  "part_of [] c = Some c"
| "part_of (At_key k # p) c = (case subChunkPtr_key k c of None \<Rightarrow> None | Some d \<Rightarrow> part_of p d)"
| "part_of (At_index i # p) c = (case subChunkPtr_index i c of None \<Rightarrow> None | Some d \<Rightarrow> part_of p d)"

definition part_key :: "string \<Rightarrow> chunkdat \<Rightarrow> chunkdat \<Rightarrow> chunkdat" where
  "part_key k x c = (case m_achunk c of Some (Chunk_map m) \<Rightarrow> set_achunk (Chunk_map (map_assign k x m)) c | _ \<Rightarrow> c)"

definition part_index :: "32 word \<Rightarrow> chunkdat \<Rightarrow> chunkdat \<Rightarrow> chunkdat" where
  "part_index i x c = (case m_achunk c of Some (Chunk_list l) \<Rightarrow> set_achunk (Chunk_list (l[unat i := x])) c | _ \<Rightarrow> c)"

fun replace_part :: "selector list \<Rightarrow> chunkdat \<Rightarrow> chunkdat \<Rightarrow> chunkdat" where
  "replace_part [] x c = x"
| "replace_part (At_key k # p) x c =
     (case subChunkPtr_key k c of None \<Rightarrow> c | Some d \<Rightarrow> part_key k (replace_part p x d) c)"
| "replace_part (At_index i # p) x c =
     (case subChunkPtr_index i c of None \<Rightarrow> c | Some d \<Rightarrow> part_index i (replace_part p x d) c)"

definition object_at :: "reference \<Rightarrow> objects \<Rightarrow> chunkdat option" where
  "object_at r \<sigma> = (case \<sigma> (fst r) of None \<Rightarrow> None | Some c \<Rightarrow> part_of (snd r) c)"

definition change_tree :: "reference \<Rightarrow> (chunkdat \<Rightarrow> outcome) \<Rightarrow> objects \<Rightarrow> (exn option \<times> objects) option" where
  "change_tree r f \<sigma> =
     (case \<sigma> (fst r) of None \<Rightarrow> None
      | Some c \<Rightarrow>
          (case part_of (snd r) c of None \<Rightarrow> None
           | Some d \<Rightarrow> Some (fst (f d), \<sigma>(fst r \<mapsto> replace_part (snd r) (snd (f d)) c))))"

definition apply_tree :: "(chunkdat \<Rightarrow> chunkdat \<Rightarrow> outcome) \<Rightarrow> reference \<Rightarrow> reference \<Rightarrow> objects
    \<Rightarrow> (exn option \<times> objects) option" where
  "apply_tree f r q \<sigma> =
     (if fst r = fst q then None
      else case object_at q \<sigma> of None \<Rightarrow> None | Some c \<Rightarrow> change_tree r (f c) \<sigma>)"

text \<open>
  \<open>None\<close>: a reference to nothing, or an argument out of the object itself. A constructor from
  text that throws makes no object. \<open>mem\<close> are the bytes behind a string, which the parser may read.
\<close>

fun exec_tree :: "(string \<Rightarrow> string) \<Rightarrow> command \<Rightarrow> objects \<Rightarrow> (exn option \<times> objects) option" where
  "exec_tree mem (Create v) \<sigma> = (if \<sigma> v = None then Some (None, \<sigma>(v \<mapsto> new_chunkdat)) else None)"
| "exec_tree mem (Create_text v str) \<sigma> =
     (if \<sigma> v \<noteq> None then None
      else case chunkdat_of_string mem str 0 None of
        Inl e \<Rightarrow> Some (Some e, \<sigma>)
      | Inr c \<Rightarrow> Some (None, \<sigma>(v \<mapsto> c)))"
| "exec_tree mem (Copy v q) \<sigma> =
     (if \<sigma> v \<noteq> None then None
      else case object_at q \<sigma> of None \<Rightarrow> None | Some c \<Rightarrow> Some (None, \<sigma>(v \<mapsto> copy_chunk c)))"
| "exec_tree mem (Destroy v) \<sigma> = (if \<sigma> v = None then None else Some (None, \<sigma>(v := None)))"
| "exec_tree mem (Clear r) \<sigma> = change_tree r (\<lambda>d. (None, clear_chunk d)) \<sigma>"
| "exec_tree mem (Assign_text r str) \<sigma> = change_tree r (\<lambda>d. set_str mem str 0 None) \<sigma>"
| "exec_tree mem (Assign r q) \<sigma> = apply_tree (\<lambda>c d. (None, set_chunk c d)) r q \<sigma>"
| "exec_tree mem (AddKey r k q) \<sigma> = apply_tree (\<lambda>c d. addToMap (k, c) d) r q \<sigma>"
| "exec_tree mem (AddItem r q) \<sigma> = apply_tree addToList r q \<sigma>"
| "exec_tree mem (Concatenate r q) \<sigma> = apply_tree concatenate r q \<sigma>"
| "exec_tree mem (Merge ow r q) \<sigma> = apply_tree (merge ow) r q \<sigma>"
| "exec_tree mem (EraseKey r k) \<sigma> = change_tree r (erase_key k) \<sigma>"
| "exec_tree mem (EraseIndex r i) \<sigma> = change_tree r (erase_index i) \<sigma>"

text \<open>The exceptions of the calls, in order, and the objects at the end.\<close>

fun run_tree :: "(string \<Rightarrow> string) \<Rightarrow> command list \<Rightarrow> objects \<Rightarrow> (exn option list \<times> objects) option" where
  "run_tree mem [] \<sigma> = Some ([], \<sigma>)"
| "run_tree mem (cmd # cmds) \<sigma> =
     (case exec_tree mem cmd \<sigma> of None \<Rightarrow> None
      | Some (e, \<sigma>') \<Rightarrow> (case run_tree mem cmds \<sigma>' of None \<Rightarrow> None | Some (es, \<sigma>'') \<Rightarrow> Some (e # es, \<sigma>'')))"

text \<open>Every call that parses a text has returned.\<close>

fun is_text :: "command \<Rightarrow> bool" where
  "is_text (Create_text v str) = True"
| "is_text (Assign_text r str) = True"
| "is_text _ = False"

definition parsed :: "command list \<Rightarrow> exn option list \<Rightarrow> bool" where
  "parsed cmds es \<longleftrightarrow> list_all2 (\<lambda>cmd e. is_text cmd \<longrightarrow> e = None) cmds es"

section \<open>On the store\<close>

type_synonym variables = "nat \<Rightarrow> addr option"

text \<open>\<open>operator[]\<close>, applied along a path.\<close>

fun locate :: "selector list \<Rightarrow> addr \<Rightarrow> addr mem" where
  "locate [] a = returnM a"
| "locate (At_key k # p) a =
     bindM (subChunkPtr_key_obj k a) (\<lambda>r. case r of None \<Rightarrow> faultM Freed | Some x \<Rightarrow> locate p x)"
| "locate (At_index i # p) a =
     bindM (subChunkPtr_index_obj i a) (\<lambda>r. case r of None \<Rightarrow> faultM Freed | Some x \<Rightarrow> locate p x)"

definition on_ref :: "variables \<Rightarrow> reference \<Rightarrow> (addr \<Rightarrow> 'b mem) \<Rightarrow> 'b mem" where
  "on_ref env r f = (case env (fst r) of None \<Rightarrow> faultM Freed | Some a \<Rightarrow> bindM (locate (snd r) a) f)"

definition call :: "variables \<Rightarrow> exn option mem \<Rightarrow> (exn option \<times> variables) mem" where
  "call env act = bindM act (\<lambda>e. returnM (e, env))"

fun exec_heap :: "(string \<Rightarrow> string) \<Rightarrow> nat \<Rightarrow> command \<Rightarrow> variables \<Rightarrow> (exn option \<times> variables) mem" where
  "exec_heap mem n (Create v) env = bindM (new_block (Obj None 0 None)) (\<lambda>a. returnM (None, env(v \<mapsto> a)))"
| "exec_heap mem n (Create_text v str) env =
     bindM (new_of_string mem n str 0 None) (\<lambda>r. case r of
       Inl e \<Rightarrow> returnM (Some e, env)
     | Inr a \<Rightarrow> returnM (None, env(v \<mapsto> a)))"
| "exec_heap mem n (Copy v q) env =
     on_ref env q (\<lambda>i. bindM (pcopy n i) (\<lambda>a. returnM (None, env(v \<mapsto> a))))"
| "exec_heap mem n (Destroy v) env =
     on_ref env (v, []) (\<lambda>a. bindM (delete_obj n a) (\<lambda>_. returnM (None, env(v := None))))"
| "exec_heap mem n (Clear r) env = on_ref env r (\<lambda>a. call env (bindM (clear_obj n a) (\<lambda>_. doneM)))"
| "exec_heap mem n (Assign_text r str) env =
     on_ref env r (\<lambda>a. call env (set_str_obj mem n str 0 None a))"
| "exec_heap mem n (Assign r q) env =
     on_ref env q (\<lambda>i. on_ref env r (\<lambda>a. call env (bindM (set_obj n i a) (\<lambda>_. doneM))))"
| "exec_heap mem n (AddKey r k q) env =
     on_ref env q (\<lambda>i. on_ref env r (\<lambda>a. call env (addToMap_obj n k i a)))"
| "exec_heap mem n (AddItem r q) env =
     on_ref env q (\<lambda>i. on_ref env r (\<lambda>a. call env (addToList_obj n i a)))"
| "exec_heap mem n (Concatenate r q) env =
     on_ref env q (\<lambda>i. on_ref env r (\<lambda>a. call env (concatenate_obj n i a)))"
| "exec_heap mem n (Merge ow r q) env =
     on_ref env q (\<lambda>i. on_ref env r (\<lambda>a. call env (merge_obj n ow i a)))"
| "exec_heap mem n (EraseKey r k) env = on_ref env r (\<lambda>a. call env (erase_key_obj n k a))"
| "exec_heap mem n (EraseIndex r i) env = on_ref env r (\<lambda>a. call env (erase_index_obj n i a))"

fun run_heap :: "(string \<Rightarrow> string) \<Rightarrow> nat \<Rightarrow> command list \<Rightarrow> variables \<Rightarrow> (exn option list \<times> variables) mem" where
  "run_heap mem n [] env = returnM ([], env)"
| "run_heap mem n (cmd # cmds) env =
     bindM (exec_heap mem n cmd env) (\<lambda>(e, env').
     bindM (run_heap mem n cmds env') (\<lambda>(es, env''). returnM (e # es, env'')))"

definition empty_store :: store where
  "empty_store = \<lparr>cells = (\<lambda>_. None), fresh = 0\<rparr>"

section \<open>Parts of stored objects\<close>

text \<open>
  \<open>x\<close> is the address of a part \<open>d\<close> of the object stored at \<open>a\<close>, \<open>V\<close> its blocks and \<open>R\<close> the rest:
  whatever is stored at \<open>x\<close> instead becomes the part.
\<close>

definition holds_part :: "store \<Rightarrow> addr \<Rightarrow> addr set \<Rightarrow> (chunkdat \<Rightarrow> chunkdat) \<Rightarrow> addr \<Rightarrow> chunkdat \<Rightarrow> addr set \<Rightarrow> addr set \<Rightarrow> bool" where
  "holds_part s a S put x d V R \<longleftrightarrow> stored s x d V \<and> S = V \<union> R \<and> V \<inter> R = {} \<and>
     (\<forall>s' d' V'. stored s' x d' V' \<longrightarrow> (\<forall>z \<in> R. cells s' z = cells s z) \<longrightarrow> V' \<inter> R = {} \<longrightarrow>
        stored s' a (put d') (V' \<union> R))"

lemma part_key_holds:
  assumes "stored s a c S" "subChunkPtr_key k c = Some d"
  shows "\<exists>x V R. subChunkPtr_key_obj k a s = Inr (Some x, s) \<and> holds_part s a S (\<lambda>x. part_key k x c) x d V R"
proof -
  obtain p off m where c: "c = Chunkdat p off (Some (Chunk_map m))" and find: "map_find k m = Some d"
    using assms(2) by (cases c rule: chunk_cases) (auto simp: subChunkPtr_key_def)
  obtain b xs U where *: "cells s a = Some (Obj p off (Some b))" "cells s b = Some (Entries xs)"
    "stored_entries s xs m U" "b \<notin> U" "a \<notin> insert b U" "S = insert a (insert b U)"
    using assms(1) unfolding c stored_some stored_abstract_simps by auto
  obtain x V R where e: "map_find k xs = Some x" "stored s x d V" "U = V \<union> R" "V \<inter> R = {}"
    "\<And>s' d' T. stored s' x d' T \<Longrightarrow> \<forall>z \<in> R. cells s' z = cells s z \<Longrightarrow> T \<inter> R = {} \<Longrightarrow>
       stored_entries s' xs (map_assign k d' m) (T \<union> R)"
    using entries_part [OF *(3) find] by metis
  have "stored s' a (part_key k d' c) (V' \<union> insert a (insert b R))"
    if "stored s' x d' V'" "\<forall>z \<in> insert a (insert b R). cells s' z = cells s z" "V' \<inter> insert a (insert b R) = {}" for s' d' V'
  proof -
    have "stored_entries s' xs (map_assign k d' m) (V' \<union> R)" by (rule e(5) [OF that(1)]) (use that in auto)
    then have "stored_abstract s' b (Chunk_map (map_assign k d' m)) (insert b (V' \<union> R))"
      unfolding stored_abstract_simps using *(2,4) e(3) that(2,3) by (intro exI [of _ xs] exI [of _ "V' \<union> R"]) auto
    then have "stored s' a (Chunkdat p off (Some (Chunk_map (map_assign k d' m)))) (insert a (insert b (V' \<union> R)))"
      unfolding stored_some using *(1,5) e(3) that(2,3)
      by (intro exI [of _ b] exI [of _ "insert b (V' \<union> R)"]) auto
    then show ?thesis by (simp add: part_key_def c)
  qed
  moreover have "S = V \<union> insert a (insert b R)" "V \<inter> insert a (insert b R) = {}" using *(4-6) e(3,4) by auto
  ultimately have "holds_part s a S (\<lambda>x. part_key k x c) x d V (insert a (insert b R))"
    using e(2) by (simp add: holds_part_def)
  moreover have "subChunkPtr_key_obj k a s = Inr (Some x, s)"
    using *(1,2) e(1) by (simp add: subChunkPtr_key_obj_def run_simps)
  ultimately show ?thesis by blast
qed

lemma items_part:
  assumes "stored_items s xs l U" "i < length l"
  shows "\<exists>V R. stored s (xs ! i) (l ! i) V \<and> U = V \<union> R \<and> V \<inter> R = {} \<and>
    (\<forall>s' c' T. stored s' (xs ! i) c' T \<longrightarrow> (\<forall>y \<in> R. cells s' y = cells s y) \<longrightarrow> T \<inter> R = {} \<longrightarrow>
       stored_items s' xs (l[i := c']) (T \<union> R))"
  using assms
proof (induction l arbitrary: xs U i)
  case (Cons c l)
  obtain y ys S1 S2 where *: "xs = y # ys" "stored s y c S1" "stored_items s ys l S2" "S1 \<inter> S2 = {}" "U = S1 \<union> S2"
    using Cons.prems(1) by auto
  show ?case
  proof (cases i)
    case 0
    have "stored_items s' xs ((c # l)[i := c']) (T \<union> S2)"
      if "stored s' y c' T" "\<forall>z \<in> S2. cells s' z = cells s z" "T \<inter> S2 = {}" for s' c' T
      using that 0 *(1) items_frame [OF *(3) that(2)] by auto
    with 0 * show ?thesis by (intro exI [of _ S1] exI [of _ S2]) simp
  next
    case (Suc j)
    obtain V R where ih: "stored s (ys ! j) (l ! j) V" "S2 = V \<union> R" "V \<inter> R = {}"
      "\<And>s' c' T. stored s' (ys ! j) c' T \<Longrightarrow> \<forall>z \<in> R. cells s' z = cells s z \<Longrightarrow> T \<inter> R = {} \<Longrightarrow>
         stored_items s' ys (l[j := c']) (T \<union> R)"
      using Cons.IH [OF *(3), of j] Cons.prems(2) Suc by auto
    have "stored_items s' xs ((c # l)[i := c']) (T \<union> (S1 \<union> R))"
      if "stored s' (ys ! j) c' T" "\<forall>z \<in> S1 \<union> R. cells s' z = cells s z" "T \<inter> (S1 \<union> R) = {}" for s' c' T
    proof -
      have "stored s' y c S1" by (rule stored_frame [OF *(2)]) (use that(2) in auto)
      moreover have "stored_items s' ys (l[j := c']) (T \<union> R)" by (rule ih(4)) (use that in auto)
      moreover have "S1 \<inter> (T \<union> R) = {}" using *(4) ih(2) that(3) by auto
      ultimately show ?thesis
        using Suc *(1) by (simp, intro exI [of _ S1] conjI exI [of _ "T \<union> R"]) auto
    qed
    moreover have "U = V \<union> (S1 \<union> R)" "V \<inter> (S1 \<union> R) = {}" using *(4,5) ih(2,3) by auto
    ultimately show ?thesis using Suc ih(1) *(1)
      by (intro exI [of _ V] exI [of _ "S1 \<union> R"]) simp
  qed
qed simp

lemma part_index_holds:
  assumes "stored s a c S" "subChunkPtr_index i c = Some d"
  shows "\<exists>x V R. subChunkPtr_index_obj i a s = Inr (Some x, s) \<and> holds_part s a S (\<lambda>x. part_index i x c) x d V R"
proof -
  obtain p off l where c: "c = Chunkdat p off (Some (Chunk_list l))" and i: "unat i < length l" "l ! unat i = d"
    using assms(2) by (cases c rule: chunk_cases) (auto simp: subChunkPtr_index_def split: if_splits)
  obtain b xs U where *: "cells s a = Some (Obj p off (Some b))" "cells s b = Some (Items xs)"
    "stored_items s xs l U" "b \<notin> U" "a \<notin> insert b U" "S = insert a (insert b U)"
    using assms(1) unfolding c stored_some stored_abstract_simps by auto
  obtain V R where e: "stored s (xs ! unat i) d V" "U = V \<union> R" "V \<inter> R = {}"
    "\<And>s' d' T. stored s' (xs ! unat i) d' T \<Longrightarrow> \<forall>z \<in> R. cells s' z = cells s z \<Longrightarrow> T \<inter> R = {} \<Longrightarrow>
       stored_items s' xs (l[unat i := d']) (T \<union> R)"
    using items_part [OF *(3) i(1)] i(2) by metis
  have "stored s' a (part_index i d' c) (V' \<union> insert a (insert b R))"
    if "stored s' (xs ! unat i) d' V'" "\<forall>z \<in> insert a (insert b R). cells s' z = cells s z"
      "V' \<inter> insert a (insert b R) = {}" for s' d' V'
  proof -
    have "stored_items s' xs (l[unat i := d']) (V' \<union> R)" by (rule e(4) [OF that(1)]) (use that in auto)
    then have "stored_abstract s' b (Chunk_list (l[unat i := d'])) (insert b (V' \<union> R))"
      unfolding stored_abstract_simps using *(2,4) e(2) that(2,3) by (intro exI [of _ xs] exI [of _ "V' \<union> R"]) auto
    then have "stored s' a (Chunkdat p off (Some (Chunk_list (l[unat i := d'])))) (insert a (insert b (V' \<union> R)))"
      unfolding stored_some using *(1,5) e(2) that(2,3)
      by (intro exI [of _ b] exI [of _ "insert b (V' \<union> R)"]) auto
    then show ?thesis by (simp add: part_index_def c)
  qed
  moreover have "S = V \<union> insert a (insert b R)" "V \<inter> insert a (insert b R) = {}" using *(4-6) e(2,3) by auto
  ultimately have "holds_part s a S (\<lambda>x. part_index i x c) (xs ! unat i) d V (insert a (insert b R))"
    using e(1) by (simp add: holds_part_def)
  moreover have "subChunkPtr_index_obj i a s = Inr (Some (xs ! unat i), s)"
    using *(1,2) i stored_items_length [OF *(3)] by (simp add: subChunkPtr_index_obj_def run_simps)
  ultimately show ?thesis by blast
qed

lemma holds_part_trans:
  assumes "holds_part s a S put x d V R" "holds_part s x V put' y e W Q"
  shows "holds_part s a S (put \<circ> put') y e W (Q \<union> R)"
  unfolding holds_part_def
proof (intro conjI allI impI)
  note 1 = assms(1) [unfolded holds_part_def] and 2 = assms(2) [unfolded holds_part_def]
  show "stored s y e W" "S = W \<union> (Q \<union> R)" "W \<inter> (Q \<union> R) = {}" using 1 2 by auto
  fix s' e' W' assume *: "stored s' y e' W'" "\<forall>z \<in> Q \<union> R. cells s' z = cells s z" "W' \<inter> (Q \<union> R) = {}"
  then have "\<forall>z \<in> Q. cells s' z = cells s z" "W' \<inter> Q = {}" by auto
  with 2 *(1) have "stored s' x (put' e') (W' \<union> Q)" by blast
  moreover have "\<forall>z \<in> R. cells s' z = cells s z" "(W' \<union> Q) \<inter> R = {}" using * 1 2 by auto
  ultimately have "stored s' a (put (put' e')) ((W' \<union> Q) \<union> R)" using 1 by blast
  then show "stored s' a ((put \<circ> put') e') (W' \<union> (Q \<union> R))" by (simp add: Un_assoc)
qed

lemma locate_run:
  "stored s a c S \<Longrightarrow> part_of p c = Some d \<Longrightarrow>
     \<exists>x V R. locate p a s = Inr (x, s) \<and> holds_part s a S (\<lambda>x. replace_part p x c) x d V R"
proof (induction p c arbitrary: a S rule: part_of.induct)
  case (1 c)
  then have "holds_part s a S (\<lambda>x. replace_part [] x c) a d S {}" by (simp add: holds_part_def)
  then show ?case by (auto simp: run_simps)
next
  case (2 k p c)
  obtain e where e: "subChunkPtr_key k c = Some e" "part_of p e = Some d"
    using "2.prems"(2) by (auto split: option.splits)
  obtain y W Q where 1: "subChunkPtr_key_obj k a s = Inr (Some y, s)" "holds_part s a S (\<lambda>x. part_key k x c) y e W Q"
    using part_key_holds [OF "2.prems"(1) e(1)] by blast
  then have "stored s y e W" by (simp add: holds_part_def)
  from "2.IH" [OF e(1) this e(2)] obtain x V R where 2: "locate p y s = Inr (x, s)"
    "holds_part s y W (\<lambda>x. replace_part p x e) x d V R" by blast
  have "holds_part s a S (\<lambda>x. replace_part (At_key k # p) x c) x d V (R \<union> Q)"
    using holds_part_trans [OF 1(2) 2(2)] e(1) by (simp add: comp_def)
  moreover have "locate (At_key k # p) a s = Inr (x, s)" using 1(1) 2(1) by (simp add: run_simps)
  ultimately show ?case by blast
next
  case (3 i p c)
  obtain e where e: "subChunkPtr_index i c = Some e" "part_of p e = Some d"
    using "3.prems"(2) by (auto split: option.splits)
  obtain y W Q where 1: "subChunkPtr_index_obj i a s = Inr (Some y, s)" "holds_part s a S (\<lambda>x. part_index i x c) y e W Q"
    using part_index_holds [OF "3.prems"(1) e(1)] by blast
  then have "stored s y e W" by (simp add: holds_part_def)
  from "3.IH" [OF e(1) this e(2)] obtain x V R where 2: "locate p y s = Inr (x, s)"
    "holds_part s y W (\<lambda>x. replace_part p x e) x d V R" by blast
  have "holds_part s a S (\<lambda>x. replace_part (At_index i # p) x c) x d V (R \<union> Q)"
    using holds_part_trans [OF 1(2) 2(2)] e(1) by (simp add: comp_def)
  moreover have "locate (At_index i # p) a s = Inr (x, s)" using 1(1) 2(1) by (simp add: run_simps)
  ultimately show ?case by blast
qed

lemma part_ptr_cases:
  "subChunkPtr_key k c = Some d \<Longrightarrow> d \<in> set (children c) \<and> (wf_chunk x \<longrightarrow> wf_chunk c \<longrightarrow> wf_chunk (part_key k x c))"
  "subChunkPtr_index i c = Some d \<Longrightarrow> d \<in> set (children c) \<and> (wf_chunk x \<longrightarrow> wf_chunk c \<longrightarrow> wf_chunk (part_index i x c))"
proof -
  show "subChunkPtr_key k c = Some d \<Longrightarrow> d \<in> set (children c) \<and> (wf_chunk x \<longrightarrow> wf_chunk c \<longrightarrow> wf_chunk (part_key k x c))"
    using map_find_set [of k _ d] assign_wf [of c _ x k]
    by (cases c rule: chunk_cases) (force simp: subChunkPtr_key_def part_key_def)+
  show "subChunkPtr_index i c = Some d \<Longrightarrow> d \<in> set (children c) \<and> (wf_chunk x \<longrightarrow> wf_chunk c \<longrightarrow> wf_chunk (part_index i x c))"
    using update_wf [of c _ x "unat i"]
    by (cases c rule: chunk_cases) (auto simp: subChunkPtr_index_def part_index_def split: if_splits)
qed

lemma part_of_bounds:
  "part_of p c = Some d \<Longrightarrow> wf_chunk c \<Longrightarrow> wf_chunk d \<and> weight d \<le> weight c \<and> depth d \<le> depth c"
proof (induction p c rule: part_of.induct)
  case (2 k p c)
  then obtain e where e: "subChunkPtr_key k c = Some e" "part_of p e = Some d" by (auto split: option.splits)
  have ch: "e \<in> set (children c)" using part_ptr_cases(1) [OF e(1)] by blast
  then show ?case using "2.IH" [OF e(1,2) wf_children [OF "2.prems"(2) ch]] weight_children [OF ch] depth_children [OF ch]
    by simp
next
  case (3 i p c)
  then obtain e where e: "subChunkPtr_index i c = Some e" "part_of p e = Some d" by (auto split: option.splits)
  have ch: "e \<in> set (children c)" using part_ptr_cases(2) [OF e(1)] by blast
  then show ?case using "3.IH" [OF e(1,2) wf_children [OF "3.prems"(2) ch]] weight_children [OF ch] depth_children [OF ch]
    by simp
qed simp

lemma replace_part_wf:
  "part_of p c = Some d \<Longrightarrow> wf_chunk c \<Longrightarrow> wf_chunk x \<Longrightarrow> wf_chunk (replace_part p x c)"
proof (induction p c rule: part_of.induct)
  case (2 k p c)
  then obtain e where e: "subChunkPtr_key k c = Some e" "part_of p e = Some d" by (auto split: option.splits)
  have ch: "e \<in> set (children c)" using part_ptr_cases(1) [OF e(1)] by blast
  have "wf_chunk (replace_part p x e)"
    by (rule "2.IH" [OF e(1,2) wf_children [OF "2.prems"(2) ch] "2.prems"(3)])
  then show ?case using part_ptr_cases(1) [OF e(1)] "2.prems"(2) e(1) by simp
next
  case (3 i p c)
  then obtain e where e: "subChunkPtr_index i c = Some e" "part_of p e = Some d" by (auto split: option.splits)
  have ch: "e \<in> set (children c)" using part_ptr_cases(2) [OF e(1)] by blast
  have "wf_chunk (replace_part p x e)"
    by (rule "3.IH" [OF e(1,2) wf_children [OF "3.prems"(2) ch] "3.prems"(3)])
  then show ?case using part_ptr_cases(2) [OF e(1)] "3.prems"(2) e(1) by simp
qed simp

section \<open>Ownership of a program's objects\<close>

text \<open>
  The object of each variable lies in blocks of its own; \<open>L\<close> are the blocks a parse has leaked,
  and there are no others.
\<close>

definition owned_by :: "addr set \<Rightarrow> (nat \<Rightarrow> addr set) \<Rightarrow> objects \<Rightarrow> variables \<Rightarrow> store \<Rightarrow> bool" where
  "owned_by L F \<sigma> env s \<longleftrightarrow> store_ok s \<and> dom (cells s) = (\<Union>v. F v) \<union> L \<and> (\<forall>v. F v \<inter> L = {}) \<and>
     (\<forall>v w. v \<noteq> w \<longrightarrow> F v \<inter> F w = {}) \<and>
     (\<forall>v. case \<sigma> v of
        None \<Rightarrow> env v = None \<and> F v = {}
      | Some c \<Rightarrow> wf_chunk c \<and> (\<exists>a. env v = Some a \<and> stored s a c (F v)))"

definition owned :: "addr set \<Rightarrow> objects \<Rightarrow> variables \<Rightarrow> store \<Rightarrow> bool" where
  "owned L \<sigma> env s \<longleftrightarrow> (\<exists>F. owned_by L F \<sigma> env s)"

lemma owned_empty: "owned {} (\<lambda>_. None) (\<lambda>_. None) empty_store"
  by (auto simp: owned_def owned_by_def store_ok_def empty_store_def intro!: exI [of _ "\<lambda>_. {}"])

lemma owned_none: "owned L (\<lambda>_. None) env s \<Longrightarrow> dom (cells s) = L"
  by (auto simp: owned_def owned_by_def)

lemma owned_at: "owned_by L F \<sigma> env s \<Longrightarrow> case \<sigma> v of None \<Rightarrow> env v = None \<and> F v = {}
    | Some c \<Rightarrow> wf_chunk c \<and> (\<exists>a. env v = Some a \<and> stored s a c (F v))"
  by (simp add: owned_by_def)

lemma owned_object:
  "owned_by L F \<sigma> env s \<Longrightarrow> \<sigma> v = Some c \<Longrightarrow> \<exists>a. env v = Some a \<and> stored s a c (F v) \<and> wf_chunk c"
  using owned_at [of L F \<sigma> env s v] by simp

lemma owned_none_at: "owned_by L F \<sigma> env s \<Longrightarrow> \<sigma> v = None \<Longrightarrow> env v = None \<and> F v = {}"
  using owned_at [of L F \<sigma> env s v] by simp

lemma owned_ok: "owned_by L F \<sigma> env s \<Longrightarrow> store_ok s"
  by (simp add: owned_by_def)

lemma owned_update:
  assumes "owned_by L F \<sigma> env s" "becomes s (F v) s' (S' \<union> K)" "S' \<inter> K = {}" "K \<subseteq> dom (cells s')"
    and "case x of None \<Rightarrow> env' v = None \<and> S' = {} | Some c \<Rightarrow> wf_chunk c \<and> (\<exists>a. env' v = Some a \<and> stored s' a c S')"
    and "\<forall>w. w \<noteq> v \<longrightarrow> env' w = env w"
  shows "owned_by (L \<union> K) (F(v := S')) (\<sigma>(v := x)) env' s'"
proof -
  have ok: "store_ok s" and dom: "dom (cells s) = (\<Union>v. F v) \<union> L" and apart: "\<And>v. F v \<inter> L = {}"
    and sep: "\<And>v w. v \<noteq> w \<Longrightarrow> F v \<inter> F w = {}" using assms(1) by (auto simp: owned_by_def)
  have below: "y < fresh s" if "y \<in> dom (cells s)" for y
    using that ok by (metis domIff not_le store_ok_def)
  have other: "cells s' y = cells s y \<and> y \<notin> S' \<union> K" if "y \<in> dom (cells s)" "y \<notin> F v" for y
    by (rule becomes_same [OF assms(2) that(2) below [OF that(1)]])
  have away: "cells s' y = cells s y" "y \<notin> S'" "y \<notin> K" if "y \<in> F w" "w \<noteq> v" for y w
    using other [of y] that sep [of w v] dom by auto
  have lost: "cells s' y = cells s y" "y \<notin> S'" if "y \<in> L" for y
    using other [of y] that apart [of v] dom by auto
  have S': "S' \<subseteq> dom (cells s')"
    using assms(5) stored_allocated [of s' _ _ S'] by (cases x) auto
  have "y \<in> dom (cells s') \<longleftrightarrow> y \<in> (\<Union>w. (F(v := S')) w) \<union> (L \<union> K)" for y
  proof (cases "y \<in> S' \<union> K")
    case True
    then show ?thesis using S' assms(4) by auto
  next
    case False
    then have "cells s' y = (if y \<in> F v then None else cells s y)" using assms(2) by (simp add: becomes_def)
    then have "y \<in> dom (cells s') \<longleftrightarrow> y \<in> dom (cells s) \<and> y \<notin> F v" by (cases "y \<in> F v") (auto simp: domIff)
    also have "\<dots> \<longleftrightarrow> (\<exists>w. w \<noteq> v \<and> y \<in> F w) \<or> y \<in> L" unfolding dom using sep [of _ v] apart [of v] by (auto, metis)
    also have "\<dots> \<longleftrightarrow> y \<in> (\<Union>w. (F(v := S')) w) \<union> (L \<union> K)" using False by auto
    finally show ?thesis .
  qed
  then have "dom (cells s') = (\<Union>w. (F(v := S')) w) \<union> (L \<union> K)" by blast
  moreover have "(F(v := S')) w \<inter> (L \<union> K) = {}" for w
    using lost(2) away(3) [of _ w] apart [of w] assms(3) by (cases "w = v") auto
  moreover have "(F(v := S')) u \<inter> (F(v := S')) w = {}" if "u \<noteq> w" for u w
    using that away(2) sep by (cases "u = v"; cases "w = v") auto
  moreover have "case (\<sigma>(v := x)) w of None \<Rightarrow> env' w = None \<and> (F(v := S')) w = {}
      | Some c \<Rightarrow> wf_chunk c \<and> (\<exists>a. env' w = Some a \<and> stored s' a c ((F(v := S')) w))" for w
  proof (cases "w = v")
    case False
    have "stored s' a c (F w)" if "stored s a c (F w)" for a c
      by (rule stored_frame [OF that]) (use away(1) False in blast)
    then show ?thesis using owned_at [OF assms(1), of w] False assms(6) by (auto split: option.splits)
  next
    case True
    show ?thesis unfolding True using assms(5) by (cases x) simp_all
  qed
  ultimately show ?thesis using becomes_ok [OF assms(2)] unfolding owned_by_def by blast
qed

lemmas owned_update_all = owned_update [where K = "{}", simplified]

text \<open>
  What a call does to the object at \<open>x\<close>: it leaves it as on trees, and leaks nothing but, where
  \<open>keeps\<close> is false, blocks it has made itself.
\<close>

definition changes :: "bool \<Rightarrow> exn option mem \<Rightarrow> store \<Rightarrow> addr \<Rightarrow> addr set \<Rightarrow> outcome \<Rightarrow> bool" where
  "changes keeps act s x V out \<longleftrightarrow> (\<exists>s' V' K. act s = Inr (fst out, s') \<and> stored s' x (snd out) V' \<and>
     V' \<inter> K = {} \<and> K \<subseteq> dom (cells s') \<and> becomes s V s' (V' \<union> K) \<and> (keeps \<longrightarrow> K = {}))"

lemma refines_changes: "refines keep act s x V out \<Longrightarrow> changes keeps act s x V out"
  unfolding refines_def changes_def by (metis Int_empty_right Un_empty_right empty_subsetI)

lemma leaves_changes:
  "leaves act s V (\<lambda>s' V'. stored s' x (snd out) V') (fst out) \<Longrightarrow> changes (fst out = None) act s x V out"
  unfolding leaves_def changes_def by blast

text \<open>A call on a part of an object.\<close>

lemma change_run:
  assumes "owned_by L F \<sigma> env s" "\<sigma> v = Some c" "part_of p c = Some d" "wf_chunk (snd out)"
    and "\<And>x V. stored s x d V \<Longrightarrow> V \<subseteq> F v \<Longrightarrow> changes keeps (act x) s x V out"
  shows "\<exists>s' K. on_ref env (v, p) (\<lambda>x. call env (act x)) s = Inr ((fst out, env), s')
    \<and> owned (L \<union> K) (\<sigma>(v \<mapsto> replace_part p (snd out) c)) env s' \<and> (keeps \<longrightarrow> K = {})"
proof -
  obtain a where a: "env v = Some a" "stored s a c (F v)" "wf_chunk c" using owned_object [OF assms(1,2)] by blast
  obtain x V R where x: "locate p a s = Inr (x, s)" "holds_part s a (F v) (\<lambda>x. replace_part p x c) x d V R"
    using locate_run [OF a(2) assms(3)] by blast
  note h = x(2) [unfolded holds_part_def]
  have ok: "store_ok s" by (rule owned_ok [OF assms(1)])
  obtain s' V' K where 1: "act x s = Inr (fst out, s')" "stored s' x (snd out) V'" "V' \<inter> K = {}" "K \<subseteq> dom (cells s')"
    "becomes s V s' (V' \<union> K)" "keeps \<longrightarrow> K = {}"
    using assms(5) [of x V] h unfolding changes_def by blast
  have R: "cells s' z = cells s z \<and> z \<notin> V' \<union> K" if "z \<in> R" for z
    by (rule becomes_same [OF 1(5)]) (use that h stored_below [OF a(2) ok] in auto)
  then have st: "stored s' a (replace_part p (snd out) c) (V' \<union> R)" using h 1(2) by blast
  have "becomes s (V \<union> R) s' ((V' \<union> K) \<union> R)"
    by (rule becomes_frame [OF 1(5)]) (use h stored_below [OF a(2) ok] in auto)
  moreover have "(V' \<union> K) \<union> R = (V' \<union> R) \<union> K" by blast
  ultimately have "becomes s (F v) s' ((V' \<union> R) \<union> K)" using h by simp
  moreover have "(V' \<union> R) \<inter> K = {}" using 1(3) R by blast
  ultimately have "owned_by (L \<union> K) (F(v := V' \<union> R)) (\<sigma>(v := Some (replace_part p (snd out) c))) env s'"
    by (rule owned_update [OF assms(1)]) (use replace_part_wf [OF assms(3) a(3) assms(4)] a(1) st 1(4) in auto)
  moreover have "on_ref env (v, p) (\<lambda>x. call env (act x)) s = Inr ((fst out, env), s')"
    using a(1) x(1) 1(1) by (simp add: on_ref_def call_def run_simps)
  ultimately show ?thesis using 1(6) by (auto simp: owned_def)
qed

lemma argument_run:
  assumes "owned_by L F \<sigma> env s" "\<sigma> w = Some c" "part_of q c = Some d"
  shows "\<exists>i T. on_ref env (w, q) f s = f i s \<and> stored s i d T \<and> T \<subseteq> F w \<and> wf_chunk d \<and> weight d \<le> weight c"
proof -
  obtain a where a: "env w = Some a" "stored s a c (F w)" "wf_chunk c" using owned_object [OF assms(1,2)] by blast
  obtain x V R where "locate q a s = Inr (x, s)" "holds_part s a (F w) (\<lambda>x. replace_part q x c) x d V R"
    using locate_run [OF a(2) assms(3)] by blast
  then show ?thesis using a(1) part_of_bounds [OF assms(3) a(3)]
    by (intro exI [of _ x] exI [of _ V]) (auto simp: on_ref_def holds_part_def run_simps)
qed

section \<open>Calls with an argument\<close>

locale stored_call =
  fixes heap :: "nat \<Rightarrow> addr \<Rightarrow> addr \<Rightarrow> exn option mem"
    and tree :: "chunkdat \<Rightarrow> chunkdat \<Rightarrow> outcome"
  assumes refine: "stored s i c T \<Longrightarrow> stored s a d S \<Longrightarrow> T \<inter> S = {} \<Longrightarrow> store_ok s \<Longrightarrow> wf_chunk c \<Longrightarrow> wf_chunk d \<Longrightarrow>
      weight c < n \<Longrightarrow> depth d < n \<Longrightarrow> refines False (heap n i a) s a S (tree c d)"
    and wf: "wf_chunk c \<Longrightarrow> wf_chunk d \<Longrightarrow> wf_chunk (snd (tree c d))"
begin

lemma apply_run:
  assumes "apply_tree tree r q \<sigma> = Some (e, \<sigma>')"
  shows "\<exists>N. \<forall>n \<ge> N. \<forall>L env s. owned L \<sigma> env s \<longrightarrow>
    (\<exists>s'. on_ref env q (\<lambda>i. on_ref env r (\<lambda>a. call env (heap n i a))) s = Inr ((e, env), s') \<and> owned L \<sigma>' env s')"
proof -
  obtain v p w q' where rq: "r = (v, p)" "q = (w, q')" by (cases r, cases q)
  obtain c0 c d0 d where *: "v \<noteq> w" "\<sigma> w = Some c0" "part_of q' c0 = Some c" "\<sigma> v = Some d0" "part_of p d0 = Some d"
    "e = fst (tree c d)" "\<sigma>' = \<sigma>(v \<mapsto> replace_part p (snd (tree c d)) d0)"
    using assms rq by (auto simp: apply_tree_def object_at_def change_tree_def split: if_splits option.splits)
  have "\<exists>s'. on_ref env q (\<lambda>i. on_ref env r (\<lambda>a. call env (heap n i a))) s = Inr ((e, env), s') \<and> owned L \<sigma>' env s'"
    if n: "Suc (weight c0 + depth d0) \<le> n" and own: "owned L \<sigma> env s" for n L env s
  proof -
    obtain F where F: "owned_by L F \<sigma> env s" using own by (auto simp: owned_def)
    then have sep: "F w \<inter> F v = {}" "store_ok s" using *(1) by (auto simp: owned_by_def)
    obtain i T where i: "on_ref env q (\<lambda>i. on_ref env r (\<lambda>a. call env (heap n i a))) s =
        on_ref env r (\<lambda>a. call env (heap n i a)) s" "stored s i c T" "T \<subseteq> F w" "wf_chunk c" "weight c \<le> weight c0"
      using argument_run [OF F *(2,3)] rq(2) by blast
    have d: "wf_chunk d" "depth d \<le> depth d0" using part_of_bounds [OF *(5)] owned_object [OF F *(4)] by auto
    have "changes True (heap n i x) s x V (tree c d)" if "stored s x d V" "V \<subseteq> F v" for x V
      by (rule refines_changes, rule refine [OF i(2) that(1) _ sep(2) i(4) d(1)])
        (use that(2) i(3,5) sep(1) d(2) n in auto)
    from change_run [OF F *(4,5) wf [OF i(4) d(1)] this] i(1) show ?thesis
      unfolding rq(1) *(6,7) by (metis Un_empty_right rq(1))
  qed
  then show ?thesis by blast
qed

end

interpretation assigning: stored_call "\<lambda>n i a. bindM (set_obj n i a) (\<lambda>_. doneM)" "\<lambda>c d. (None, set_chunk c d)"
proof unfold_locales
  show "refines False (bindM (set_obj n i a) (\<lambda>_. doneM)) s a S (None, set_chunk c d)"
    if "stored s i c T" "stored s a d S" "T \<inter> S = {}" "store_ok s" "wf_chunk c" "weight c < n" "depth d < n"
    for s i c T a d S n
    using set_refines [OF that(1-5)] that(6,7) depth_weight [of c] by simp
qed (simp add: set_chunk_def copy_chunk_id)

interpretation adding_key: stored_call "\<lambda>n i a. addToMap_obj n k i a" "\<lambda>c d. addToMap (k, c) d"
proof unfold_locales
  show "refines False (addToMap_obj n k i a) s a S (addToMap (k, c) d)"
    if "stored s i c T" "stored s a d S" "T \<inter> S = {}" "store_ok s" "wf_chunk c" "wf_chunk d" "weight c < n" "depth d < n"
    for s i c T a d S n
    using addToMap_refines [OF that(2,1,3,4,6,5), of n k] that(7,8) depth_weight [of c] by (auto simp: refines_def)
  show "wf_chunk (snd (addToMap (k, c) d))" if "wf_chunk c" "wf_chunk d" for c d
    using to_map.wf_add [of d "(k, c)"] that by (simp add: elem_entry_def)
qed

interpretation adding_item: stored_call addToList_obj addToList
proof unfold_locales
  show "refines False (addToList_obj n i a) s a S (addToList c d)"
    if "stored s i c T" "stored s a d S" "T \<inter> S = {}" "store_ok s" "wf_chunk c" "weight c < n" "depth d < n"
    for s i c T a d S n
    using addToList_refines [OF that(2,1,3,4,5), of n] that(6,7) depth_weight [of c] by (auto simp: refines_def)
qed (simp add: to_list.wf_add)

interpretation concatenating: stored_call concatenate_obj concatenate
  by unfold_locales (simp_all add: concatenate_refines concatenate_wf)

interpretation merging: stored_call "\<lambda>n i a. merge_obj n ow i a" "merge ow"
  by unfold_locales (simp_all add: merge_refines merge_wf)

section \<open>Commands\<close>

text \<open>
  Enough fuel for a command is enough for every store that holds the objects; where \<open>keeps\<close> holds
  nothing is leaked.
\<close>

definition simulated :: "(nat \<Rightarrow> variables \<Rightarrow> ('e \<times> variables) mem) \<Rightarrow> bool \<Rightarrow> objects \<Rightarrow> 'e \<Rightarrow> objects \<Rightarrow> bool" where
  "simulated act keeps \<sigma> e \<sigma>' \<longleftrightarrow> (\<exists>N. \<forall>n \<ge> N. \<forall>L env s. owned L \<sigma> env s \<longrightarrow>
     (\<exists>env' s' K. act n env s = Inr ((e, env'), s') \<and> owned (L \<union> K) \<sigma>' env' s' \<and> (keeps \<longrightarrow> K = {})))"

lemma simulatedI:
  "(\<And>n L env s. N \<le> n \<Longrightarrow> owned L \<sigma> env s \<Longrightarrow>
      \<exists>env' s' K. act n env s = Inr ((e, env'), s') \<and> owned (L \<union> K) \<sigma>' env' s' \<and> (keeps \<longrightarrow> K = {})) \<Longrightarrow>
     simulated act keeps \<sigma> e \<sigma>'"
  unfolding simulated_def by blast

lemma simulated_keepsI:
  assumes "\<And>n L env s. N \<le> n \<Longrightarrow> owned L \<sigma> env s \<Longrightarrow> \<exists>env' s'. act n env s = Inr ((e, env'), s') \<and> owned L \<sigma>' env' s'"
  shows "simulated act keeps \<sigma> e \<sigma>'"
  using assms by (intro simulatedI [where N = N]) (metis Un_empty_right)

lemma apply_simulated:
  "(\<exists>N. \<forall>n \<ge> N. \<forall>L env s. owned L \<sigma> env s \<longrightarrow> (\<exists>s'. act n env s = Inr ((e, env), s') \<and> owned L \<sigma>' env s')) \<Longrightarrow>
     simulated act keeps \<sigma> e \<sigma>'"
  using simulated_keepsI by metis

lemma create_simulated:
  assumes "\<sigma> v = None"
  shows "simulated (\<lambda>n. exec_heap mem n (Create v)) keeps \<sigma> None (\<sigma>(v \<mapsto> new_chunkdat))"
proof (rule simulated_keepsI [where N = 0])
  fix n L env s assume "owned L \<sigma> env s"
  then obtain F where F: "owned_by L F \<sigma> env s" by (auto simp: owned_def)
  then have ok: "store_ok s" and v: "F v = {}" using owned_none_at [OF F assms] by (auto simp: owned_by_def)
  let ?s = "alloc (Obj None 0 None) s"
  have "stored ?s (fresh s) new_chunkdat {fresh s}" by (simp add: new_chunkdat_def)
  then have "owned_by L (F(v := {fresh s})) (\<sigma>(v := Some new_chunkdat)) (env(v \<mapsto> fresh s)) ?s"
    by (intro owned_update_all [OF F]) (use becomes_alloc [OF ok] v in \<open>auto simp: new_chunkdat_def\<close>)
  then show "\<exists>env' s'. exec_heap mem n (Create v) env s = Inr ((None, env'), s') \<and> owned L (\<sigma>(v \<mapsto> new_chunkdat)) env' s'"
    by (intro exI [of _ "env(v \<mapsto> fresh s)"] exI [of _ ?s]) (auto simp: run_simps owned_def)
qed

lemma copy_simulated:
  assumes "\<sigma> v = None" "object_at q \<sigma> = Some c"
  shows "simulated (\<lambda>n. exec_heap mem n (Copy v q)) keeps \<sigma> None (\<sigma>(v \<mapsto> copy_chunk c))"
proof (rule simulated_keepsI [where N = "weight c"])
  fix n L env s assume n: "weight c \<le> n" and "owned L \<sigma> env s"
  then obtain F where F: "owned_by L F \<sigma> env s" by (auto simp: owned_def)
  then have ok: "store_ok s" and v: "F v = {}" using owned_none_at [OF F assms(1)] by (auto simp: owned_by_def)
  obtain w p c0 where q: "q = (w, p)" "\<sigma> w = Some c0" "part_of p c0 = Some c"
    using assms(2) by (cases q) (auto simp: object_at_def split: option.splits)
  obtain i T where i: "exec_heap mem n (Copy v q) env s = bindM (pcopy n i) (\<lambda>a. returnM (None, env(v \<mapsto> a))) s"
    "stored s i c T" "wf_chunk c"
    using argument_run [OF F q(2,3), of "\<lambda>i. bindM (pcopy n i) (\<lambda>a. returnM (None, env(v \<mapsto> a)))"] q(1) by auto
  have "depth c \<le> n" using n depth_weight [of c] by simp
  from pcopy_run [OF i(3) this] i(2) ok obtain a s' S' where 1: "pcopy n i s = Inr (a, s')" "stored s' a c S'"
    "becomes s {} s' S'" unfolding copies_def by blast
  have "owned_by L (F(v := S')) (\<sigma>(v := Some c)) (env(v \<mapsto> a)) s'"
    by (intro owned_update_all [OF F]) (use 1 v i(3) in auto)
  then show "\<exists>env' s'. exec_heap mem n (Copy v q) env s = Inr ((None, env'), s') \<and> owned L (\<sigma>(v \<mapsto> copy_chunk c)) env' s'"
    unfolding i(1) copy_chunk_id [OF i(3)] using 1(1)
    by (intro exI [of _ "env(v \<mapsto> a)"] exI [of _ s']) (auto simp: run_simps owned_def)
qed

lemma destroy_simulated:
  assumes "\<sigma> v = Some c"
  shows "simulated (\<lambda>n. exec_heap mem n (Destroy v)) keeps \<sigma> None (\<sigma>(v := None))"
proof (rule simulated_keepsI [where N = "depth c"])
  fix n L env s assume n: "depth c \<le> n" and "owned L \<sigma> env s"
  then obtain F where F: "owned_by L F \<sigma> env s" by (auto simp: owned_def)
  obtain a where a: "env v = Some a" "stored s a c (F v)" using owned_object [OF F assms] by blast
  have ok: "store_ok s" using F by (simp add: owned_by_def)
  have del: "delete_obj n a s = Inr ((), drop_blocks (F v) s)" using delete_obj_run [OF n] a(2) by (simp add: deletes_def)
  have "owned_by L (F(v := {})) (\<sigma>(v := None)) (env(v := None)) (drop_blocks (F v) s)"
    by (intro owned_update_all [OF F]) (use becomes_drop [OF ok, of "F v" "F v"] in auto)
  then show "\<exists>env' s'. exec_heap mem n (Destroy v) env s = Inr ((None, env'), s') \<and> owned L (\<sigma>(v := None)) env' s'"
    using a(1) del by (intro exI [of _ "env(v := None)"] exI [of _ "drop_blocks (F v) s"])
      (auto simp: on_ref_def run_simps owned_def)
qed

lemma change_simulated:
  assumes "change_tree r f \<sigma> = Some (e, \<sigma>')" "\<And>d. wf_chunk d \<Longrightarrow> wf_chunk (snd (f d))"
    and "\<And>n s x V d. stored s x d V \<Longrightarrow> store_ok s \<Longrightarrow> depth d \<le> n \<Longrightarrow> m \<le> n \<Longrightarrow> fst (f d) = e \<Longrightarrow>
      changes keeps (act n x) s x V (f d)"
  shows "simulated (\<lambda>n env. on_ref env r (\<lambda>a. call env (act n a))) keeps \<sigma> e \<sigma>'"
proof -
  obtain v p c d where *: "r = (v, p)" "\<sigma> v = Some c" "part_of p c = Some d" "e = fst (f d)"
    "\<sigma>' = \<sigma>(v \<mapsto> replace_part p (snd (f d)) c)"
    using assms(1) by (cases r) (auto simp: change_tree_def split: option.splits)
  show ?thesis
  proof (rule simulatedI [where N = "max (depth c) m"])
    fix n L env s assume n: "max (depth c) m \<le> n" and "owned L \<sigma> env s"
    then obtain F where F: "owned_by L F \<sigma> env s" by (auto simp: owned_def)
    have d: "wf_chunk d" "depth d \<le> n" using part_of_bounds [OF *(3)] owned_object [OF F *(2)] n by auto
    have "changes keeps (act n x) s x V (f d)" if "stored s x d V" for x V
      by (rule assms(3) [OF that owned_ok [OF F] d(2)]) (use n *(4) in simp_all)
    from change_run [OF F *(2,3) assms(2) [OF d(1)] this] *
    show "\<exists>env' s' K. on_ref env r (\<lambda>a. call env (act n a)) s = Inr ((e, env'), s') \<and> owned (L \<union> K) \<sigma>' env' s'
      \<and> (keeps \<longrightarrow> K = {})" by blast
  qed
qed

text \<open>The two commands with a text.\<close>

lemma create_text_simulated:
  assumes "\<sigma> v = None" "exec_tree mem (Create_text v str) \<sigma> = Some (e, \<sigma>')"
  shows "simulated (\<lambda>n. exec_heap mem n (Create_text v str)) (e = None) \<sigma> e \<sigma>'"
proof (rule simulatedI [where N = "Suc (length str)"])
  fix n L env s assume n: "Suc (length str) \<le> n" and "owned L \<sigma> env s"
  then obtain F where F: "owned_by L F \<sigma> env s" by (auto simp: owned_def)
  have v: "F v = {}" using owned_none_at [OF F assms(1)] by simp
  obtain f c where c: "set_str mem str 0 None = (f, c)" by force
  have "sets (set_str_obj mem n str 0 None) (f, c) n" using set_str_obj_run [of str n mem 0 None] c n by simp
  from new_from_run [OF this owned_ok [OF F]] n obtain res s' S where 1: "new_of_string mem n str 0 None s = Inr (res, s')"
    "becomes s {} s' S" "case f of None \<Rightarrow> (\<exists>a. res = Inr a \<and> stored s' a c S)
      | Some x \<Rightarrow> res = Inl x \<and> S \<subseteq> dom (cells s') \<and> (m_achunk c \<noteq> None \<longrightarrow> S \<noteq> {})"
    by (auto simp: new_of_string_def)
  show "\<exists>env' s' K. exec_heap mem n (Create_text v str) env s = Inr ((e, env'), s') \<and> owned (L \<union> K) \<sigma>' env' s'
      \<and> (e = None \<longrightarrow> K = {})"
  proof (cases f)
    case None
    then have e: "e = None" "\<sigma>' = \<sigma>(v \<mapsto> c)"
      using assms c by (auto simp: chunkdat_of_string_def from_set_def)
    obtain a where a: "res = Inr a" "stored s' a c S" using 1(3) None by auto
    have "wf_chunk c" using parse_good [of mem str 0 None] c by simp
    then have "owned_by L (F(v := S)) (\<sigma>(v := Some c)) (env(v \<mapsto> a)) s'"
      by (intro owned_update_all [OF F]) (use 1(2) v a in auto)
    then have "owned (L \<union> {}) \<sigma>' (env(v \<mapsto> a)) s'" using e by (auto simp: owned_def)
    with 1(1) a e show ?thesis by (intro exI [of _ "env(v \<mapsto> a)"] exI [of _ s'] exI [of _ "{}"]) (simp add: run_simps)
  next
    case (Some x)
    then have e: "e = Some x" "\<sigma>' = \<sigma>" using assms c by (auto simp: chunkdat_of_string_def from_set_def)
    have K: "res = Inl x" "S \<subseteq> dom (cells s')" using 1(3) Some by auto
    have "owned_by (L \<union> S) (F(v := {})) (\<sigma>(v := None)) env s'"
      by (rule owned_update [OF F]) (use 1(2) v K(2) owned_none_at [OF F assms(1)] in auto)
    then have "owned (L \<union> S) \<sigma>' env s'" using e assms(1) by (auto simp: owned_def fun_upd_idem)
    with 1(1) K(1) e show ?thesis by (intro exI [of _ env] exI [of _ s'] exI [of _ S]) (simp add: run_simps)
  qed
qed

lemma assign_text_simulated:
  assumes "change_tree r (\<lambda>d. set_str mem str 0 None) \<sigma> = Some (e, \<sigma>')"
  shows "simulated (\<lambda>n env. on_ref env r (\<lambda>a. call env (set_str_obj mem n str 0 None a))) (e = None) \<sigma> e \<sigma>'"
proof (rule change_simulated [OF assms, where m = "Suc (length str)"])
  show "wf_chunk (snd (set_str mem str 0 None))" using parse_good by blast
  show "changes (e = None) (set_str_obj mem n str 0 None x) s x V (set_str mem str 0 None)"
    if "stored s x d V" "store_ok s" "depth d \<le> n" "Suc (length str) \<le> n" "fst (set_str mem str 0 None) = e"
    for n s x V d
    using leaves_changes [of "set_str_obj mem n str 0 None x" s V x "set_str mem str 0 None"] that
      set_str_obj_run [of str n mem 0 None] by (simp add: sets_def)
qed

lemma clear_refines: "stored s a d S \<Longrightarrow> store_ok s \<Longrightarrow> depth d \<le> n \<Longrightarrow>
    refines False (bindM (clear_obj n a) (\<lambda>_. doneM)) s a S (None, clear_chunk d)"
proof (rule refinesI [where S' = "{a}"])
  assume d: "stored s a d S" and ok: "store_ok s" and n: "depth d \<le> n"
  let ?s = "put_cell a (Obj (m_parent d) (m_offset d) None) (drop_blocks (S - {a}) s)"
  have "\<forall>e \<in> set (children d). deletes (delete_obj n) e"
    using n depth_children by (meson delete_obj_run less_imp_le order_trans)
  then show "bindM (clear_obj n a) (\<lambda>_. doneM) s = Inr (None, ?s)"
    using clear_with_run [OF _ d] by (simp add: clear_obj_def run_simps)
  show "stored ?s a (clear_chunk d) {a}" by (simp add: clear_chunk_def)
  show "becomes s S ?s {a}" by (rule clear_becomes [OF d ok])
qed simp

lemma clear_wf: "wf_chunk (clear_chunk d)"
  by (simp add: clear_chunk_def)

lemma exec_simulated:
  assumes "exec_tree mem cmd \<sigma> = Some (e, \<sigma>')"
  shows "simulated (\<lambda>n. exec_heap mem n cmd) (is_text cmd \<longrightarrow> e = None) \<sigma> e \<sigma>'"
proof (cases cmd)
  case (Create v)
  then show ?thesis using assms create_simulated by (auto split: if_splits)
next
  case (Create_text v str)
  then have "\<sigma> v = None" using assms by (auto split: if_splits)
  from create_text_simulated [OF this assms [unfolded Create_text]] show ?thesis by (simp add: Create_text)
next
  case (Copy v q)
  then show ?thesis using assms copy_simulated [of \<sigma> v q] by (auto split: if_splits option.splits)
next
  case (Destroy v)
  then show ?thesis using assms destroy_simulated by (auto split: if_splits)
next
  case (Clear r)
  have "simulated (\<lambda>n env. on_ref env r (\<lambda>a. call env (bindM (clear_obj n a) (\<lambda>_. doneM)))) True \<sigma> e \<sigma>'"
  proof (rule change_simulated [where f = "\<lambda>d. (None, clear_chunk d)" and m = 0])
    show "changes True (bindM (clear_obj n x) (\<lambda>_. doneM)) s x V (None, clear_chunk d)"
      if "stored s x d V" "store_ok s" "depth d \<le> n" for n s x V d
      by (rule refines_changes [OF clear_refines [OF that]])
  qed (use assms Clear clear_wf in auto)
  then show ?thesis by (simp add: Clear simulated_def)
next
  case (Assign_text r str)
  then show ?thesis using assign_text_simulated [of r mem str \<sigma> e \<sigma>'] assms by (simp add: simulated_def)
next
  case (Assign r q)
  then show ?thesis using apply_simulated [where keeps = True, OF assigning.apply_run [of r q \<sigma> e \<sigma>']] assms by (simp add: simulated_def)
next
  case (AddKey r k q)
  then show ?thesis using apply_simulated [where keeps = True, OF adding_key.apply_run [of k r q \<sigma> e \<sigma>']] assms by (simp add: simulated_def)
next
  case (AddItem r q)
  then show ?thesis using apply_simulated [where keeps = True, OF adding_item.apply_run [of r q \<sigma> e \<sigma>']] assms by (simp add: simulated_def)
next
  case (Concatenate r q)
  then show ?thesis using apply_simulated [where keeps = True, OF concatenating.apply_run [of r q \<sigma> e \<sigma>']] assms by (simp add: simulated_def)
next
  case (Merge ow r q)
  then show ?thesis using apply_simulated [where keeps = True, OF merging.apply_run [of ow r q \<sigma> e \<sigma>']] assms by (simp add: simulated_def)
next
  case (EraseKey r k)
  have "changes True (erase_key_obj n k x) s x V (erase_key k d)" if "stored s x d V" "store_ok s" "depth d \<le> n" for n s x V d
    using erase_key_refines [OF that] by (rule refines_changes)
  then have "simulated (\<lambda>n env. on_ref env r (\<lambda>a. call env (erase_key_obj n k a))) True \<sigma> e \<sigma>'"
    by (intro change_simulated [where f = "erase_key k" and m = 0]) (use assms EraseKey erase_key_wf in auto)
  then show ?thesis by (simp add: EraseKey simulated_def)
next
  case (EraseIndex r i)
  have "changes True (erase_index_obj n i x) s x V (erase_index i d)" if "stored s x d V" "store_ok s" "depth d \<le> n" for n s x V d
    using erase_index_refines [OF that] by (rule refines_changes)
  then have "simulated (\<lambda>n env. on_ref env r (\<lambda>a. call env (erase_index_obj n i a))) True \<sigma> e \<sigma>'"
    by (intro change_simulated [where f = "erase_index i" and m = 0]) (use assms EraseIndex erase_index_wf in auto)
  then show ?thesis by (simp add: EraseIndex simulated_def)
qed

lemma run_simulated:
  "run_tree mem cmds \<sigma> = Some (es, \<sigma>') \<Longrightarrow> simulated (\<lambda>n. run_heap mem n cmds) (parsed cmds es) \<sigma> es \<sigma>'"
proof (induction cmds arbitrary: \<sigma> es)
  case Nil
  then show ?case by (intro simulated_keepsI [where N = 0]) (auto simp: run_simps)
next
  case (Cons cmd cmds)
  obtain e \<sigma>1 es' where *: "exec_tree mem cmd \<sigma> = Some (e, \<sigma>1)" "run_tree mem cmds \<sigma>1 = Some (es', \<sigma>')" "es = e # es'"
    using Cons.prems by (auto split: option.splits)
  obtain N where N: "\<And>n L env s. N \<le> n \<Longrightarrow> owned L \<sigma> env s \<Longrightarrow>
      \<exists>env' s' K. exec_heap mem n cmd env s = Inr ((e, env'), s') \<and> owned (L \<union> K) \<sigma>1 env' s'
        \<and> ((is_text cmd \<longrightarrow> e = None) \<longrightarrow> K = {})"
    using exec_simulated [OF *(1)] unfolding simulated_def by blast
  obtain M where M: "\<And>n L env s. M \<le> n \<Longrightarrow> owned L \<sigma>1 env s \<Longrightarrow>
      \<exists>env' s' K. run_heap mem n cmds env s = Inr ((es', env'), s') \<and> owned (L \<union> K) \<sigma>' env' s' \<and> (parsed cmds es' \<longrightarrow> K = {})"
    using Cons.IH [OF *(2)] unfolding simulated_def by blast
  show ?case
  proof (rule simulatedI [where N = "max N M"])
    fix n L env s assume n: "max N M \<le> n" and "owned L \<sigma> env s"
    then obtain env1 s1 K where 1: "exec_heap mem n cmd env s = Inr ((e, env1), s1)" "owned (L \<union> K) \<sigma>1 env1 s1"
      "(is_text cmd \<longrightarrow> e = None) \<longrightarrow> K = {}" using N [of n L env s] by auto
    then obtain env' s' K' where 2: "run_heap mem n cmds env1 s1 = Inr ((es', env'), s')"
      "owned ((L \<union> K) \<union> K') \<sigma>' env' s'" "parsed cmds es' \<longrightarrow> K' = {}" using M [of n "L \<union> K" env1 s1] n by auto
    have "run_heap mem n (cmd # cmds) env s = Inr ((es, env'), s')" using 1(1) 2(1) *(3) by (simp add: run_simps)
    moreover have "owned (L \<union> (K \<union> K')) \<sigma>' env' s'" using 2(2) by (simp add: Un_assoc)
    moreover have "parsed (cmd # cmds) es \<longrightarrow> K \<union> K' = {}" using 1(3) 2(3) *(3) by (simp add: parsed_def)
    ultimately show "\<exists>env' s' K. run_heap mem n (cmd # cmds) env s = Inr ((es, env'), s') \<and> owned (L \<union> K) \<sigma>' env' s'
      \<and> (parsed (cmd # cmds) es \<longrightarrow> K = {})" by blast
  qed
qed

section \<open>Properties\<close>

text \<open>C14: A program that constructs objects, empty or from text, and passes texts and objects to calls
  on other objects and their parts runs on the store as it does on trees: with enough fuel it
  never touches a deleted object, every call leaves with the same exception, and at the end each
  object lies in blocks of its own. No other block is allocated, unless a parse has thrown.\<close>

theorem programs_refined:
  assumes "run_tree mem cmds (\<lambda>_. None) = Some (es, \<sigma>)"
  shows "\<exists>N. \<forall>n \<ge> N. \<exists>env s L. run_heap mem n cmds (\<lambda>_. None) empty_store = Inr ((es, env), s) \<and>
    owned L \<sigma> env s \<and> (parsed cmds es \<longrightarrow> L = {})"
  using run_simulated [OF assms] owned_empty unfolding simulated_def by (metis Un_empty_left)

text \<open>A text, and one that is no map.\<close>

definition sample_map :: chunkdat where
  "sample_map = Chunkdat None 0 (Some (Chunk_map [(''a'', Chunkdat None 1 (Some (Chunk_string ''b'')))]))"

lemma sample_texts:
  "set_str (\<lambda>_. ''x'') ''{a=b}'' 0 None = (None, sample_map)"
  "chunkdat_of_string (\<lambda>_. ''x'') ''{a=b}'' 0 None = Inr sample_map"
  "chunkdat_of_string (\<lambda>_. ''x'') ''{=b}'' 0 None = Inl (Format_error ''Value has no key'' [] ''{=b}'' 1)"
  by code_simp+

theorem programs_refined_witness:
  "\<exists>n env s L. run_heap (\<lambda>_. ''x'') n [Create 0, Create_text 1 ''{a=b}'', AddItem (0, []) (1, []),
      Assign_text (0, [At_index 0]) ''{a=b}'', Create_text 2 ''{=b}'', Destroy 1] (\<lambda>_. None) empty_store =
    Inr (([None, None, None, None, Some (Format_error ''Value has no key'' [] ''{=b}'' 1), None], env), s)
    \<and> owned L (\<lambda>v. if v = 0 then Some (Chunkdat None 0 (Some (Chunk_list [sample_map]))) else None) env s"
proof -
  have "run_tree (\<lambda>_. ''x'') [Create 0, Create_text 1 ''{a=b}'', AddItem (0, []) (1, []),
      Assign_text (0, [At_index 0]) ''{a=b}'', Create_text 2 ''{=b}'', Destroy 1] (\<lambda>_. None) =
    Some ([None, None, None, None, Some (Format_error ''Value has no key'' [] ''{=b}'' 1), None],
      \<lambda>v. if v = 0 then Some (Chunkdat None 0 (Some (Chunk_list [sample_map]))) else None)"
    by (auto simp: sample_texts apply_tree_def change_tree_def object_at_def new_chunkdat_def addToList_def
        part_index_def subChunkPtr_index_def fun_eq_iff Let_def)
  from programs_refined [OF this] show ?thesis by blast
qed

text \<open>C15: A program of such calls whose texts are all parsed, and which destroys the objects it made,
  leaves nothing behind: no block is leaked, none is deleted twice.\<close>

theorem programs_leak_nothing:
  assumes "run_tree mem cmds (\<lambda>_. None) = Some (es, \<lambda>_. None)" "parsed cmds es"
  shows "\<exists>N. \<forall>n \<ge> N. \<exists>env s. run_heap mem n cmds (\<lambda>_. None) empty_store = Inr ((es, env), s) \<and> cells s = (\<lambda>_. None)"
proof -
  obtain N where N: "\<And>n. N \<le> n \<Longrightarrow> \<exists>env s K. run_heap mem n cmds (\<lambda>_. None) empty_store = Inr ((es, env), s) \<and>
      owned ({} \<union> K) (\<lambda>_. None) env s \<and> (parsed cmds es \<longrightarrow> K = {})"
    using run_simulated [OF assms(1)] owned_empty unfolding simulated_def by blast
  have "\<exists>env s. run_heap mem n cmds (\<lambda>_. None) empty_store = Inr ((es, env), s) \<and> cells s = (\<lambda>_. None)" if "N \<le> n" for n
    using N [OF that] assms(2) owned_none by fastforce
  then show ?thesis by blast
qed

theorem programs_leak_nothing_witness:
  "\<exists>n env s. run_heap (\<lambda>_. ''x'') n [Create 0, Create_text 1 ''{a=b}'', AddItem (0, []) (1, []),
      Merge True (0, [At_index 0]) (1, []), Copy 2 (0, []), EraseIndex (2, []) 0, Assign_text (1, []) ''{a=b}'',
      Destroy 0, Destroy 2, Destroy 1] (\<lambda>_. None) empty_store =
    Inr ((replicate 10 None, env), s) \<and> cells s = (\<lambda>_. None)"
proof -
  let ?cmds = "[Create 0, Create_text 1 ''{a=b}'', AddItem (0, []) (1, []),
      Merge True (0, [At_index 0]) (1, []), Copy 2 (0, []), EraseIndex (2, []) 0, Assign_text (1, []) ''{a=b}'',
      Destroy 0, Destroy 2, Destroy 1]"
  have merged: "copy_chunk sample_map = sample_map" "merge True sample_map sample_map = (None, Chunkdat None 0 (Some (Chunk_map
      [(''a'', Chunkdat None 1 (Some (Chunk_string ''b'')))])))" by code_simp+
  have "run_tree (\<lambda>_. ''x'') ?cmds (\<lambda>_. None) = Some (replicate 10 None, \<lambda>_. None)"
    by (auto simp: sample_texts merged apply_tree_def change_tree_def object_at_def new_chunkdat_def addToList_def
        part_index_def subChunkPtr_index_def erase_index_def listSize_def set_chunk_def fun_eq_iff eval_nat_numeral)
  moreover have "parsed ?cmds (replicate 10 None)" by (simp add: parsed_def eval_nat_numeral)
  ultimately show ?thesis using programs_leak_nothing [of "\<lambda>_. ''x''" ?cmds] by blast
qed

end
