(* ===== verification/Chunk_Faults.thy ===== *)
theory Chunk_Faults
  imports Chunk_Client
begin

text \<open>
  Calls whose argument is a part of the object, or the object itself (src/src/filedat.cpp, lines
  623-798): the \<open>chunkdat const&\<close> of the argument is then read while the object changes. Assigning a part reads a deleted object, a list
  added to itself is read through iterators that are no longer valid, and merging a part
  into its object reads entries the merge itself has just made.
\<close>

section \<open>Assigning a part\<close>

lemma key_address:
  "stored s a c S \<Longrightarrow> subChunkPtr_key k c = Some d \<Longrightarrow>
     \<exists>x V. subChunkPtr_key_obj k a s = Inr (Some x, s) \<and> stored s x d V \<and> V \<subseteq> S - {a}"
  using ptr_key_run [of s a c S k] by auto

lemma index_address:
  "stored s a c S \<Longrightarrow> subChunkPtr_index i c = Some d \<Longrightarrow>
     \<exists>x V. subChunkPtr_index_obj i a s = Inr (Some x, s) \<and> stored s x d V \<and> V \<subseteq> S - {a}"
  using ptr_index_run [of s a c S i] by auto

lemma locate_inside:
  "stored s a c S \<Longrightarrow> part_of p c = Some d \<Longrightarrow>
     \<exists>x V. locate p a s = Inr (x, s) \<and> stored s x d V \<and> V \<subseteq> S \<and> (p \<noteq> [] \<longrightarrow> V \<subseteq> S - {a})"
proof (induction p c arbitrary: a S rule: part_of.induct)
  case (2 k p c)
  then obtain e where e: "subChunkPtr_key k c = Some e" "part_of p e = Some d" by (auto split: option.splits)
  obtain y W where 1: "subChunkPtr_key_obj k a s = Inr (Some y, s)" "stored s y e W" "W \<subseteq> S - {a}"
    using key_address [OF "2.prems"(1) e(1)] by blast
  obtain x V where "locate p y s = Inr (x, s)" "stored s x d V" "V \<subseteq> W" using "2.IH" [OF e(1) 1(2) e(2)] by blast
  with 1 show ?case by (auto simp: run_simps)
next
  case (3 i p c)
  then obtain e where e: "subChunkPtr_index i c = Some e" "part_of p e = Some d" by (auto split: option.splits)
  obtain y W where 1: "subChunkPtr_index_obj i a s = Inr (Some y, s)" "stored s y e W" "W \<subseteq> S - {a}"
    using index_address [OF "3.prems"(1) e(1)] by blast
  obtain x V where "locate p y s = Inr (x, s)" "stored s x d V" "V \<subseteq> W" using "3.IH" [OF e(1) 1(2) e(2)] by blast
  with 1 show ?case by (auto simp: run_simps)
qed (auto simp: run_simps)

text \<open>C18: \<open>a = a[p]\<close> clears the object first, which deletes the part, and then reads it.\<close>

theorem part_assignment_freed:
  assumes "stored s a c S" "part_of p c = Some d" "p \<noteq> []" "depth c \<le> n"
  shows "bindM (locate p a) (\<lambda>i. set_obj n i a) s = Inl Freed"
proof -
  obtain x V where x: "locate p a s = Inr (x, s)" "stored s x d V" "V \<subseteq> S - {a}"
    using locate_inside [OF assms(1,2)] assms(3) by auto
  have "x \<in> S - {a}" using stored_obj [OF x(2)] x(3) by blast
  let ?s = "put_cell a (Obj (m_parent c) (m_offset c) None) (drop_blocks (S - {a}) s)"
  have "\<forall>e \<in> set (children c). deletes (delete_obj n) e"
    using assms(4) depth_children by (meson delete_obj_run less_imp_le order_trans)
  then have "clear_with (delete_obj n) a s = Inr ((), ?s)" using clear_with_run [OF _ assms(1)] by simp
  moreover have "get_obj x ?s = Inl Freed" using \<open>x \<in> S - {a}\<close> by (simp add: get_obj_def)
  ultimately show ?thesis using x(1) by (simp add: set_obj_def set_with_def run_simps)
qed

theorem part_assignment_freed_witness:
  "bindM (locate [At_index 0] 0) (\<lambda>i. set_obj 2 i 0)
     \<lparr>cells = [0 \<mapsto> Obj None 0 (Some 1), 1 \<mapsto> Items [2], 2 \<mapsto> Obj None 0 None], fresh = 3\<rparr> = Inl Freed"
  by (rule part_assignment_freed [where c = "Chunkdat None 0 (Some (Chunk_list [new_chunkdat]))"
        and S = "{0, 1, 2}" and d = new_chunkdat])
    (auto simp: stored_simps new_chunkdat_def subChunkPtr_index_def)

section \<open>A list added to itself\<close>

text \<open>\<open>l *= l\<close> and \<open>l.merge(l)\<close> push to the vector they iterate over: after the first item
  the iterator is no longer valid, and the loop goes on with it.\<close>

theorem list_onto_itself:
  assumes "stored s a c S" "store_ok s" "wf_chunk c" "m_achunk c = Some (Chunk_list l)" "l \<noteq> []" "depth c \<le> n"
  shows "concatenate_obj n a a s = Inl Stale \<and> merge_obj (Suc n) ow a a s = Inl Stale"
proof -
  obtain p off where c: "c = Chunkdat p off (Some (Chunk_list l))" using assms(4) by (cases c) auto
  obtain b xs U where *: "cells s a = Some (Obj p off (Some b))" "cells s b = Some (Items xs)"
    "stored_items s xs l U" "b \<notin> U"
    using assms(1) unfolding c stored_some stored_abstract_simps by auto
  obtain d l' where l: "l = d # l'" using assms(5) by (cases l) auto
  then obtain x ys V where x: "xs = x # ys" "stored s x d V" using *(3) by auto
  have d: "wf_chunk d" "depth d \<le> n" using assms(3,6) by (auto simp: c l wf_items_iff)
  have obj: "stored_abstract s b (Chunk_list l) (insert b U)" unfolding stored_abstract_simps using *(2-4) by blast
  obtain chk s1 s2 W where 1: "pcopy n x s = Inr (chk, s1)" "append_item b chk s1 = Inr ((), s2)"
    "stored_abstract s2 b (Chunk_list (l @ [d])) W" "becomes s (insert b U) s2 W"
    using append_copy_run [OF obj x(2) assms(2) d] by blast
  have add: "addToList_obj n x a s = Inr (None, s2)" using *(1,2) 1(1,2) by (simp add: addToList_obj_def run_simps)
  obtain zs where zs: "cells s2 b = Some (Items zs)" "length zs = Suc (length l)"
    using 1(3) unfolding stored_abstract_simps by (auto dest: stored_items_length)
  then have "zs \<noteq> xs" using stored_items_length [OF *(3)] by auto
  then have stale: "each_item (\<lambda>c. addToList_obj n c a) b xs ys s2 = Inl Stale"
    using zs(1) by (cases ys) (simp_all add: run_simps)
  have loop: "each_item (\<lambda>c. addToList_obj n c a) b xs xs s = Inl Stale"
    unfolding x(1) using *(2) x(1) add stale by (simp add: run_simps)
  show ?thesis using *(1,2) loop by (simp add: concatenate_obj_def run_simps)
qed

theorem list_onto_itself_witness:
  "concatenate_obj 2 0 0 \<lparr>cells = [0 \<mapsto> Obj None 0 (Some 1), 1 \<mapsto> Items [2], 2 \<mapsto> Obj None 0 None], fresh = 3\<rparr> = Inl Stale
   \<and> merge_obj 3 False 0 0 \<lparr>cells = [0 \<mapsto> Obj None 0 (Some 1), 1 \<mapsto> Items [2], 2 \<mapsto> Obj None 0 None], fresh = 3\<rparr> = Inl Stale"
  using list_onto_itself [where c = "Chunkdat None 0 (Some (Chunk_list [new_chunkdat]))" and S = "{0, 1, 2}" and a = 0
      and s = "\<lparr>cells = [0 \<mapsto> Obj None 0 (Some 1), 1 \<mapsto> Items [2], 2 \<mapsto> Obj None 0 None], fresh = 3\<rparr>"
      and l = "[new_chunkdat]" and n = 2 and ow = False]
  by (simp add: stored_simps new_chunkdat_def store_ok_def eval_nat_numeral)

section \<open>Merging a part into its object\<close>

text \<open>
  \<open>w = {a = {a = {z = ...}}}\<close>: merging a copy of \<open>w[a]\<close> into \<open>w\<close> gives \<open>w[a]\<close> the key \<open>z\<close>;
  merging \<open>w[a]\<close> itself also gives it to \<open>w\<close>, since the loop over \<open>w[a]\<close> meets the key
  that it has just inserted there.
\<close>

definition nested_program :: "command list" where
  "nested_program = [Create 0, Create 1, AddKey (1, []) ''z'' (0, []), Create 2, AddKey (2, []) ''a'' (1, []),
     Create 3, AddKey (3, []) ''a'' (2, [])]"

definition keys_after :: "command list \<Rightarrow> (string \<times> addr) list option" where
  "keys_after cmds =
     (case run_heap (\<lambda>_. []) 9 (nested_program @ cmds) (\<lambda>_. None) empty_store of
        Inr ((es, env), s) \<Rightarrow>
          (case get_obj (the (env 3)) s of
             Inr ((p, off, Some b), _) \<Rightarrow> (case get_entries b s of Inr (m, _) \<Rightarrow> Some m | _ \<Rightarrow> None)
           | _ \<Rightarrow> None)
      | _ \<Rightarrow> None)"

lemma merge_part_example:
  "map_option (map fst) (keys_after [Merge False (3, []) (3, [At_key ''a''])]) = Some [''a'', ''z'']"
  "map_option (map fst) (keys_after [Copy 4 (3, [At_key ''a'']), Merge False (3, []) (4, [])]) = Some [''a'']"
  by code_simp+

end
