(* ===== verification/Chunk_Self.thy ===== *)
theory Chunk_Self
  imports Chunk_Faults
begin

text \<open>
  Arguments inside the object, on the store (src/src/filedat.cpp, lines 623-798): a part that is
  added to its own object, and an object that is its own argument. The loops run over the
  blocks they change, as in the code.
\<close>

section \<open>Adding a part\<close>

text \<open>An empty object is made a map or a list before its argument, itself, is copied.\<close>

lemma addToMap_self_empty:
  assumes "cells s a = Some (Obj p off None)" "store_ok s" "2 \<le> n"
  shows "refines False (addToMap_obj n k a a) s a {a}
    (None, Chunkdat p off (Some (Chunk_map [(k, Chunkdat p off (Some (Chunk_map [])))])))"
proof -
  let ?s = "put_cell a (Obj p off (Some (fresh s))) (alloc (Entries []) s)"
  have x: "stored_abstract (alloc (Entries []) s) (fresh s) (Chunk_map []) {fresh s}" by (simp add: stored_abstract_simps)
  note new = fresh_content [OF assms(1,2) x]
  obtain chk s1 s2 V where *: "pcopy n a ?s = Inr (chk, s1)" "insert_entry (fresh s) k chk s1 = Inr (True, s2)"
    "stored_abstract s2 (fresh s) (Chunk_map [(k, Chunkdat p off (Some (Chunk_map [])))]) V" "becomes ?s {fresh s} s2 V"
    using insert_copy_run [OF new(1,3) becomes_ok [OF new(2)], of n k] assms(3) by auto
  have "addToMap_obj n k a a s = Inr (None, s2)"
    using assms(1) new(4) *(1,2) by (simp add: addToMap_obj_def run_simps)
  from refinesI [where act = "addToMap_obj n k a a" and keep = False, OF this first_content [OF assms(1,2) x *(4,3)]]
  show ?thesis by simp
qed

lemma addToList_self_empty:
  assumes "cells s a = Some (Obj p off None)" "store_ok s" "2 \<le> n"
  shows "refines False (addToList_obj n a a) s a {a}
    (None, Chunkdat p off (Some (Chunk_list [Chunkdat p off (Some (Chunk_list []))])))"
proof -
  let ?s = "put_cell a (Obj p off (Some (fresh s))) (alloc (Items []) s)"
  have x: "stored_abstract (alloc (Items []) s) (fresh s) (Chunk_list []) {fresh s}" by (simp add: stored_abstract_simps)
  note new = fresh_content [OF assms(1,2) x]
  obtain chk s1 s2 V where *: "pcopy n a ?s = Inr (chk, s1)" "append_item (fresh s) chk s1 = Inr ((), s2)"
    "stored_abstract s2 (fresh s) (Chunk_list [Chunkdat p off (Some (Chunk_list []))]) V" "becomes ?s {fresh s} s2 V"
    using append_copy_run [OF new(1,3) becomes_ok [OF new(2)], of n] assms(3) by auto
  have "addToList_obj n a a s = Inr (None, s2)"
    using assms(1) new(4) *(1,2) by (simp add: addToList_obj_def run_simps)
  from refinesI [where act = "addToList_obj n a a" and keep = False, OF this first_content [OF assms(1,2) x *(4,3)]]
  show ?thesis by simp
qed

lemma part_of_empty: "part_of p c = Some d \<Longrightarrow> m_achunk c = None \<Longrightarrow> p = [] \<and> d = c"
  by (cases p rule: list.exhaust; cases "hd p")
    (auto simp: subChunkPtr_key_def subChunkPtr_index_def split: option.splits)

section \<open>Merging an object with itself\<close>

text \<open>
  The first thing that stops the merge: a string that is not to be overwritten, or a list with
  items, in the order of the keys. An object without one stays as it is.
\<close>

fun self_merge :: "bool \<Rightarrow> chunkdat \<Rightarrow> fault + exn option"
  and self_merge_values :: "bool \<Rightarrow> (string \<times> chunkdat) list \<Rightarrow> fault + exn option" where
  "self_merge ow (Chunkdat p off ac) = (case ac of
     Some (Chunk_string v) \<Rightarrow> Inr (if ow then None else Some (Format_error ''Cannot merge string chunks'' [] [] (-1)))
   | Some (Chunk_list l) \<Rightarrow> if l = [] then Inr None else Inl Stale
   | Some (Chunk_map m) \<Rightarrow> self_merge_values ow m
   | None \<Rightarrow> Inr None)"
| "self_merge_values ow [] = Inr None"
| "self_merge_values ow ((k, c) # m) =
     (case self_merge ow c of Inr None \<Rightarrow> self_merge_values ow m | r \<Rightarrow> r)"

definition gives :: "fault + exn option \<Rightarrow> store \<Rightarrow> fault + exn option \<times> store" where
  "gives r s = (case r of Inl f \<Rightarrow> Inl f | Inr e \<Rightarrow> Inr (e, s))"

lemma gives_simps [simp]: "gives (Inl f) s = Inl f" "gives (Inr e) s = Inr (e, s)"
  by (simp_all add: gives_def)

lemma entries_loop:
  assumes "\<And>k c x V. (k, c) \<in> set m \<Longrightarrow> (k, x) \<in> set xs \<Longrightarrow> stored s x c V \<Longrightarrow> f k x s = gives (self_merge ow c) s"
    and "map_ok m" "m = ms @ ns" "stored_entries s xs m U" "cells s b = Some (Entries xs)" "length ns < n"
  shows "each_entry n f b (if ms = [] then None else Some (fst (last ms))) s = gives (self_merge_values ow ns) s"
  using assms(3-)
proof (induction ns arbitrary: ms n)
  case Nil
  obtain n' where n: "n = Suc n'" using Nil.prems(4) by (cases n) auto
  have keys: "map fst xs = map fst m" using Nil.prems(2) by (simp add: entries_items)
  have "map_ok (xs @ [])" using map_ok_keys [OF keys] assms(2) by simp
  from next_entry_step [OF this] have "next_entry (if xs = [] then None else Some (fst (last xs))) xs = None" by simp
  moreover have "(if ms = [] then None else Some (fst (last ms))) = (if xs = [] then None else Some (fst (last xs)))"
    using keys Nil.prems(1) by (metis append_Nil2 last_map map_is_Nil_conv)
  ultimately show ?case using Nil.prems(3) n by (simp add: run_simps)
next
  case (Cons e ns)
  obtain k c where e: "e = (k, c)" by force
  obtain n' where n: "n = Suc n'" "length ns < n'" using Cons.prems(4) by (cases n) auto
  have keys: "map fst xs = map fst m" using Cons.prems(2) by (simp add: entries_items)
  obtain ys x zs V where xs: "xs = ys @ (k, x) # zs" "map fst ys = map fst ms" "stored s x c V"
    using entries_at [of s xs ms k c ns U] Cons.prems(1,2) e by blast
  have "map_ok (ys @ (k, x) # zs)" using map_ok_keys [OF keys] assms(2) xs(1) by simp
  from next_entry_step [OF this]
  have "next_entry (if ys = [] then None else Some (fst (last ys))) xs = Some (k, x)" by (simp add: xs(1))
  moreover have "(if ms = [] then None else Some (fst (last ms))) = (if ys = [] then None else Some (fst (last ys)))"
    using xs(2) by (metis last_map map_is_Nil_conv)
  ultimately have found: "next_entry (if ms = [] then None else Some (fst (last ms))) xs = Some (k, x)" by simp
  have fx: "f k x s = gives (self_merge ow c) s" by (rule assms(1) [OF _ _ xs(3)]) (use Cons.prems(1) e xs(1) in simp_all)
  have rest: "each_entry n' f b (Some k) s = gives (self_merge_values ow ns) s"
    using Cons.IH [of "ms @ [e]" n'] Cons.prems n(2) e by simp
  show ?case
  proof (cases "self_merge ow c")
    case (Inl g)
    then show ?thesis using found fx Cons.prems(3) n(1) e by (simp add: run_simps)
  next
    case (Inr r)
    then show ?thesis using found fx rest Cons.prems(3) n(1) e by (cases r) (simp_all add: run_simps)
  qed
qed

lemma set_self:
  assumes "stored s a c S" "depth c \<le> n"
  shows "set_obj n a a s = Inr ((), put_cell a (Obj (m_parent c) (m_offset c) None) (drop_blocks (S - {a}) s))"
proof -
  have "\<forall>e \<in> set (children c). deletes (delete_obj n) e"
    using assms(2) depth_children by (meson delete_obj_run less_imp_le order_trans)
  from clear_with_run [OF this assms(1)] show ?thesis by (simp add: set_obj_def set_with_def run_simps)
qed

lemma same_cell: "cells s a = Some blk \<Longrightarrow> put_cell a blk s = s"
  by (cases s) (simp add: fun_upd_idem)

lemma drop_none: "drop_blocks {} s = s"
  by (cases s) (simp add: restrict_map_def fun_eq_iff)

lemma set_self_empty:
  assumes "cells s a = Some (Obj p off None)" "1 \<le> n"
  shows "set_obj n a a s = Inr ((), s)"
proof -
  have "stored s a (Chunkdat p off None) {a}" using assms(1) by simp
  from set_self [OF this, of n] assms show ?thesis by (simp add: drop_none same_cell)
qed

lemma merge_self_run:
  "stored s a c S \<Longrightarrow> store_ok s \<Longrightarrow> wf_chunk c \<Longrightarrow> weight c < n \<Longrightarrow>
     merge_obj n ow a a s = gives (self_merge ow c) s"
proof (induction n arbitrary: a c S)
  case (Suc n)
  from Suc.prems(1) show ?case
  proof (cases rule: stored_cases)
    case (none p off)
    then have "1 \<le> n" using Suc.prems(4) by simp
    from set_self_empty [OF none(2) this] none show ?thesis by (simp add: run_simps)
  next
    case (some p off x b T)
    show ?thesis
    proof (cases x)
      case (Chunk_string v)
      have "strval_obj n 0 [tab] a s = Inr (v, s)"
        using strval_obj_run [OF _ Suc.prems(1), of n 0 "[tab]"] Suc.prems(4) depth_weight [of c] some(1) Chunk_string by simp
      then show ?thesis using some Chunk_string by (simp add: run_simps same_cell)
    next
      case (Chunk_map m)
      obtain xs U where xs: "cells s b = Some (Entries xs)" "stored_entries s xs m U"
        using some(3) Chunk_map by (auto simp: stored_abstract_simps)
      have c: "m_achunk c = Some (Chunk_map m)" using some(1) Chunk_map by simp
      have ok: "map_ok m" using wf_chunk_achunk(1) [OF Suc.prems(3) c] by simp
      have okxs: "map_ok xs" using map_ok_keys [of xs m] xs(2) ok by (simp add: entries_items)
      have each: "merge_entry (merge_obj n ow) n b a k x s = gives (self_merge ow d) s"
        if "(k, d) \<in> set m" "(k, x) \<in> set xs" "stored s x d V" for k d x V
      proof -
        have "map_find k xs = Some x" using that(2) okxs by (simp add: map_find_map_of map_ok_distinct)
        moreover have ch: "d \<in> set (children c)" using that(1) some(1) Chunk_map by force
        then have "merge_obj n ow x x s = gives (self_merge ow d) s"
          using Suc.IH [OF that(3) Suc.prems(2) wf_children [OF Suc.prems(3) ch]] weight_children [OF ch] Suc.prems(4) by simp
        ultimately show ?thesis using xs(1) by (simp add: merge_entry_def run_simps)
      qed
      have "length m < n" using Suc.prems(4) some(1) Chunk_map by simp
      then have "each_entry n (merge_entry (merge_obj n ow) n b a) b (if ([] :: (string \<times> chunkdat) list) = [] then None
          else Some (fst (last ([] :: (string \<times> chunkdat) list)))) s = gives (self_merge_values ow m) s"
        using ok xs by (intro entries_loop [where m = m and xs = xs and U = U]) (simp_all add: each)
      then have "each_entry n (merge_entry (merge_obj n ow) n b a) b None s = gives (self_merge_values ow m) s" by simp
      then show ?thesis using some Chunk_map xs(1) by (simp add: run_simps)
    next
      case (Chunk_list l)
      show ?thesis
      proof (cases "l = []")
        case True
        then show ?thesis using some Chunk_list by (auto simp: run_simps stored_abstract_simps)
      next
        case False
        have "depth c \<le> n" using Suc.prems(4) depth_weight [of c] by simp
        with list_onto_itself [OF Suc.prems(1-3) _ False] some(1) Chunk_list False show ?thesis by simp
      qed
    qed
  qed
qed simp

section \<open>The calls\<close>

lemma locate_refines:
  assumes "stored s a c S" "part_of p c = Some d"
    and "\<And>x V. stored s x d V \<Longrightarrow> (p \<noteq> [] \<Longrightarrow> a \<notin> V) \<Longrightarrow> (p = [] \<Longrightarrow> x = a) \<Longrightarrow> refines keep (act x) s a S out"
  shows "refines keep (bindM (locate p a) act) s a S out"
proof -
  obtain x V where x: "locate p a s = Inr (x, s)" "stored s x d V" "p \<noteq> [] \<longrightarrow> V \<subseteq> S - {a}"
    using locate_inside [OF assms(1,2)] by blast
  have "p = [] \<Longrightarrow> x = a" using x(1) by (simp add: run_simps)
  moreover have "p \<noteq> [] \<Longrightarrow> a \<notin> V" using x(3) by auto
  ultimately have "refines keep (act x) s a S out" using assms(3) x(2) by blast
  moreover have "bindM (locate p a) act s = act x s" using x(1) by (simp add: run_simps)
  ultimately show ?thesis using refines_cong by blast
qed

text \<open>C20: adding a part of an object, or the object, to the object as a key or an item does what adding
  a copy of it made before the call does, except that an empty object added to itself is already an
  empty map, or an empty list, when it is copied.\<close>

theorem part_argument:
  assumes "stored s a c S" "store_ok s" "wf_chunk c" "part_of p c = Some d" "Suc (depth c) \<le> n"
  shows "refines False (bindM (locate p a) (\<lambda>i. addToMap_obj n k i a)) s a S
      (if m_achunk c = None then (None, set_achunk (Chunk_map [(k, set_achunk (Chunk_map []) d)]) c)
       else addToMap (k, d) c) \<and>
    refines False (bindM (locate p a) (\<lambda>i. addToList_obj n i a)) s a S
      (if m_achunk c = None then (None, set_achunk (Chunk_list [set_achunk (Chunk_list []) d]) c)
       else addToList d c)"
proof (cases "m_achunk c")
  case None
  then obtain q off where c: "c = Chunkdat q off None" by (cases c) auto
  have p: "p = []" "d = c" using part_of_empty [OF assms(4) None] by auto
  have a: "cells s a = Some (Obj q off None)" "S = {a}" using assms(1) c by auto
  have "2 \<le> n" using assms(5) c by simp
  from addToMap_self_empty [OF a(1) assms(2) this] addToList_self_empty [OF a(1) assms(2) this]
  show ?thesis using p c a(2) by (auto simp: run_simps refines_def)
next
  case (Some x)
  have d: "wf_chunk d" "depth d \<le> n" "depth c \<le> n" using part_of_bounds [OF assms(4,3)] assms(5) by auto
  have "refines False (bindM (locate p a) (\<lambda>i. addToMap_obj n k i a)) s a S (addToMap (k, d) c)"
  proof (rule locate_refines [OF assms(1,4)])
    fix y V assume "stored s y d V"
    from addToMap_refines_inside [OF assms(1) this _ assms(2,3) d(1,3,2)] Some
    show "refines False (addToMap_obj n k y a) s a S (addToMap (k, d) c)" by (auto intro: refines_mono)
  qed
  moreover have "refines False (bindM (locate p a) (\<lambda>i. addToList_obj n i a)) s a S (addToList d c)"
  proof (rule locate_refines [OF assms(1,4)])
    fix y V assume "stored s y d V"
    from addToList_refines_inside [OF assms(1) this _ assms(2) d(1,3,2)] Some
    show "refines False (addToList_obj n y a) s a S (addToList d c)" by (auto intro: refines_mono)
  qed
  ultimately show ?thesis using Some by simp
qed


theorem part_argument_witness:
  "refines False (bindM (locate [At_index 0] 0) (\<lambda>i. addToMap_obj 3 ''k'' i 0))
      \<lparr>cells = [0 \<mapsto> Obj None 0 (Some 1), 1 \<mapsto> Items [2], 2 \<mapsto> Obj None 0 None], fresh = 3\<rparr> 0 {0, 1, 2}
      (addToMap (''k'', new_chunkdat) (Chunkdat None 0 (Some (Chunk_list [new_chunkdat])))) \<and>
   refines False (bindM (locate [At_index 0] 0) (\<lambda>i. addToList_obj 3 i 0))
      \<lparr>cells = [0 \<mapsto> Obj None 0 (Some 1), 1 \<mapsto> Items [2], 2 \<mapsto> Obj None 0 None], fresh = 3\<rparr> 0 {0, 1, 2}
      (None, Chunkdat None 0 (Some (Chunk_list [new_chunkdat, new_chunkdat])))"
  using part_argument [where c = "Chunkdat None 0 (Some (Chunk_list [new_chunkdat]))" and S = "{0, 1, 2}" and a = 0
      and s = "\<lparr>cells = [0 \<mapsto> Obj None 0 (Some 1), 1 \<mapsto> Items [2], 2 \<mapsto> Obj None 0 None], fresh = 3\<rparr>"
      and p = "[At_index 0]" and d = new_chunkdat and n = 3 and k = "''k''"]
  by (simp add: stored_simps new_chunkdat_def store_ok_def subChunkPtr_index_def addToList_def eval_nat_numeral)

text \<open>A string added to itself, and a map.\<close>

lemma string_onto_itself:
  assumes "stored s a c S" "store_ok s" "m_achunk c = Some (Chunk_string v)"
  shows "refines False (concatenate_obj n a a) s a S (None, set_achunk (Chunk_string (v @ v)) c)"
proof -
  obtain p off where c: "c = Chunkdat p off (Some (Chunk_string v))" using assms(3) by (cases c) auto
  obtain b U where *: "cells s a = Some (Obj p off (Some b))" "stored_abstract s b (Chunk_string v) U" "a \<notin> U" "S = insert a U"
    using assms(1) unfolding c stored_some by auto
  have b: "cells s b = Some (Str v)" using *(2) by (simp add: stored_abstract_simps)
  have run: "concatenate_obj n a a s = Inr (None, put_cell b (Str (v @ v)) s)"
    using *(1) b by (simp add: concatenate_obj_def run_simps)
  from refinesI [where act = "concatenate_obj n a a" and keep = False, OF run put_string [OF *(1-3) assms(2)]]
  show ?thesis using c *(4) by simp
qed

lemma map_onto_itself:
  assumes "stored s a c S" "store_ok s" "wf_chunk c" "m_achunk c = Some (Chunk_map ((k, d) # m))" "depth c \<le> n" "0 < n"
  shows "refines False (concatenate_obj n a a) s a S (Some (own_error (key_message ''Key '' k '' already present'') c), c)"
proof -
  obtain p off where c: "c = Chunkdat p off (Some (Chunk_map ((k, d) # m)))" using assms(4) by (cases c) auto
  obtain b U where *: "cells s a = Some (Obj p off (Some b))" "stored_abstract s b (Chunk_map ((k, d) # m)) U" "a \<notin> U" "S = insert a U"
    using assms(1) unfolding c stored_some by auto
  obtain xs W where xs: "cells s b = Some (Entries xs)" "stored_entries s xs ((k, d) # m) W"
    using *(2) unfolding stored_abstract_simps by blast
  obtain x ys V where x: "xs = (k, x) # ys" "stored s x d V" using xs(2) by auto
  have d: "d \<in> set (children c)" using c by simp
  have "wf_chunk d" "depth d \<le> n" using wf_children [OF assms(3) d] depth_children [OF d] assms(5) by auto
  moreover have "map_ok ((k, d) # m)" using wf_chunk_achunk(1) [OF assms(3,4)] by simp
  then have "\<not> snd (map_insert k d ((k, d) # m))" by simp
  ultimately have "refines True (addToMap_obj n k x a) s a S (Some (own_error (key_message ''Key '' k '' already present'') c), c)"
    by (rule addToMap_old_key [OF assms(1) *(1,2) x(2) assms(2) _ _ assms(5)])
  moreover from this obtain s' where "addToMap_obj n k x a s = Inr (Some (own_error (key_message ''Key '' k '' already present'') c), s')"
    by (auto simp: refines_def)
  then have "concatenate_obj n a a s = addToMap_obj n k x a s"
    using *(1) xs(1) x(1) assms(6) by (cases n) (simp_all add: concatenate_obj_def next_entry_def run_simps)
  ultimately show ?thesis using refines_mono refines_cong by blast
qed

lemma nothing_onto_itself:
  assumes "stored s a c S" "0 < n" "m_achunk c = None \<or> m_achunk c = Some (Chunk_map []) \<or> m_achunk c = Some (Chunk_list [])"
  shows "concatenate_obj n a a s = Inr (None, s)"
  using assms(1)
proof (cases rule: stored_cases)
  case (none p off)
  have "1 \<le> n" using assms(2) by simp
  from set_self_empty [OF none(2) this] none show ?thesis by (simp add: concatenate_obj_def run_simps)
next
  case (some p off x b T)
  obtain n' where "n = Suc n'" using assms(2) by (cases n) auto
  with some assms(3) show ?thesis
    by (auto simp: concatenate_obj_def run_simps next_entry_def stored_abstract_simps)
qed

text \<open>C21: 
  C21: an object as its own argument. Assigning it to itself leaves it empty and frees all that it held. Concatenating
  it with itself doubles a string, stops at the first key of a map that has one, goes on with an invalid iterator
  for a list that has an item, and changes nothing otherwise. Merging it with itself never changes it: it throws at a
  string that is not to be overwritten, goes on with an invalid iterator at a list that has an item, whichever comes
  first in the order of the keys, and otherwise returns.
\<close>

theorem self_argument:
  assumes "stored s a c S" "store_ok s" "wf_chunk c" "weight c < n"
  shows "set_obj n a a s = Inr ((), put_cell a (Obj (m_parent c) (m_offset c) None) (drop_blocks (S - {a}) s)) \<and>
    (case m_achunk c of
       Some (Chunk_string v) \<Rightarrow> refines False (concatenate_obj n a a) s a S (None, set_achunk (Chunk_string (v @ v)) c)
     | Some (Chunk_map ((k, d) # m)) \<Rightarrow>
         refines False (concatenate_obj n a a) s a S (Some (own_error (key_message ''Key '' k '' already present'') c), c)
     | Some (Chunk_list (d # l)) \<Rightarrow> concatenate_obj n a a s = Inl Stale
     | _ \<Rightarrow> concatenate_obj n a a s = Inr (None, s)) \<and>
    merge_obj n ow a a s = gives (self_merge ow c) s"
proof (intro conjI)
  have n: "depth c \<le> n" "0 < n" using assms(4) depth_weight [of c] by auto
  show "set_obj n a a s = Inr ((), put_cell a (Obj (m_parent c) (m_offset c) None) (drop_blocks (S - {a}) s))"
    by (rule set_self [OF assms(1) n(1)])
  show "merge_obj n ow a a s = gives (self_merge ow c) s" by (rule merge_self_run [OF assms])
  show "case m_achunk c of
       Some (Chunk_string v) \<Rightarrow> refines False (concatenate_obj n a a) s a S (None, set_achunk (Chunk_string (v @ v)) c)
     | Some (Chunk_map ((k, d) # m)) \<Rightarrow>
         refines False (concatenate_obj n a a) s a S (Some (own_error (key_message ''Key '' k '' already present'') c), c)
     | Some (Chunk_list (d # l)) \<Rightarrow> concatenate_obj n a a s = Inl Stale
     | _ \<Rightarrow> concatenate_obj n a a s = Inr (None, s)"
    using string_onto_itself [OF assms(1,2), of _ n] map_onto_itself [OF assms(1-3) _ n]
      list_onto_itself [OF assms(1-3) _ _ n(1)] nothing_onto_itself [OF assms(1) n(2)]
    by (auto split: option.splits chunk_abstract.splits list.splits)
qed

theorem self_argument_witness:
  "set_obj 3 0 0 \<lparr>cells = [0 \<mapsto> Obj None 0 (Some 1), 1 \<mapsto> Items [2], 2 \<mapsto> Obj None 0 None], fresh = 3\<rparr>
     = Inr ((), put_cell 0 (Obj None 0 None) (drop_blocks {1, 2}
         \<lparr>cells = [0 \<mapsto> Obj None 0 (Some 1), 1 \<mapsto> Items [2], 2 \<mapsto> Obj None 0 None], fresh = 3\<rparr>)) \<and>
   concatenate_obj 3 0 0 \<lparr>cells = [0 \<mapsto> Obj None 0 (Some 1), 1 \<mapsto> Items [2], 2 \<mapsto> Obj None 0 None], fresh = 3\<rparr> = Inl Stale \<and>
   merge_obj 3 True 0 0 \<lparr>cells = [0 \<mapsto> Obj None 0 (Some 1), 1 \<mapsto> Items [2], 2 \<mapsto> Obj None 0 None], fresh = 3\<rparr> = Inl Stale"
  using self_argument [where c = "Chunkdat None 0 (Some (Chunk_list [new_chunkdat]))" and S = "{0, 1, 2}" and a = 0
      and s = "\<lparr>cells = [0 \<mapsto> Obj None 0 (Some 1), 1 \<mapsto> Items [2], 2 \<mapsto> Obj None 0 None], fresh = 3\<rparr>"
      and n = 3 and ow = True]
  by (simp add: stored_simps new_chunkdat_def store_ok_def insert_Diff_if)

end
