(* ===== verification/Filedat.thy ===== *)
theory Filedat
  imports Chunk_Ops
begin

text \<open>
  The file object \<open>filedat\<close> (src/src/filedat.cpp, lines 31-234, and
  src/include/filedat.hpp): removing comments, importing from a string, a file or the
  standard input, exporting, and the report \<open>printErrorIndex\<close> of an exception.

  The operating system's files are a parameter: \<open>fs path\<close> is the content of a readable
  file. Strings are shorter than \<open>2 ^ 32\<close> bytes, the range of the \<open>uint32_t\<close> positions.
\<close>

section \<open>Removing comments\<close>

text \<open>
  The text up to and with the closing quote \<open>q\<close>, and the rest (lines 85-91 and 100-106);
  \<open>None\<close> when the quote does not end.
\<close>

fun rc_quote :: "char \<Rightarrow> string \<Rightarrow> (string \<times> string) option" where
  "rc_quote q [] = None"
| "rc_quote q (c # r) =
     (if c = q then Some ([c], r)
      else if r \<noteq> [] \<and> c = bslash \<and> hd r = q then
        map_option (\<lambda>(t, rest). (c # hd r # t, rest)) (rc_quote q (tl r))
      else map_option (\<lambda>(t, rest). (c # t, rest)) (rc_quote q r))"

lemma rc_quote_split: "rc_quote q r = Some (t, rest) \<Longrightarrow> r = t @ rest \<and> t \<noteq> []"
  by (induction q r arbitrary: t rule: rc_quote.induct)
    (force split: if_splits simp: neq_Nil_conv)+

lemma drop_line_less: "length (drop 1 (dropWhile P (c # r))) < Suc (length r)"
  using length_dropWhile_le [of P "c # r"] by simp

text \<open>
  The loop over the string: \<open>pre\<close> is what lies before the position, the last argument what
  lies from it on. Behind a closing quote, a backslash and a comment the loop advances one
  character more (line 118).
\<close>

function rc_loop :: "string \<Rightarrow> string \<Rightarrow> exn + string" where
  "rc_loop pre [] = Inr pre"
| "rc_loop pre (c # r) =
     (if c = bslash then rc_loop (pre @ take 2 (c # r)) (drop 2 (c # r))
      else if c = dquote then
        (case rc_quote dquote r of
           None \<Rightarrow> Inl (Format_error (''Double quote doesn'' @ [squote] @ ''t close'') []
                     (pre @ c # r) (int (length pre)))
         | Some (t, rest) \<Rightarrow> rc_loop (pre @ c # t @ take 1 rest) (drop 1 rest))
      else if c = squote then
        (case rc_quote squote r of
           None \<Rightarrow> Inl (Format_error (''Single quote doesn'' @ [squote] @ ''t close'') []
                     (pre @ c # r) (int (length pre)))
         | Some (t, rest) \<Rightarrow> rc_loop (pre @ c # t @ take 1 rest) (drop 1 rest))
      else if c = CHR ''#'' \<or> take 2 (c # r) = ''//'' then
        (let rest = dropWhile (\<lambda>x. x \<noteq> newline) (c # r)
         in rc_loop (pre @ take 1 rest) (drop 1 rest))
      else rc_loop (pre @ [c]) r)"
  by pat_completeness auto
termination
proof (relation "measure (\<lambda>(pre, r). length r)")
  show "((pre @ take 1 x, drop 1 x), pre, c # r) \<in> measure (\<lambda>(pre, r). length r)"
    if "x = dropWhile (\<lambda>x. x \<noteq> newline) (c # r)" for pre c r x
    using that drop_line_less [of "\<lambda>x. x \<noteq> newline" c r] by simp
qed (auto dest!: rc_quote_split)

definition removeComments :: "string \<Rightarrow> exn + string" where
  "removeComments str = rc_loop [] str"

section \<open>The file object\<close>

record filedat =
  m_filePath :: string
  m_data :: string
  m_dataChunk :: "chunkdat option"

definition new_filedat :: "string \<Rightarrow> filedat" where
  "new_filedat path = \<lparr>m_filePath = path, m_data = [], m_dataChunk = Some new_chunkdat\<rparr>"

definition setFilePath :: "string \<Rightarrow> filedat \<Rightarrow> filedat" where
  "setFilePath path fd = fd\<lparr>m_filePath := path\<rparr>"

text \<open>\<open>clear\<close>: a null pointer left by a failed import stays null.\<close>

definition clear_filedat :: "filedat \<Rightarrow> filedat" where
  "clear_filedat fd = fd\<lparr>m_data := [],
     m_dataChunk := (case m_dataChunk fd of None \<Rightarrow> None | Some _ \<Rightarrow> Some new_chunkdat)\<rparr>"

definition strval_filedat :: "string \<Rightarrow> filedat \<Rightarrow> string" where
  "strval_filedat aligner fd =
     (case m_dataChunk fd of None \<Rightarrow> [] | Some c \<Rightarrow> strval 0 aligner c)"

definition set_data :: "chunkdat \<Rightarrow> filedat \<Rightarrow> exn option \<times> filedat" where
  "set_data c fd =
     (case m_dataChunk fd of
        None \<Rightarrow> (Some Undefined, fd)
      | Some d \<Rightarrow> (None, fd\<lparr>m_dataChunk := Some (set_chunk c d)\<rparr>))"

text \<open>Access to the object, through a pointer that may be null.\<close>

definition filedat_data :: "filedat \<Rightarrow> exn + chunkdat" where
  "filedat_data fd = (case m_dataChunk fd of None \<Rightarrow> Inl Undefined | Some c \<Rightarrow> Inr c)"

definition filedat_key :: "files \<Rightarrow> string \<Rightarrow> filedat \<Rightarrow> exn + chunkdat" where
  "filedat_key files key fd =
     (case m_dataChunk fd of None \<Rightarrow> Inl Undefined | Some c \<Rightarrow> subChunkRef_key files key c)"

definition filedat_index :: "files \<Rightarrow> 32 word \<Rightarrow> filedat \<Rightarrow> exn + chunkdat" where
  "filedat_index files i fd =
     (case m_dataChunk fd of None \<Rightarrow> Inl Undefined | Some c \<Rightarrow> subChunkRef_index files i c)"

definition chunkdat_of_filedat :: "filedat \<Rightarrow> exn + chunkdat" where
  "chunkdat_of_filedat fd =
     (case m_dataChunk fd of None \<Rightarrow> Inl Undefined | Some c \<Rightarrow> Inr (chunkdat_of_chunk c))"

definition print_filedat :: "filedat \<Rightarrow> string" where
  "print_filedat fd = strval_filedat [tab] fd"

definition print_chunkdat :: "chunkdat \<Rightarrow> string" where
  "print_chunkdat c = strval 0 [tab] c"

text \<open>
  \<open>generateChunk\<close> (lines 220-234). The comments are removed from \<open>m_data\<close> itself, and the
  handler reports the path and \<open>m_data\<close> as it then is.
\<close>

definition generateChunk :: "(string \<Rightarrow> string) \<Rightarrow> filedat \<Rightarrow> exn option \<times> filedat" where
  "generateChunk mem fd =
     (let handler = (\<lambda>fd. catch_format (\<lambda>w src i. Format_error (cstr w) (m_filePath fd) (m_data fd) i))
      in case removeComments (m_data fd) of
        Inl e \<Rightarrow> (Some (handler fd e), fd\<lparr>m_dataChunk := None\<rparr>)
      | Inr data \<Rightarrow>
          (let fd = fd\<lparr>m_data := data\<rparr>
           in case chunkdat_of_string mem (m_data fd) 0 None of
                Inl e \<Rightarrow> (Some (handler fd e), fd\<lparr>m_dataChunk := None\<rparr>)
              | Inr c \<Rightarrow> (None, fd\<lparr>m_dataChunk := Some c\<rparr>)))"

definition import_string :: "(string \<Rightarrow> string) \<Rightarrow> string \<Rightarrow> filedat \<Rightarrow> exn option \<times> filedat" where
  "import_string mem data fd =
     generateChunk mem ((clear_filedat fd)\<lparr>m_data := data, m_filePath := []\<rparr>)"

section \<open>Reading lines\<close>

text \<open>An input stream: the bytes not read yet and the two state bits \<open>getline\<close> sets.\<close>

record istream =
  unread :: string
  eofbit :: bool
  failbit :: bool

definition open_stream :: "string \<Rightarrow> istream" where
  "open_stream s = \<lparr>unread = s, eofbit = False, failbit = False\<rparr>"

text \<open>
  \<open>std::getline\<close>. On a stream that is not good it sets \<open>failbit\<close> and leaves the string as it
  was; otherwise it clears the string, takes the characters before the next newline and
  the newline, and sets \<open>eofbit\<close> at the end of the data, \<open>failbit\<close> when it took nothing.
\<close>

definition getline :: "istream \<Rightarrow> string \<Rightarrow> istream \<times> string" where
  "getline st line =
     (if eofbit st \<or> failbit st then (st\<lparr>failbit := True\<rparr>, line)
      else (let taken = takeWhile (\<lambda>c. c \<noteq> newline) (unread st);
                rest = dropWhile (\<lambda>c. c \<noteq> newline) (unread st)
            in if rest = [] then (st\<lparr>unread := [], eofbit := True, failbit := (taken = [])\<rparr>, taken)
               else (st\<lparr>unread := tl rest\<rparr>, taken)))"

lemma getline_progress:
  assumes "\<not> failbit st" "getline st line = (st', line')"
  shows "failbit st' \<or> (\<not> eofbit st \<and> (eofbit st' \<or> length (unread st') < length (unread st)))"
proof (cases "eofbit st")
  case True
  with assms show ?thesis by (auto simp: getline_def)
next
  case False
  obtain r where r: "dropWhile (\<lambda>c. c \<noteq> newline) (unread st) = r" by blast
  have "length (tl r) < length (unread st)" if "r \<noteq> []"
    using that r length_dropWhile_le [of "\<lambda>c. c \<noteq> newline" "unread st"]
    by (cases r) (simp_all add: less_eq_Suc_le)
  with False assms r show ?thesis by (simp add: getline_def Let_def split: if_splits) force+
qed

text \<open>\<open>while(st)\<close> tests \<open>failbit\<close>: the loop of lines 170-174 and 183-187.\<close>

function read_lines :: "istream \<Rightarrow> string \<Rightarrow> string \<Rightarrow> string" where
  "read_lines st line data =
     (if failbit st then data
      else (case getline st line of (st', line') \<Rightarrow> read_lines st' line' (data @ line' @ [newline])))"
  by pat_completeness auto

termination
proof (relation "measure (\<lambda>(st, line, data). if failbit st then 0 else if eofbit st then 1
      else 2 + length (unread st))")
  show "((st', line', data @ line' @ [newline]), st, line, data) \<in> measure (\<lambda>(st, line, data).
      if failbit st then 0 else if eofbit st then 1 else 2 + length (unread st))"
    if "\<not> failbit st" "(st', line') = getline st line" for st line data st' line'
    using getline_progress [OF that(1) that(2) [symmetric]] that(1) by auto
qed simp

declare read_lines.simps [simp del]

definition import_file :: "(string \<Rightarrow> string) \<Rightarrow> (string \<Rightarrow> string option) \<Rightarrow> string \<Rightarrow> filedat
    \<Rightarrow> exn option \<times> filedat" where
  "import_file mem fs path fd =
     (let fd = (if path \<noteq> [] then fd\<lparr>m_filePath := path\<rparr> else fd) in
      case fs (m_filePath fd) of
        None \<Rightarrow> (Some (Runtime_error (''Cannot read file '' @ [squote] @ m_filePath fd @ [squote])), fd)
      | Some content \<Rightarrow>
          generateChunk mem ((clear_filedat fd)\<lparr>m_data := read_lines (open_stream content) [] []\<rparr>))"

definition import_stdin :: "(string \<Rightarrow> string) \<Rightarrow> istream \<Rightarrow> filedat \<Rightarrow> exn option \<times> filedat" where
  "import_stdin mem cin fd =
     generateChunk mem ((clear_filedat (fd\<lparr>m_filePath := ''stdin''\<rparr>))\<lparr>m_data := read_lines cin [] []\<rparr>)"

definition readTest :: "(string \<Rightarrow> string option) \<Rightarrow> filedat \<Rightarrow> bool" where
  "readTest fs fd = (fs (m_filePath fd) \<noteq> None)"

text \<open>\<open>export_file\<close>: the paths the process can open for writing are a parameter.\<close>

definition export_file :: "(string \<Rightarrow> bool) \<Rightarrow> string \<Rightarrow> string \<Rightarrow> filedat
    \<Rightarrow> (string \<Rightarrow> string option) \<Rightarrow> bool \<times> (string \<Rightarrow> string option)" where
  "export_file writable path aligner fd fs =
     (let target = (if path = [] then m_filePath fd else path)
      in if \<not> writable target then (False, fs)
         else (True, fs(target \<mapsto> strval_filedat aligner fd)))"

section \<open>Reporting an exception\<close>

text \<open>
  The two loops of \<open>printErrorIndex\<close> (lines 33-52): the end of the line that is printed, its
  start and its number. \<open>inp\<close> is the C string, without its terminator.
\<close>

fun pe_find :: "nat \<Rightarrow> string \<Rightarrow> nat \<Rightarrow> nat \<Rightarrow> nat \<Rightarrow> nat \<times> nat \<times> nat" where
  "pe_find index [] i j line = (i, j, line)"
| "pe_find index (c # r) i j line =
     (if i < index then
        (if c = newline then pe_find index r (Suc i) (Suc i) (Suc line)
         else pe_find index r (Suc i) j line)
      else if c \<noteq> newline then pe_find index r (Suc i) j line
      else (i, j, line))"

definition error_position :: "string \<Rightarrow> int \<Rightarrow> nat \<times> nat \<times> nat" where
  "error_position inp index = (if index \<ge> 0 then pe_find (nat index) inp 0 0 1 else (0, 0, 1))"

text \<open>The number of blanks before the caret is an \<open>unsigned int\<close>.\<close>

definition caret :: "int \<Rightarrow> nat \<Rightarrow> string" where
  "caret index j = repeatString '' '' (unat (of_int (index - int j) :: 32 word)) @ ''^'' @ [newline]"

definition printErrorIndex :: "string \<Rightarrow> int \<Rightarrow> string \<Rightarrow> string \<Rightarrow> string" where
  "printErrorIndex data index message source =
     (let inp = cstr data in case error_position inp index of (i, j, line) \<Rightarrow>
      if source \<noteq> [] then
        source @ '': Error'' @ [newline] @ ''Line '' @ to_string line @ '' col ''
          @ int_to_string (index - int j + 1) @ '': '' @ message @ [newline]
          @ take (i - j) (drop j inp) @ [newline] @ caret index j
      else
        ''Format Error: '' @ message @ [newline]
          @ (if index \<ge> 0 then take i inp @ [newline] @ caret index j
             else inp @ [newline]))"

fun printFormatException :: "exn \<Rightarrow> string option" where
  "printFormatException (Format_error w src d i) = Some (printErrorIndex d i (cstr w) (cstr src))"
| "printFormatException _ = None"

end
