(* ===== verification/Filedat_Laws.thy ===== *)
theory Filedat_Laws
  imports Filedat Objects Roundtrip
begin

text \<open>
  Facts about \<open>filedat\<close>: what reading lines does to a file, when removing comments leaves a
  text alone, what follows a written map or list, and how the caret of a report is placed.
\<close>

declare strval_values.simps(2) [simp del] repeatString.simps(2) [simp del]

section \<open>Reading lines\<close>

definition last_line :: "string \<Rightarrow> string" where
  "last_line s = rev (takeWhile (\<lambda>c. c \<noteq> newline) (rev s))"

lemma line_all: "newline \<notin> set s \<Longrightarrow> takeWhile (\<lambda>c. c \<noteq> newline) s = s"
  by (auto simp: takeWhile_eq_all_conv)

lemma last_line_newline: "last_line (u @ newline # r) = last_line r"
proof (cases "newline \<in> set r")
  case True
  then show ?thesis by (simp add: last_line_def)
next
  case False
  then have "takeWhile (\<lambda>c. c \<noteq> newline) (rev r) = rev r" by (intro line_all) simp
  moreover from False have "takeWhile (\<lambda>c. c \<noteq> newline) (rev r @ newline # rev u) = rev r"
    by (subst takeWhile_append2) auto
  ultimately show ?thesis by (simp add: last_line_def del: takeWhile_eq_all_conv)
qed

lemma read_lines_open:
  "read_lines (open_stream s) line data =
     data @ (if s = [] \<or> last s = newline then s @ [newline]
             else s @ [newline] @ last_line s @ [newline])"
proof (induction s arbitrary: line data rule: length_induct)
  case (1 s)
  have stopped: "read_lines \<lparr>unread = u, eofbit = b, failbit = True\<rparr> l d = d" for u b l d
    by (simp add: read_lines.simps)
  let ?l = "takeWhile (\<lambda>c. c \<noteq> newline) s" and ?r = "dropWhile (\<lambda>c. c \<noteq> newline) s"
  show ?case
  proof (cases ?r)
    case Nil
    then have all: "newline \<notin> set s" by (auto simp: dropWhile_eq_Nil_conv)
    then have s: "?l = s" "last_line s = s"
      by (auto simp: last_line_def takeWhile_eq_all_conv rev_swap)
    show ?thesis
    proof (cases "s = []")
      case True
      then show ?thesis
        by (simp add: read_lines.simps [of "\<lparr>unread = [], eofbit = False, failbit = False\<rparr>"]
            getline_def Let_def open_stream_def stopped)
    next
      case False
      then have "last s \<noteq> newline" using all last_in_set by metis
      with False s(2) line_all [OF all] Nil show ?thesis
        by (simp del: takeWhile_eq_all_conv dropWhile_eq_Nil_conv add: read_lines.simps [of "\<lparr>unread = s, eofbit = False, failbit = False\<rparr>"]
            getline_def Let_def open_stream_def read_lines.simps [of "\<lparr>unread = [], eofbit = True, failbit = False\<rparr>"] stopped)
    qed
  next
    case (Cons c r)
    then have c: "c = newline" using hd_dropWhile [of "\<lambda>c. c \<noteq> newline" s] by simp
    have s: "s = ?l @ newline # r" using takeWhile_dropWhile_id [of "\<lambda>c. c \<noteq> newline" s] Cons c by simp
    have len: "length r < length s" by (subst s) simp
    have "read_lines (open_stream s) line data = read_lines (open_stream r) ?l (data @ ?l @ [newline])"
      using Cons by (simp add: read_lines.simps [of "\<lparr>unread = s, eofbit = False, failbit = False\<rparr>"] getline_def Let_def open_stream_def)
    also have "\<dots> = (data @ ?l @ [newline]) @ (if r = [] \<or> last r = newline then r @ [newline]
             else r @ [newline] @ last_line r @ [newline])"
      using 1 len by blast
    also have "\<dots> = data @ (if r = [] \<or> last r = newline then (?l @ newline # r) @ [newline]
             else (?l @ newline # r) @ [newline] @ last_line r @ [newline])" by simp
    also have "\<dots> = data @ (if r = [] \<or> last r = newline then s @ [newline]
             else s @ [newline] @ last_line r @ [newline])" by (simp only: s [symmetric])
    finally have eq: "read_lines (open_stream s) line data = data @ (if r = [] \<or> last r = newline
             then s @ [newline] else s @ [newline] @ last_line r @ [newline])" .
    have ll: "last_line s = last_line r" by (subst s) (rule last_line_newline)
    have "last s = (if r = [] then newline else last r)" "s \<noteq> []" by (subst s, simp)+
    with eq ll show ?thesis by (cases "r = [] \<or> last r = newline") auto
  qed
qed

section \<open>Texts without comments\<close>

text \<open>\<open>rc_passes t\<close>: the loop copies \<open>t\<close> and comes out behind it.\<close>

definition rc_passes :: "string \<Rightarrow> bool" where
  "rc_passes t \<longleftrightarrow> (\<forall>pre r. rc_loop pre (t @ r) = rc_loop (pre @ t) r)"

definition rc_plain :: "char \<Rightarrow> bool" where
  "rc_plain c \<longleftrightarrow> c \<notin> {bslash, dquote, squote, CHR ''#'', CHR ''/''}"

lemma rc_passes_append [intro]: "rc_passes s \<Longrightarrow> rc_passes t \<Longrightarrow> rc_passes (s @ t)"
  by (simp add: rc_passes_def)

lemma rc_passes_plain: "\<forall>c \<in> set t. rc_plain c \<Longrightarrow> rc_passes t"
proof (induction t)
  case (Cons c t)
  then show ?case by (simp add: rc_passes_def rc_plain_def numeral_2_eq_2)
qed (simp add: rc_passes_def)

lemma rc_quote_escape:
  "s = [] \<or> last s \<noteq> bslash \<Longrightarrow>
     rc_quote dquote (escape s dquote @ dquote # r) = Some (escape s dquote @ [dquote], r)"
proof (induction s)
  case (Cons x xs)
  from Cons.prems have "xs = [] \<or> last xs \<noteq> bslash" by (auto split: if_splits)
  moreover from Cons.prems have "x \<noteq> dquote \<Longrightarrow> \<not> (x = bslash \<and> xs = [])" by auto
  ultimately show ?case using Cons.IH by (auto simp: escape_hd)
qed simp

lemma rc_passes_quoted:
  "s = [] \<or> last s \<noteq> bslash \<Longrightarrow> rc_passes ([dquote] @ escape s dquote @ [dquote, x])"
  by (simp add: rc_passes_def rc_quote_escape)

text \<open>The keys of a tree hold no comment sign and no backslash.\<close>

fun clean_keys :: "chunkdat \<Rightarrow> bool"
  and clean_values :: "(string \<times> chunkdat) list \<Rightarrow> bool"
  and clean_items :: "chunkdat list \<Rightarrow> bool" where
  "clean_keys (Chunkdat p off a) =
     (case a of Some (Chunk_map m) \<Rightarrow> clean_values m
      | Some (Chunk_list l) \<Rightarrow> clean_items l
      | Some (Chunk_string s) \<Rightarrow> True
      | None \<Rightarrow> True)"
| "clean_values [] = True"
| "clean_values ((k, c) # m) = (list_all rc_plain k \<and> clean_keys c \<and> clean_values m)"
| "clean_items [] = True"
| "clean_items (c # l) = (clean_keys c \<and> clean_items l)"

lemma clean_values_iff: "clean_values m \<longleftrightarrow> (\<forall>(k, c) \<in> set m. list_all rc_plain k \<and> clean_keys c)"
  by (induction m) auto

lemma clean_items_iff: "clean_items l \<longleftrightarrow> (\<forall>c \<in> set l. clean_keys c)"
  by (induction l) auto

lemma blank_rc_plain: "blank s \<Longrightarrow> c \<in> set s \<Longrightarrow> rc_plain c"
  using isRead_values by (auto simp: blank_def rc_plain_def isRead_def schar_def)

lemma rc_passes_blank: "blank ws \<Longrightarrow> rc_passes (repeatString ws n)"
  by (intro rc_passes_plain ballI) (rule blank_rc_plain [OF blank_repeat])

lemma rc_passes_values:
  assumes "\<And>k c al x. (k, c) \<in> set m \<Longrightarrow> rc_plain x \<Longrightarrow> rc_passes (child_text al ws c @ [x])"
    and "blank ws" "clean_values m"
  shows "rc_passes (strval_values al ws m)"
  using assms
proof (induction m)
  case Nil
  then show ?case by (simp add: rc_passes_plain)
next
  case (Cons p m)
  obtain k c where p: "p = (k, c)" by force
  have "rc_passes (repeatString ws (al + 1))" by (rule rc_passes_blank [OF Cons.prems(2)])
  moreover have "rc_passes k" using Cons.prems(3) p by (intro rc_passes_plain) (auto simp: list_all_iff)
  moreover have "rc_passes '' = ''" by (rule rc_passes_plain) (auto simp: rc_plain_def)
  moreover define u where "u = child_text al ws c @ [newline]"
  have "rc_passes u" unfolding u_def using p by (intro Cons.prems(1)) (auto simp: rc_plain_def)
  moreover have "rc_passes (strval_values al ws m)"
    using Cons.prems p by (intro Cons.IH) auto
  ultimately have "rc_passes (repeatString ws (al + 1) @ k @ '' = '' @ u @ strval_values al ws m)"
    by (intro rc_passes_append)
  with p show ?case by (simp add: u_def)
qed

lemma rc_passes_items:
  assumes "\<And>c al x. c \<in> set l \<Longrightarrow> rc_plain x \<Longrightarrow> rc_passes (child_text al ws c @ [x])"
    and "blank ws" "clean_items l"
  shows "rc_passes (items_text al ws l)"
  using assms
proof (induction al ws l rule: items_text.induct)
  case 1
  then show ?case by (simp add: rc_passes_plain)
next
  case (2 al ws c)
  then have "rc_passes (child_text al ws c @ [newline])" by (simp add: rc_plain_def)
  with rc_passes_blank [OF "2.prems"(2), of "al + 1"] show ?case
    by (simp only: items_text.simps rc_passes_append)
next
  case (3 al ws c c' l)
  have "rc_passes (repeatString ws (al + 1))" by (rule rc_passes_blank [OF "3.prems"(2)])
  moreover define u where "u = child_text al ws c @ '',''"
  have "rc_passes u" unfolding u_def by (intro "3.prems"(1)) (auto simp: rc_plain_def)
  moreover have "rc_passes [newline]" by (rule rc_passes_plain) (simp add: rc_plain_def)
  moreover have "rc_passes (items_text al ws (c' # l))" using "3.prems" by (intro "3.IH") auto
  ultimately have "rc_passes (repeatString ws (al + 1) @ u @ [newline] @ items_text al ws (c' # l))"
    by (intro rc_passes_append)
  then show ?case by (simp add: u_def)
qed

lemma rc_passes_framed:
  "rc_passes b \<Longrightarrow> rc_passes (''{'' @ b @ ''}'')" "rc_passes b \<Longrightarrow> rc_passes (''['' @ b @ '']'')"
proof -
  have p: "rc_passes ''{''" "rc_passes ''}''" "rc_passes ''[''" "rc_passes '']''"
    by (rule rc_passes_plain; simp add: rc_plain_def)+
  show "rc_passes b \<Longrightarrow> rc_passes (''{'' @ b @ ''}'')" "rc_passes b \<Longrightarrow> rc_passes (''['' @ b @ '']'')"
    by (intro rc_passes_append p; assumption)+
qed

lemma rc_passes_strval:
  "printable c \<Longrightarrow> clean_keys c \<Longrightarrow> blank ws \<Longrightarrow>
     (chunk_type c \<noteq> StringT \<longrightarrow> (\<forall>al. rc_passes (strval al ws c))) \<and>
     (\<forall>al x. rc_plain x \<longrightarrow> rc_passes (child_text al ws c @ [x]))"
proof (induction c rule: chunk_induct)
  case (string p off s)
  then have "rc_passes ([dquote] @ escape s dquote @ [dquote, x])" for x
    by (intro rc_passes_quoted plain_text_end) simp
  then show ?case by (simp add: child_text_def)
next
  case (map p off m)
  have "rc_passes (strval al ws (Chunkdat p off (Some (Chunk_map m))))" for al
  proof -
    have "rc_passes (child_text al ws c @ [x])" if "(k, c) \<in> set m" "rc_plain x" for k c al x
      using map.IH [OF that(1)] map.prems that by (auto simp: printable_values_iff clean_values_iff)
    then have "rc_passes (strval_values al ws m)"
      using map.prems by (intro rc_passes_values) auto
    then have "rc_passes (if m = [] then [] else [newline] @ strval_values al ws m @ repeatString ws al)"
      using map.prems(3) rc_passes_plain [of "[newline]"] rc_passes_plain [of "[]"]
      by (auto intro!: rc_passes_append rc_passes_blank simp: rc_plain_def simp del: append.simps)
    then show ?thesis by (simp only: strval_nested) (rule rc_passes_framed)
  qed
  then show ?case using rc_passes_append [OF _ rc_passes_plain]
    by (simp add: child_text_def chunk_type_def del: strval.simps)
next
  case (list p off l)
  have "rc_passes (strval al ws (Chunkdat p off (Some (Chunk_list l))))" for al
  proof -
    have "rc_passes (child_text al ws c @ [x])" if "c \<in> set l" "rc_plain x" for c al x
      using list.IH [OF that(1)] list.prems that by (auto simp: printable_items_iff clean_items_iff)
    then have "rc_passes (items_text al ws l)"
      using list.prems by (intro rc_passes_items) auto
    then have "rc_passes (if l = [] then [] else [newline] @ items_text al ws l @ repeatString ws al)"
      using list.prems(3) rc_passes_plain [of "[newline]"] rc_passes_plain [of "[]"]
      by (auto intro!: rc_passes_append rc_passes_blank simp: rc_plain_def simp del: append.simps)
    then show ?thesis by (simp only: strval_nested) (rule rc_passes_framed)
  qed
  then show ?case using rc_passes_append [OF _ rc_passes_plain]
    by (simp add: child_text_def chunk_type_def del: strval.simps)
qed simp

lemma rc_passes_id: "rc_passes s \<Longrightarrow> removeComments s = Inr s"
  unfolding rc_passes_def removeComments_def by (metis append_Nil append_Nil2 rc_loop.simps(1))

section \<open>A written map or list with more text behind it\<close>

lemma getstrval_followed:
  assumes "length body + length t + 3 < 2 ^ 32"
  shows "passes CHR ''{'' CHR ''}'' body \<Longrightarrow> getstrval mem (''{'' @ body @ ''}'' @ newline # t) nul nul =
      Inr (''{'' @ body @ ''}'', newline # t, int (length body + 2), 0, True)"
    and "passes CHR ''['' CHR '']'' body \<Longrightarrow> getstrval mem (''['' @ body @ '']'' @ newline # t) nul nul =
      Inr (''['' @ body @ '']'', newline # t, int (length body + 2), 0, True)"
proof -
  have stop: "getstr_loop m str nul nul i (newline # t) val = Inr (val, i, newline # t)" for m str i val
    by (rule getstr_blank [OF _ unquote_id]) simp_all
  assume p: "passes CHR ''{'' CHR ''}'' body"
  let ?s = "''{'' @ body @ ''}'' @ newline # t"
  have "unquote ?s 0 ?s [] = Inr ([], 0, ?s)" by (intro unquote_id) simp
  from getstr_map [OF _ this, of "mem ?s" nul nul] scan_text(1) [OF _ p, of "newline # t" ?s 0 "[]"] assms stop
  have "getstr_loop (mem ?s) ?s nul nul 0 ?s [] = Inr (''{'' @ body @ ''}'', length body + 2, newline # t)"
    by simp
  then show "getstrval mem ?s nul nul = Inr (''{'' @ body @ ''}'', newline # t, int (length body + 2), 0, True)"
    by (simp add: getstrval_def Let_def)
next
  have stop: "getstr_loop m str nul nul i (newline # t) val = Inr (val, i, newline # t)" for m str i val
    by (rule getstr_blank [OF _ unquote_id]) simp_all
  assume p: "passes CHR ''['' CHR '']'' body"
  let ?s = "''['' @ body @ '']'' @ newline # t"
  have "unquote ?s 0 ?s [] = Inr ([], 0, ?s)" by (intro unquote_id) simp
  from getstr_list [OF _ this, of "mem ?s" nul nul] scan_text(2) [OF _ p, of "newline # t" ?s 0 "[]"] assms stop
  have "getstr_loop (mem ?s) ?s nul nul 0 ?s [] = Inr (''['' @ body @ '']'', length body + 2, newline # t)"
    by simp
  then show "getstrval mem ?s nul nul = Inr (''['' @ body @ '']'', newline # t, int (length body + 2), 0, True)"
    by (simp add: getstrval_def Let_def)
qed

lemma set_str_followed:
  assumes "length body + length t + 3 < 2 ^ 32" and "\<not> blank t"
  shows "passes CHR ''{'' CHR ''}'' body \<Longrightarrow> \<exists>w. fst (set_str mem (''{'' @ body @ ''}'' @ newline # t) off p)
      = Some (Format_error ''Unexpected char'' [] (''{'' @ body @ ''}'' @ newline # t) w)"
    and "passes CHR ''['' CHR '']'' body \<Longrightarrow> \<exists>w. fst (set_str mem (''['' @ body @ '']'' @ newline # t) off p)
      = Some (Format_error ''Unexpected char'' [] (''['' @ body @ '']'' @ newline # t) w)"
proof -
  have "fst (skip (newline # t)) \<noteq> []" using assms(2) by (auto simp: skip_eq blank_def)
  note facts = this getstrval_followed [OF assms(1), of mem]
  show "passes CHR ''{'' CHR ''}'' body \<Longrightarrow> \<exists>w. fst (set_str mem (''{'' @ body @ ''}'' @ newline # t) off p)
      = Some (Format_error ''Unexpected char'' [] (''{'' @ body @ ''}'' @ newline # t) w)"
    using facts by (subst set_str.simps) (simp add: Let_def)
  show "passes CHR ''['' CHR '']'' body \<Longrightarrow> \<exists>w. fst (set_str mem (''['' @ body @ '']'' @ newline # t) off p)
      = Some (Format_error ''Unexpected char'' [] (''['' @ body @ '']'' @ newline # t) w)"
    using facts by (subst set_str.simps) (simp add: Let_def)
qed

text \<open>The text of a printable map or list is a bracketed body both scanners pass.\<close>

lemma strval_bracketed:
  assumes "printable c" "blank ws" "chunk_type c \<noteq> StringT"
  obtains (map) body where "strval al ws c = ''{'' @ body @ ''}''" "passes CHR ''{'' CHR ''}'' body"
  | (list) body where "strval al ws c = ''['' @ body @ '']''" "passes CHR ''['' CHR '']'' body"
proof (cases c rule: chunk_cases)
  case (map p off m)
  have br: "brackets CHR ''{'' CHR ''}''" by (simp add: brackets_def)
  have "passes CHR ''{'' CHR ''}'' (strval_values al ws m)"
    using assms map br by (intro passes_values) (auto simp: printable_values_iff intro: passes_child)
  with br assms(2) have "passes CHR ''{'' CHR ''}''
      (if m = [] then [] else [newline] @ strval_values al ws m @ repeatString ws al)"
    by (auto intro!: passes_append passes_char intro: passes_blank simp del: append.simps)
  then show thesis by (rule that(1) [rotated]) (simp only: map strval_nested)
next
  case (list p off l)
  have br: "brackets CHR ''['' CHR '']''" by (simp add: brackets_def)
  have "passes CHR ''['' CHR '']'' (items_text al ws l)"
    using assms list br by (intro passes_items) (auto simp: printable_items_iff intro: passes_child)
  with br assms(2) have "passes CHR ''['' CHR '']''
      (if l = [] then [] else [newline] @ items_text al ws l @ repeatString ws al)"
    by (auto intro!: passes_append passes_char intro: passes_blank simp del: append.simps)
  then show thesis by (rule that(2) [rotated]) (simp only: list strval_nested)
qed (use assms in auto)

lemma last_line_snoc: "c \<noteq> newline \<Longrightarrow> last_line (s @ [c]) = last_line s @ [c]"
  by (simp add: last_line_def)

lemma last_line_length: "length (last_line s) \<le> length s"
  using length_takeWhile_le [of "\<lambda>c. c \<noteq> newline" "rev s"] by (simp add: last_line_def)

lemma set_str_duplicated:
  assumes "printable c" "blank ws" "chunk_type c \<noteq> StringT" "2 * length (strval al ws c) + 3 < 2 ^ 32"
  shows "\<exists>w. fst (set_str mem (strval al ws c @ [newline] @ last_line (strval al ws c) @ [newline]) off p) =
    Some (Format_error ''Unexpected char'' [] (strval al ws c @ [newline] @ last_line (strval al ws c) @ [newline]) w)"
    and "last (strval al ws c) \<noteq> newline \<and> strval al ws c \<noteq> []"
proof -
  let ?s = "strval al ws c" and ?t = "last_line (strval al ws c) @ [newline]"
  have len: "length (last_line ?s) \<le> length ?s" by (rule last_line_length)
  show "\<exists>w. fst (set_str mem (?s @ [newline] @ ?t) off p) = Some (Format_error ''Unexpected char'' [] (?s @ [newline] @ ?t) w)"
    using assms(1-3)
  proof (cases rule: strval_bracketed [where al = al])
    case (map body)
    have "last_line ?s = last_line (''{'' @ body) @ ''}''"
      using last_line_snoc [of "CHR ''}''" "''{'' @ body"] map(1) by simp
    then have "\<not> blank ?t" by simp
    with set_str_followed(1) [OF _ this map(2), of mem off p] len assms(4) map(1) show ?thesis by simp
  next
    case (list body)
    have "last_line ?s = last_line (''['' @ body) @ '']''"
      using last_line_snoc [of "CHR '']''" "''['' @ body"] list(1) by simp
    then have "\<not> blank ?t" by simp
    with set_str_followed(2) [OF _ this list(2), of mem off p] len assms(4) list(1) show ?thesis by simp
  qed
  from assms(1-3) show "last ?s \<noteq> newline \<and> ?s \<noteq> []"
    by (cases rule: strval_bracketed [where al = al]) auto
qed

lemma rc_passes_last_line:
  assumes "\<forall>c \<in> set (last_line s). rc_plain c" "rc_passes s"
  shows "rc_passes (s @ [newline] @ last_line s @ [newline])"
proof -
  have "rc_passes [newline]" "rc_passes (last_line s)"
    using assms(1) rc_passes_plain by (simp_all add: rc_plain_def)
  with assms(2) show ?thesis by (intro rc_passes_append)
qed

section \<open>Importing\<close>

lemma generateChunk_clean:
  "removeComments (m_data fd) = Inr (m_data fd) \<Longrightarrow> generateChunk mem fd =
     (case set_str mem (m_data fd) 0 None of
        (None, c) \<Rightarrow> (None, fd\<lparr>m_dataChunk := Some c\<rparr>)
      | (Some e, c) \<Rightarrow>
          (Some (catch_format (\<lambda>w src i. Format_error (cstr w) (m_filePath fd) (m_data fd) i) e),
           fd\<lparr>m_dataChunk := None\<rparr>))"
  by (auto simp: generateChunk_def Let_def chunkdat_of_string_def from_set_def split: option.splits prod.splits)

text \<open>The text form depends on the data only, not on the trace.\<close>

lemma chunk_type_untrace: "chunk_type (untrace c) = chunk_type c"
  by (cases c rule: chunk_cases) simp_all

lemma untrace_empty [simp]: "untrace_values m = [] \<longleftrightarrow> m = []" "untrace_items l = [] \<longleftrightarrow> l = []"
  by (cases m; auto; fail) (cases l; auto)

lemma strval_untrace: "strval al ws (untrace c) = strval al ws c"
proof (induction c arbitrary: al ws rule: chunk_induct)
  case (map p off m)
  have child: "child_text al ws (untrace c) = child_text al ws c" if "(k, c) \<in> set m" for k c al ws
    by (simp only: child_text_def chunk_type_untrace map [OF that])
  have "strval_values al ws (untrace_values m) = strval_values al ws m" for al ws
    using child by (induction m) (auto, metis)
  then show ?case by simp
next
  case (list p off l)
  then have "strval_items al ws (untrace_items l) = strval_items al ws l" for al ws
    by (induction l) (auto simp: chunk_type_untrace)
  then show ?case by simp
qed simp_all

lemma strval_same_data: "untrace c = untrace c' \<Longrightarrow> strval al ws c = strval al ws c'"
  using strval_untrace by metis

lemma import_printed:
  assumes "mem_ok mem" "blank ws" "printable c" "clean_keys c" "chunk_type c \<noteq> StringT"
    and "length (strval 0 ws c) < 2 ^ 32"
  shows "\<exists>c'. import_string mem (strval 0 ws c) fd =
      (None, \<lparr>m_filePath = [], m_data = strval 0 ws c, m_dataChunk = Some c'\<rparr>) \<and> untrace c' = untrace c"
proof -
  obtain c' where c': "set_str mem (strval 0 ws c) 0 None = (None, c')" "untrace c' = untrace c"
    using printable_reads_back [OF assms(1-3)] assms(6) unfolding reads_back_def by blast
  have "removeComments (strval 0 ws c) = Inr (strval 0 ws c)"
    using rc_passes_strval [OF assms(3,4,2)] assms(5) by (intro rc_passes_id) blast
  with c' show ?thesis
    by (cases fd) (auto simp: import_string_def generateChunk_clean clear_filedat_def)
qed

text \<open>What \<open>export_file\<close> writes has no final newline, so its last line is read twice.\<close>

lemma import_duplicates_last_line:
  assumes "blank ws" "printable c" "clean_keys c" "chunk_type c \<noteq> StringT"
    and "\<forall>x \<in> set (last_line (strval 0 ws c)). rc_plain x" and "2 * length (strval 0 ws c) + 3 < 2 ^ 32"
    and "fs path = Some (strval 0 ws c)" "path \<noteq> []"
  shows "\<exists>w. import_file mem fs path fd =
    (Some (Format_error ''Unexpected char'' path
        (strval 0 ws c @ [newline] @ last_line (strval 0 ws c) @ [newline]) w),
     \<lparr>m_filePath = path, m_data = strval 0 ws c @ [newline] @ last_line (strval 0 ws c) @ [newline],
      m_dataChunk = None\<rparr>)"
proof -
  let ?d = "strval 0 ws c @ [newline] @ last_line (strval 0 ws c) @ [newline]"
  note dup = set_str_duplicated [OF assms(2,1,4,6)]
  from dup(1) [of mem 0 None] obtain w d where w: "set_str mem ?d 0 None =
      (Some (Format_error ''Unexpected char'' [] ?d w), d)"
    by (metis prod.collapse)
  have "rc_passes (strval 0 ws c)" using rc_passes_strval [OF assms(2,3,1)] assms(4) by blast
  then have "removeComments ?d = Inr ?d" by (intro rc_passes_id rc_passes_last_line assms(5))
  moreover have "read_lines (open_stream (strval 0 ws c)) [] [] = ?d"
    using dup(2) by (simp add: read_lines_open)
  ultimately show ?thesis using w assms(7,8)
    by (simp add: import_file_def generateChunk_clean clear_filedat_def Let_def)
qed

section \<open>The caret of a report\<close>

lemma count_snoc: "count_list (u @ [c]) x = count_list u x + (if c = x then 1 else 0)"
  by simp

lemma last_line_snoc_newline: "last_line (u @ [newline]) = []"
  by (simp add: last_line_def)

lemma pe_find_line:
  "index \<le> i \<Longrightarrow> pe_find index r i j line = (i + length (takeWhile (\<lambda>c. c \<noteq> newline) r), j, line)"
  by (induction r arbitrary: i) auto

lemma pe_find_spec:
  assumes "length u \<le> index" "index \<le> length u + length r"
    and "b = u @ take (index - length u) r"
  shows "pe_find index r (length u) (length u - length (last_line u)) (Suc (count_list u newline)) =
    (index + length (takeWhile (\<lambda>c. c \<noteq> newline) (drop (index - length u) r)),
     length b - length (last_line b), Suc (count_list b newline))"
  using assms
proof (induction r arbitrary: u)
  case (Cons c r)
  show ?case
  proof (cases "length u = index")
    case True
    with Cons.prems show ?thesis by (simp add: pe_find_line)
  next
    case False
    with Cons.prems have lt: "length u < index" "index - length u = Suc (index - length (u @ [c]))" by auto
    from lt Cons.prems have "pe_find index r (length (u @ [c])) (length (u @ [c]) - length (last_line (u @ [c])))
        (Suc (count_list (u @ [c]) newline)) =
      (index + length (takeWhile (\<lambda>c. c \<noteq> newline) (drop (index - length (u @ [c])) r)),
       length b - length (last_line b), Suc (count_list b newline))"
      by (intro Cons.IH) auto
    with lt show ?thesis
      by (cases "c = newline") (simp_all add: last_line_snoc last_line_snoc_newline)
  qed
qed simp

lemma error_position_spec:
  assumes "n \<le> length inp"
  shows "error_position inp (int n) =
    (n + length (takeWhile (\<lambda>c. c \<noteq> newline) (drop n inp)),
     n - length (last_line (take n inp)), Suc (count_list (take n inp) newline))"
  using pe_find_spec [of "[]" n inp "take n inp"] assms by (simp add: error_position_def last_line_def)

lemma last_line_split: "\<exists>u. s = u @ last_line s"
  using takeWhile_dropWhile_id [of "\<lambda>c. c \<noteq> newline" "rev s"]
  by (intro exI [of _ "rev (dropWhile (\<lambda>c. c \<noteq> newline) (rev s))"])
    (simp add: last_line_def flip: rev_append)

lemma repeat_blank: "repeatString [c] n = replicate n c"
  by (induction n) (simp_all add: repeatString.simps)

lemma report_spec:
  assumes "nul \<notin> set inp" "n \<le> length inp" "n < 2 ^ 32" "source \<noteq> []"
  shows "printErrorIndex inp (int n) message source =
    source @ '': Error'' @ [newline] @ ''Line '' @ to_string (Suc (count_list (take n inp) newline))
      @ '' col '' @ int_to_string (int (length (last_line (take n inp))) + 1) @ '': '' @ message @ [newline]
      @ last_line (take n inp) @ takeWhile (\<lambda>c. c \<noteq> newline) (drop n inp) @ [newline]
      @ replicate (length (last_line (take n inp))) CHR '' '' @ ''^'' @ [newline]"
proof -
  obtain l r where l: "last_line (take n inp) = l" and r: "takeWhile (\<lambda>c. c \<noteq> newline) (drop n inp) = r"
    by blast
  obtain u where u: "take n inp = u @ l" using last_line_split l by blast
  obtain t where t: "drop n inp = r @ t" using takeWhile_dropWhile_id r by metis
  have inp: "inp = u @ l @ r @ t" using append_take_drop_id [of n inp] u t by (metis append_assoc)
  have n: "n = length u + length l" using assms(2) u by (metis length_append length_take min_absorb2)
  have "take (n + length r - (n - length l)) (drop (n - length l) inp) = l @ r"
    by (subst inp) (simp add: n)
  moreover have "unat (word_of_int (int n - int (n - length l)) :: 32 word) = length l"
  proof -
    have "int n - int (n - length l) = int (length l)" using n by simp
    moreover have "length l < 2 ^ 32" using n assms(3) by simp
    then have "unat (word_of_nat (length l) :: 32 word) = length l"
      by (simp add: unsigned_of_nat take_bit_nat_eq_self)
    ultimately show ?thesis by (simp only: of_int_of_nat_eq)
  qed
  moreover have "int n - int (n - length l) = int (length l)" using n by simp
  ultimately show ?thesis using assms(1,4) error_position_spec [OF assms(2)]
    by (simp add: printErrorIndex_def caret_def repeat_blank l r)
qed

text \<open>The last line of a printed map or list is its closing bracket.\<close>

lemma strval_values_end: "m \<noteq> [] \<Longrightarrow> \<exists>u. strval_values al ws m = u @ [newline]"
proof (induction m)
  case (Cons p m)
  obtain k c where p: "p = (k, c)" by force
  show ?case
  proof (cases "m = []")
    case True
    then show ?thesis using p
      by (intro exI [of _ "repeatString ws (al + 1) @ k @ '' = '' @ child_text al ws c"]) simp
  next
    case False
    then obtain u where u: "strval_values al ws m = u @ [newline]" using Cons.IH by blast
    then show ?thesis using p
      by (intro exI [of _ "repeatString ws (al + 1) @ k @ '' = '' @ child_text al ws c @ [newline] @ u"]) simp
  qed
qed simp

lemma items_text_end: "l \<noteq> [] \<Longrightarrow> \<exists>u. items_text al ws l = u @ [newline]"
  using strval_items_text by fastforce

lemma last_line_strval:
  assumes "chunk_type c \<noteq> StringT" "chunk_type c \<noteq> NoneT"
  shows "\<forall>x \<in> set (last_line (strval 0 ws c)). rc_plain x"
proof (cases c rule: chunk_cases)
  case (map p off m)
  show ?thesis
  proof (cases "m = []")
    case True
    with map show ?thesis by (simp add: last_line_def rc_plain_def)
  next
    case False
    then obtain u where "strval_values 0 ws m = u @ [newline]" using strval_values_end by blast
    with map False have "strval 0 ws c = (CHR ''{'' # newline # u) @ newline # ''}''" by simp
    then show ?thesis by (simp only: last_line_newline) (simp add: last_line_def rc_plain_def)
  qed
next
  case (list p off l)
  show ?thesis
  proof (cases "l = []")
    case True
    with list show ?thesis by (simp add: last_line_def rc_plain_def)
  next
    case False
    then obtain u where "items_text 0 ws l = u @ [newline]" using items_text_end by blast
    with list False have "strval 0 ws c = (CHR ''['' # newline # u) @ newline # '']''"
      by (simp only: strval_nested) simp
    then show ?thesis by (simp only: last_line_newline) (simp add: last_line_def rc_plain_def)
  qed
qed (use assms in auto)

section \<open>Blank text behind a value\<close>

text \<open>The whole text is only reported by the loops, so a success does not depend on it.\<close>

lemma map_loop_inp:
  "map_loop mem inp off p i str m = (None, m') \<Longrightarrow> map_loop mem inp' off p i str m = (None, m')"
proof (induction str arbitrary: i m rule: length_induct)
  case (1 str)
  note unfold = map_loop.simps [of mem _ off p i str m]
  show ?case
  proof (cases "cur (fst (skip str)) = CHR ''='' \<or> (\<exists>e. getkeyval mem str = Inl e)")
    case True
    with "1.prems" show ?thesis by (auto simp: unfold)
  next
    case False
    then obtain k v r rr vs ks where kv: "getkeyval mem str = Inr (k, v, r, rr, vs, ks)"
      by (metis old.sum.exhaust prod_cases6)
    have IH: "map_loop mem inp' off p i' r m2 = (None, m')"
      if "map_loop mem inp off p i' r m2 = (None, m')" "r \<noteq> []" for i' m2
      using "1.IH" getkeyval_len(2) [OF kv that(2)] that(1) by blast
    show ?thesis
      using "1.prems" False kv IH
      by (auto simp: unfold Let_def from_set_def split: if_splits option.splits prod.splits)
  qed
qed

lemma list_loop_inp:
  "list_loop mem inp off p i str l = (None, l') \<Longrightarrow> list_loop mem inp' off p i str l = (None, l')"
proof (induction str arbitrary: i l rule: length_induct)
  case (1 str)
  note unfold = list_loop.simps [of mem _ off p i str l]
  show ?case
  proof (cases "getstrval mem str CHR '','' CHR '';''")
    case (Inl e)
    with "1.prems" show ?thesis by (auto simp: unfold)
  next
    case (Inr res)
    obtain v r q vs f where res: "res = (v, r, q, vs, f)" by (cases res) auto
    have IH: "list_loop mem inp' off p i' r l2 = (None, l')"
      if "list_loop mem inp off p i' r l2 = (None, l')" "r \<noteq> []" for i' l2
      using "1.IH" getstrval_len(2) [OF Inr [unfolded res] that(2)] that(1) by blast
    show ?thesis
      using "1.prems" Inr res IH
      by (auto simp: unfold Let_def from_set_def split: if_splits option.splits)
  qed
qed

lemma set_str_trailing:
  assumes "length body + length t + 3 < 2 ^ 32" "blank t"
  shows "passes CHR ''{'' CHR ''}'' body \<Longrightarrow> set_str mem (''{'' @ body @ ''}'') off p = (None, c) \<Longrightarrow>
      set_str mem (''{'' @ body @ ''}'' @ newline # t) off p = (None, c)"
    and "passes CHR ''['' CHR '']'' body \<Longrightarrow> set_str mem (''['' @ body @ '']'') off p = (None, c) \<Longrightarrow>
      set_str mem (''['' @ body @ '']'' @ newline # t) off p = (None, c)"
proof -
  have short: "length body + 2 < 2 ^ 32" using assms(1) by simp
  have sk: "fst (skip (newline # t)) = []" "fst (skip body) = [] \<longleftrightarrow> blank body"
    using assms(2) by (auto simp: skip_eq blank_def)
  note facts = sk getstrval_followed [OF assms(1), of mem] set_str_bracketed [OF short, of mem off p]
  show "passes CHR ''{'' CHR ''}'' body \<Longrightarrow> set_str mem (''{'' @ body @ ''}'') off p = (None, c) \<Longrightarrow>
      set_str mem (''{'' @ body @ ''}'' @ newline # t) off p = (None, c)"
    using facts by (subst set_str.simps)
      (auto simp: Let_def butlast_append split: if_splits prod.splits 
        dest: map_loop_inp [of _ _ _ _ 1 _ _ _ "''{'' @ body @ ''}'' @ newline # t"])
  show "passes CHR ''['' CHR '']'' body \<Longrightarrow> set_str mem (''['' @ body @ '']'') off p = (None, c) \<Longrightarrow>
      set_str mem (''['' @ body @ '']'' @ newline # t) off p = (None, c)"
    using facts by (subst set_str.simps)
      (auto simp: Let_def butlast_append split: if_splits prod.splits 
        dest: list_loop_inp [of _ _ _ _ 1 _ _ _ "''['' @ body @ '']'' @ newline # t"])
qed

section \<open>Properties\<close>

text \<open>C2: Importing, as a string, what \<open>strval\<close> writes of a map or list succeeds, keeps the text as it is and gives an
  object with the same data, whose text is the same again, on these conditions: no object inside is empty; every
  key is made of visible characters, at least one, and none of double and single quote, backslash, hash, slash, the
  brackets, the braces and the equals sign, and does not begin with a semicolon; every string ends in a visible
  character that is no backslash, or is empty, and its first word holds no quote, no opening brace and no opening
  bracket; indentation is blank; the text is shorter than \<open>2 ^ 32\<close>; and behind the strings in memory lies a
  visible character. (A key with a hash, for one, is cut as a comment.)\<close>

theorem import_strval:
  assumes "mem_ok mem" "blank ws" "printable c" "clean_keys c" "chunk_type c \<noteq> StringT"
    and "length (strval 0 ws c) < 2 ^ 32"
  shows "\<exists>c'. import_string mem (strval 0 ws c) fd =
      (None, \<lparr>m_filePath = [], m_data = strval 0 ws c, m_dataChunk = Some c'\<rparr>)
    \<and> untrace c' = untrace c \<and> strval 0 ws c' = strval 0 ws c"
  using import_printed [OF assms, of fd] strval_same_data by blast

lemma sample_chunk_clean: "clean_keys sample_chunk"
  by (simp add: sample_chunk_simps rc_plain_def)

theorem import_strval_witness:
  "\<exists>c'. import_string (\<lambda>_. ''x'') (strval 0 [tab] sample_chunk) (new_filedat ''f'') =
      (None, \<lparr>m_filePath = [], m_data = strval 0 [tab] sample_chunk, m_dataChunk = Some c'\<rparr>)
    \<and> untrace c' = untrace sample_chunk \<and> strval 0 [tab] c' = strval 0 [tab] sample_chunk"
  by (rule import_strval [OF mem_ok_x]) (use sample_chunk_length in \<open>simp_all add: sample_chunk_ok sample_chunk_clean\<close>)

text \<open>C3: A file written by \<open>export_file\<close> cannot be imported, if its data is a map or list as in the property above
  (keys of visible characters other than quotes, backslash, hash, slash, brackets, braces and equals sign, strings that
  read back, no empty object, blank indentation) and it is shorter than \<open>2 ^ 31 - 1\<close>: \<open>import_file\<close> reads its last line
  twice and throws at the second closing bracket.\<close>

theorem export_import_fails:
  assumes "blank ws" "printable c" "clean_keys c" "chunk_type c \<noteq> StringT"
    and "2 * length (strval 0 ws c) + 3 < 2 ^ 32"
    and "m_dataChunk fd = Some c" "path \<noteq> []" "writable path"
  shows "\<exists>fs' d w. export_file writable path ws fd fs = (True, fs') \<and>
    import_file mem fs' path fd' = (Some (Format_error ''Unexpected char'' path d w),
      \<lparr>m_filePath = path, m_data = d, m_dataChunk = None\<rparr>)"
proof -
  have "chunk_type c \<noteq> NoneT" using assms(2) by (cases c rule: chunk_cases) auto
  then have "\<forall>x \<in> set (last_line (strval 0 ws c)). rc_plain x"
    using last_line_strval assms(4) by blast
  with import_duplicates_last_line [OF assms(1-4) _ assms(5), of "fs(path \<mapsto> strval 0 ws c)" path mem fd']
  show ?thesis using assms(6-8) by (auto simp: export_file_def strval_filedat_def)
qed

theorem export_import_fails_witness:
  "\<exists>fs' d w. export_file (\<lambda>_. True) ''f'' [tab] \<lparr>m_filePath = [], m_data = [], m_dataChunk = Some sample_chunk\<rparr>
      (\<lambda>_. None) = (True, fs') \<and>
    import_file (\<lambda>_. ''x'') fs' ''f'' (new_filedat []) = (Some (Format_error ''Unexpected char'' ''f'' d w),
      \<lparr>m_filePath = ''f'', m_data = d, m_dataChunk = None\<rparr>)"
  by (rule export_import_fails [where c = sample_chunk]) (use sample_chunk_length in \<open>simp_all add: sample_chunk_ok sample_chunk_clean\<close>)

text \<open>What \<open>import_file\<close> reads of a file: its content and a newline when it is empty or ends
  in one; otherwise the last line comes twice.\<close>

theorem read_file_data:
  "read_lines (open_stream s) [] [] =
    (if s = [] \<or> last s = newline then s @ [newline]
     else s @ [newline] @ last_line s @ [newline])"
  by (simp add: read_lines_open)

text \<open>A comment behind text without quotes and backslashes is removed up to its newline,
  whatever it holds and whatever follows.\<close>

theorem comment_removed:
  assumes "\<forall>c \<in> set u. rc_plain c" and "newline \<notin> set t" and "start = ''#'' \<or> start = ''//''"
  shows "removeComments (u @ start @ t @ newline # r) = removeComments (u @ newline # r)"
proof -
  have line: "dropWhile (\<lambda>x. x \<noteq> newline) (t @ newline # r) = newline # r"
    using assms(2) by (simp add: dropWhile_append)
  have "rc_loop u (start @ t @ newline # r) = rc_loop (u @ [newline]) r"
    using assms(3) line by (auto simp: numeral_2_eq_2)
  moreover have "rc_loop u (newline # r) = rc_loop (u @ [newline]) r" by (simp add: numeral_2_eq_2)
  moreover have "rc_loop [] (u @ x) = rc_loop u x" for x
    using rc_passes_plain [OF assms(1)] by (simp add: rc_passes_def)
  ultimately show ?thesis by (simp add: removeComments_def)
qed

theorem comment_removed_witness:
  "removeComments (''{a=b '' @ ''//'' @ ''it\"s'' @ newline # ''c=d}'') = removeComments (''{a=b '' @ newline # ''c=d}'')"
  by (rule comment_removed) (auto simp: rc_plain_def)

text \<open>The character behind a closing quote is skipped unread, so a comment that starts there
  stays in the data.\<close>

theorem comment_after_quote_kept:
  assumes "s = [] \<or> last s \<noteq> bslash" and "\<forall>c \<in> set t. rc_plain c"
  shows "removeComments ([dquote] @ escape s dquote @ [dquote] @ ''#'' @ t) =
    Inr ([dquote] @ escape s dquote @ [dquote] @ ''#'' @ t)"
  using rc_passes_id [OF rc_passes_append [OF rc_passes_quoted [OF assms(1), of "CHR ''#''"]
        rc_passes_plain [OF assms(2)]]] by simp

theorem comment_after_quote_kept_witness:
  "removeComments ([dquote] @ escape ''a'' dquote @ [dquote] @ ''#'' @ ''note'') =
    Inr ([dquote] @ escape ''a'' dquote @ [dquote] @ ''#'' @ ''note'')"
  by (rule comment_after_quote_kept) (auto simp: rc_plain_def)

text \<open>After an import the file holds a well-formed object without empty objects in it, or none
  at all; an exception of the format then names the file and the data it was raised for.\<close>

theorem import_outcome:
  assumes "generateChunk mem fd = (e, fd')"
  shows "m_filePath fd' = m_filePath fd \<and>
    (case e of
       None \<Rightarrow> \<exists>c. m_dataChunk fd' = Some c \<and> wf_chunk c \<and> filled c
     | Some (Format_error w src d i) \<Rightarrow> m_dataChunk fd' = None \<and> src = m_filePath fd \<and> d = m_data fd'
     | Some _ \<Rightarrow> m_dataChunk fd' = None)"
proof (cases "removeComments (m_data fd)")
  case (Inl x)
  with assms show ?thesis by (cases x) (auto simp: generateChunk_def Let_def)
next
  case (Inr data)
  obtain x c where x: "set_str mem data 0 None = (x, c)" by force
  show ?thesis
  proof (cases x)
    case None
    with Inr x have "generateChunk mem fd = (None, fd\<lparr>m_data := data, m_dataChunk := Some c\<rparr>)"
      by (simp add: generateChunk_def chunkdat_of_string_def from_set_def)
    with assms None x parse_good [of mem data 0 None] show ?thesis by auto
  next
    case (Some y)
    with Inr x have "generateChunk mem fd =
      (Some (catch_format (\<lambda>w src i. Format_error (cstr w) (m_filePath fd) data i) y),
       fd\<lparr>m_data := data, m_dataChunk := None\<rparr>)"
      by (simp add: generateChunk_def chunkdat_of_string_def from_set_def)
    with assms show ?thesis by (cases y) auto
  qed
qed

theorem import_outcome_witness:
  "m_filePath (snd (generateChunk (\<lambda>_. ''x'') \<lparr>m_filePath = ''f'', m_data = ''{a'', m_dataChunk = None\<rparr>)) = ''f''"
  using import_outcome [OF surjective_pairing, of "\<lambda>_. ''x''"
      "\<lparr>m_filePath = ''f'', m_data = ''{a'', m_dataChunk = None\<rparr>"]
  by (elim conjE) simp

text \<open>The report of an exception with an origin: the number of the line, the column, the line
  itself and a caret under the position.\<close>

theorem report_layout:
  assumes "nul \<notin> set inp" "n \<le> length inp" "n < 2 ^ 32" "source \<noteq> []"
  shows "printErrorIndex inp (int n) message source =
    source @ '': Error'' @ [newline] @ ''Line '' @ to_string (Suc (count_list (take n inp) newline))
      @ '' col '' @ int_to_string (int (length (last_line (take n inp))) + 1) @ '': '' @ message @ [newline]
      @ last_line (take n inp) @ takeWhile (\<lambda>c. c \<noteq> newline) (drop n inp) @ [newline]
      @ replicate (length (last_line (take n inp))) CHR '' '' @ ''^'' @ [newline]"
  by (rule report_spec [OF assms])

theorem report_layout_witness:
  "printErrorIndex ''a;b'' (int 1) ''bad'' ''f'' =
    ''f'' @ '': Error'' @ [newline] @ ''Line '' @ to_string (Suc (count_list (take 1 ''a;b'') newline))
      @ '' col '' @ int_to_string (int (length (last_line (take 1 ''a;b''))) + 1) @ '': '' @ ''bad'' @ [newline]
      @ last_line (take 1 ''a;b'') @ takeWhile (\<lambda>c. c \<noteq> newline) (drop 1 ''a;b'') @ [newline]
      @ replicate (length (last_line (take 1 ''a;b''))) CHR '' '' @ ''^'' @ [newline]"
  by (rule report_layout) simp_all

text \<open>An exception without a position, as the operations on objects throw it, is reported with
  a caret behind \<open>2 ^ 32 - 1\<close> blanks when it has an origin.\<close>

theorem report_without_position:
  assumes "source \<noteq> []"
  shows "2 ^ 32 < length (printErrorIndex data (-1) message source)"
proof -
  have "unat (- 1 :: 32 word) = 2 ^ 32 - 1" by (simp add: unsigned_minus_1_eq_mask mask_eq_exp_minus_1)
  then have "length (caret (-1) 0) = 2 ^ 32 + 1" by (simp add: caret_def repeat_blank)
  with assms show ?thesis by (simp add: printErrorIndex_def error_position_def)
qed

theorem report_without_position_witness:
  "2 ^ 32 < length (printErrorIndex ''{}'' (-1) ''bad'' ''f'')"
  by (rule report_without_position) simp

text \<open>An import that throws leaves a null object behind, which \<open>clear\<close> keeps: the file has no
  text, and every access to its data dereferences the null pointer until another import.\<close>

theorem failed_import_leaves_null:
  assumes "import_string mem s fd = (Some e, fd')"
  shows "m_dataChunk fd' = None \<and> m_dataChunk (clear_filedat fd') = None
    \<and> strval_filedat ws fd' = [] \<and> set_data c fd' = (Some Undefined, fd')
    \<and> filedat_data fd' = Inl Undefined \<and> filedat_key files k fd' = Inl Undefined
    \<and> filedat_index files i fd' = Inl Undefined \<and> chunkdat_of_filedat fd' = Inl Undefined"
proof -
  have "m_dataChunk fd' = None"
    using assms unfolding import_string_def generateChunk_def Let_def by (auto split: sum.splits)
  then show ?thesis by (simp add: clear_filedat_def strval_filedat_def set_data_def filedat_data_def
      filedat_key_def filedat_index_def chunkdat_of_filedat_def)
qed

theorem failed_import_leaves_null_witness:
  "m_dataChunk (snd (import_string (\<lambda>_. ''x'') [dquote] (new_filedat ''f''))) = None
    \<and> m_dataChunk (clear_filedat (snd (import_string (\<lambda>_. ''x'') [dquote] (new_filedat ''f'')))) = None
    \<and> strval_filedat [tab] (snd (import_string (\<lambda>_. ''x'') [dquote] (new_filedat ''f''))) = []
    \<and> set_data new_chunkdat (snd (import_string (\<lambda>_. ''x'') [dquote] (new_filedat ''f''))) =
      (Some Undefined, snd (import_string (\<lambda>_. ''x'') [dquote] (new_filedat ''f'')))
    \<and> filedat_data (snd (import_string (\<lambda>_. ''x'') [dquote] (new_filedat ''f''))) = Inl Undefined
    \<and> filedat_key (\<lambda>_. ([], [])) ''k'' (snd (import_string (\<lambda>_. ''x'') [dquote] (new_filedat ''f''))) = Inl Undefined
    \<and> filedat_index (\<lambda>_. ([], [])) 0 (snd (import_string (\<lambda>_. ''x'') [dquote] (new_filedat ''f''))) = Inl Undefined
    \<and> chunkdat_of_filedat (snd (import_string (\<lambda>_. ''x'') [dquote] (new_filedat ''f''))) = Inl Undefined"
  by (rule failed_import_leaves_null [where s = "[dquote]" and mem = "\<lambda>_. ''x''" and fd = "new_filedat ''f''"])
    (simp add: import_string_def generateChunk_def removeComments_def Let_def prod_eq_iff)

end
