(* ===== verification/Filedat_Store.thy ===== *)
theory Filedat_Store
  imports Chunk_Text Filedat
begin

text \<open>
  The pointer \<open>m_dataChunk\<close> of a \<open>filedat\<close> (src/src/filedat.cpp, lines 123-147, 190-196 and
  220-234): the object it owns on the store, from the constructors to the destructor. The class
  declares no copy constructor, so the one the compiler supplies copies the pointer.
\<close>

section \<open>Operations\<close>

record filebox =
  box_path :: string
  box_data :: string
  box_chunk :: "addr option"

definition new_filebox :: "string \<Rightarrow> filebox mem" where
  "new_filebox path =
     bindM (new_block (Obj None 0 None)) (\<lambda>a.
     returnM \<lparr>box_path = path, box_data = [], box_chunk = Some a\<rparr>)"

definition delete_chunk :: "nat \<Rightarrow> filebox \<Rightarrow> unit mem" where
  "delete_chunk n fd = (case box_chunk fd of None \<Rightarrow> returnM () | Some a \<Rightarrow> delete_obj n a)"

text \<open>The destructor of the file object, and the copy constructor the compiler supplies.\<close>

definition destroy_filebox :: "nat \<Rightarrow> filebox \<Rightarrow> unit mem" where
  "destroy_filebox n fd = delete_chunk n fd"

definition copy_filebox :: "filebox \<Rightarrow> filebox" where
  "copy_filebox fd = fd"

definition clear_filebox :: "nat \<Rightarrow> filebox \<Rightarrow> filebox mem" where
  "clear_filebox n fd =
     (let fd = fd\<lparr>box_data := []\<rparr>
      in case box_chunk fd of None \<Rightarrow> returnM fd
         | Some a \<Rightarrow>
             bindM (delete_obj n a) (\<lambda>_.
             bindM (new_block (Obj None 0 None)) (\<lambda>a'. returnM (fd\<lparr>box_chunk := Some a'\<rparr>))))"

text \<open>
  \<open>generateChunk\<close>: the pointer still holds the deleted object while the comments are removed
  and the text is parsed; the handler then sets it to null.
\<close>

definition generate_box :: "(string \<Rightarrow> string) \<Rightarrow> nat \<Rightarrow> filebox \<Rightarrow> (exn option \<times> filebox) mem" where
  "generate_box mem n fd =
     bindM (delete_chunk n fd) (\<lambda>_.
     let handler = (\<lambda>fd. catch_format (\<lambda>w src i. Format_error (cstr w) (box_path fd) (box_data fd) i))
     in case removeComments (box_data fd) of
          Inl e \<Rightarrow> returnM (Some (handler fd e), fd\<lparr>box_chunk := None\<rparr>)
        | Inr data \<Rightarrow>
            (let fd = fd\<lparr>box_data := data\<rparr>
             in bindM (new_of_string mem n (box_data fd) 0 None) (\<lambda>r. case r of
                  Inl e \<Rightarrow> returnM (Some (handler fd e), fd\<lparr>box_chunk := None\<rparr>)
                | Inr a \<Rightarrow> returnM (None, fd\<lparr>box_chunk := Some a\<rparr>))))"

definition import_string_box :: "(string \<Rightarrow> string) \<Rightarrow> nat \<Rightarrow> string \<Rightarrow> filebox \<Rightarrow> (exn option \<times> filebox) mem" where
  "import_string_box mem n data fd =
     bindM (clear_filebox n fd) (\<lambda>fd. generate_box mem n (fd\<lparr>box_data := data, box_path := []\<rparr>))"

definition set_data_box :: "nat \<Rightarrow> addr \<Rightarrow> filebox \<Rightarrow> unit mem" where
  "set_data_box n i fd = (case box_chunk fd of None \<Rightarrow> faultM Freed | Some a \<Rightarrow> set_obj n i a)"

section \<open>Against the model without a store\<close>

definition holds_file :: "store \<Rightarrow> filebox \<Rightarrow> filedat \<Rightarrow> addr set \<Rightarrow> bool" where
  "holds_file s b fd S \<longleftrightarrow> box_path b = m_filePath fd \<and> box_data b = m_data fd \<and>
     (case m_dataChunk fd of
        None \<Rightarrow> box_chunk b = None \<and> S = {}
      | Some c \<Rightarrow> \<exists>a. box_chunk b = Some a \<and> stored s a c S)"

definition file_depth :: "filedat \<Rightarrow> nat" where
  "file_depth fd = (case m_dataChunk fd of None \<Rightarrow> 0 | Some c \<Rightarrow> depth c)"

lemma delete_chunk_run:
  assumes "holds_file s b fd S" "store_ok s" "file_depth fd \<le> n"
  shows "\<exists>s'. delete_chunk n b s = Inr ((), s') \<and> becomes s S s' {}"
proof (cases "m_dataChunk fd")
  case None
  then show ?thesis using assms by (auto simp: delete_chunk_def holds_file_def run_simps intro: becomes_refl)
next
  case (Some c)
  then obtain a where a: "box_chunk b = Some a" "stored s a c S" using assms(1) by (auto simp: holds_file_def)
  have "delete_obj n a s = Inr ((), drop_blocks S s)"
    using delete_obj_run [of c n] a(2) assms(3) Some by (simp add: deletes_def file_depth_def)
  then show ?thesis using a(1) becomes_drop [OF assms(2), of S S] by (auto simp: delete_chunk_def)
qed

lemma clear_filebox_run:
  assumes "holds_file s b fd S" "store_ok s" "file_depth fd \<le> n"
  shows "\<exists>b' s' S'. clear_filebox n b s = Inr (b', s') \<and> holds_file s' b' (clear_filedat fd) S' \<and> becomes s S s' S'"
proof (cases "m_dataChunk fd")
  case None
  then show ?thesis using assms becomes_refl
    by (auto simp: clear_filebox_def clear_filedat_def holds_file_def run_simps)
next
  case (Some c)
  then obtain a where a: "box_chunk b = Some a" "stored s a c S" using assms(1) by (auto simp: holds_file_def)
  have del: "delete_obj n a s = Inr ((), drop_blocks S s)"
    using delete_obj_run [of c n] a(2) assms(3) Some by (simp add: deletes_def file_depth_def)
  let ?t = "drop_blocks S s"
  let ?s = "alloc (Obj None 0 None) ?t"
  have b: "becomes s S ?t {}" using becomes_drop [OF assms(2), of S S] by simp
  have "becomes ?t {} ?s {fresh ?t}" by (rule becomes_alloc [OF becomes_ok [OF b]])
  from becomes_trans [OF b this assms(2)] have "becomes s S ?s {fresh ?t}" .
  moreover have "clear_filebox n b s = Inr (b\<lparr>box_data := [], box_chunk := Some (fresh ?t)\<rparr>, ?s)"
    using a(1) del by (simp add: clear_filebox_def run_simps)
  moreover have "holds_file ?s (b\<lparr>box_data := [], box_chunk := Some (fresh ?t)\<rparr>) (clear_filedat fd) {fresh ?t}"
    using assms(1) Some by (simp add: holds_file_def clear_filedat_def new_chunkdat_def)
  ultimately show ?thesis by blast
qed

text \<open>What an import leaks is the content of the object whose parsing failed.\<close>

lemma generate_box_run:
  assumes "holds_file s b fd S" "store_ok s" "file_depth fd \<le> n"
    and "\<And>d. removeComments (m_data fd) = Inr d \<Longrightarrow> length d < n"
  shows "\<exists>b' s' S' L. generate_box mem n b s = Inr ((fst (generateChunk mem fd), b'), s')
    \<and> holds_file s' b' (snd (generateChunk mem fd)) S' \<and> becomes s S s' (S' \<union> L)
    \<and> (fst (generateChunk mem fd) = None \<longrightarrow> L = {})"
proof -
  obtain s1 where 1: "delete_chunk n b s = Inr ((), s1)" "becomes s S s1 {}"
    using delete_chunk_run [OF assms(1-3)] by blast
  have ok: "store_ok s1" by (rule becomes_ok [OF 1(2)])
  have eq: "box_data b = m_data fd" "box_path b = m_filePath fd" using assms(1) by (auto simp: holds_file_def)
  show ?thesis
  proof (cases "removeComments (m_data fd)")
    case (Inl e)
    then have "generate_box mem n b s = Inr ((fst (generateChunk mem fd), b\<lparr>box_chunk := None\<rparr>), s1)"
      using 1(1) eq by (simp add: generate_box_def generateChunk_def run_simps)
    moreover have "holds_file s1 (b\<lparr>box_chunk := None\<rparr>) (snd (generateChunk mem fd)) {}"
      using Inl eq by (simp add: generateChunk_def holds_file_def)
    ultimately show ?thesis using 1(2) Inl by (intro exI) (auto simp: generateChunk_def)
  next
    case (Inr d)
    obtain e c where c: "set_str mem d 0 None = (e, c)" by force
    have "sets (set_str_obj mem n d 0 None) (e, c) n" using set_str_obj_run [OF assms(4) [OF Inr]] c by metis
    from new_from_run [OF this ok] assms(4) [OF Inr] obtain r s' T where *: "new_of_string mem n d 0 None s1 = Inr (r, s')"
      "becomes s1 {} s' T" "case e of None \<Rightarrow> (\<exists>a. r = Inr a \<and> stored s' a c T)
        | Some x \<Rightarrow> r = Inl x \<and> T \<subseteq> dom (cells s') \<and> (m_achunk c \<noteq> None \<longrightarrow> T \<noteq> {})"
      by (auto simp: new_of_string_def)
    have be: "becomes s S s' T" by (rule becomes_trans [OF 1(2) *(2) assms(2)])
    let ?b = "\<lambda>x. b\<lparr>box_data := d, box_chunk := x\<rparr>"
    have gen: "generate_box mem n b s = (case r of
        Inl x \<Rightarrow> Inr ((Some (catch_format (\<lambda>w src i. Format_error (cstr w) (m_filePath fd) d i) x), ?b None), s')
      | Inr a \<Rightarrow> Inr ((None, ?b (Some a)), s'))"
      using 1(1) *(1) Inr eq by (simp add: generate_box_def run_simps Let_def split: sum.splits)
    show ?thesis
    proof (cases e)
      case None
      then obtain a where "r = Inr a" "stored s' a c T" using *(3) by auto
      then show ?thesis using gen be None c Inr eq
        by (intro exI [of _ "?b (Some a)"] exI [of _ s'] exI [of _ T] exI [of _ "{}"])
          (simp add: generateChunk_def chunkdat_of_string_def from_set_def holds_file_def)
    next
      case (Some x)
      then show ?thesis using gen be *(3) c Inr eq
        by (intro exI [of _ "?b None"] exI [of _ s'] exI [of _ "{}"] exI [of _ T])
          (simp add: generateChunk_def chunkdat_of_string_def from_set_def holds_file_def)
    qed
  qed
qed

lemma file_depth_clear: "file_depth (clear_filedat fd) \<le> 1"
  by (simp add: file_depth_def clear_filedat_def new_chunkdat_def split: option.splits)

lemma import_box_run:
  assumes "holds_file s b fd S" "store_ok s" "file_depth fd \<le> n" "1 \<le> n"
    and "\<And>d. removeComments data = Inr d \<Longrightarrow> length d < n"
  shows "\<exists>b' s' S' L. import_string_box mem n data b s = Inr ((fst (import_string mem data fd), b'), s')
    \<and> holds_file s' b' (snd (import_string mem data fd)) S' \<and> becomes s S s' (S' \<union> L)
    \<and> (fst (import_string mem data fd) = None \<longrightarrow> L = {})"
proof -
  obtain b1 s1 S1 where 1: "clear_filebox n b s = Inr (b1, s1)" "holds_file s1 b1 (clear_filedat fd) S1" "becomes s S s1 S1"
    using clear_filebox_run [OF assms(1-3)] by blast
  let ?fd = "(clear_filedat fd)\<lparr>m_data := data, m_filePath := []\<rparr>"
  let ?b = "b1\<lparr>box_data := data, box_path := []\<rparr>"
  have h: "holds_file s1 ?b ?fd S1" using 1(2)
    by (cases "m_dataChunk (clear_filedat fd)") (simp_all add: holds_file_def)
  have d: "file_depth ?fd \<le> n" using file_depth_clear [of fd] assms(4) by (simp add: file_depth_def)
  obtain b' s' S' L where 2: "generate_box mem n ?b s1 = Inr ((fst (generateChunk mem ?fd), b'), s')"
    "holds_file s' b' (snd (generateChunk mem ?fd)) S'" "becomes s1 S1 s' (S' \<union> L)"
    "fst (generateChunk mem ?fd) = None \<longrightarrow> L = {}"
    using generate_box_run [OF h becomes_ok [OF 1(3)] d, of mem] assms(5) by auto
  have "becomes s S s' (S' \<union> L)" by (rule becomes_trans [OF 1(3) 2(3) assms(2)])
  moreover have "import_string_box mem n data b s = Inr ((fst (import_string mem data fd), b'), s')"
    using 1(1) 2(1) by (simp add: import_string_box_def import_string_def run_simps)
  ultimately show ?thesis using 2(2,4)
    by (intro exI [of _ b'] exI [of _ s'] exI [of _ S'] exI [of _ L]) (simp add: import_string_def)
qed

section \<open>Properties\<close>

text \<open>Importing a string into a file object deletes the object it held; when the import
  succeeds, the new object is all that is allocated in its place.\<close>

theorem import_frees_old_data:
  assumes "holds_file s b fd S" "store_ok s" "dom (cells s) = S"
    and "file_depth fd \<le> n" "1 \<le> n" "\<And>d. removeComments data = Inr d \<Longrightarrow> length d < n"
    and "fst (import_string mem data fd) = None"
  shows "\<exists>b' s' S'. import_string_box mem n data b s = Inr ((None, b'), s')
    \<and> holds_file s' b' (snd (import_string mem data fd)) S' \<and> dom (cells s') = S'"
proof -
  obtain b' s' S' where *: "import_string_box mem n data b s = Inr ((None, b'), s')"
    "holds_file s' b' (snd (import_string mem data fd)) S'" "becomes s S s' S'"
    using import_box_run [where mem = mem and data = data, OF assms(1,2,4,5,6)] assms(7) by auto
  have "S' \<subseteq> dom (cells s')"
    using *(2) by (auto simp: holds_file_def dest!: stored_allocated split: option.splits)
  moreover have "x \<in> S'" if "x \<in> dom (cells s')" for x
    using that *(3) assms(3) by (cases "x \<in> S'") (auto simp: becomes_def split: if_splits)
  ultimately show ?thesis using * by blast
qed

theorem import_frees_old_data_witness:
  "\<exists>b' s' S'. import_string_box (\<lambda>_. ''x'') 9 ''{a=b}'' \<lparr>box_path = ''f'', box_data = [], box_chunk = Some 0\<rparr>
      \<lparr>cells = [0 \<mapsto> Obj None 0 (Some 1), 1 \<mapsto> Str ''old''], fresh = 2\<rparr> = Inr ((None, b'), s')
    \<and> holds_file s' b' (snd (import_string (\<lambda>_. ''x'') ''{a=b}''
        \<lparr>m_filePath = ''f'', m_data = [], m_dataChunk = Some (Chunkdat None 0 (Some (Chunk_string ''old'')))\<rparr>)) S'
    \<and> dom (cells s') = S'"
proof (rule import_frees_old_data [where S = "{0, 1}"])
  show "fst (import_string (\<lambda>_. ''x'') ''{a=b}''
      \<lparr>m_filePath = ''f'', m_data = [], m_dataChunk = Some (Chunkdat None 0 (Some (Chunk_string ''old'')))\<rparr>) = None"
    by code_simp
  have "removeComments ''{a=b}'' = Inr ''{a=b}''" by code_simp
  then show "length d < 9" if "removeComments ''{a=b}'' = Inr d" for d using that by auto
qed (auto simp: holds_file_def store_ok_def file_depth_def)

text \<open>C19: The file object has no copy constructor of its own: a copy shares the object
  \<open>m_dataChunk\<close> points to, and the second of the two destructors deletes it again.\<close>

theorem copied_file_double_delete:
  assumes "holds_file s b fd S" "m_dataChunk fd = Some c" "store_ok s" "depth c \<le> n"
  shows "bindM (destroy_filebox n b) (\<lambda>_. destroy_filebox n (copy_filebox b)) s = Inl Freed"
proof -
  obtain a where a: "box_chunk b = Some a" "stored s a c S" using assms(1,2) by (auto simp: holds_file_def)
  obtain m where n: "n = Suc m" using assms(4) by (cases n; cases c) auto
  have del: "delete_obj n a s = Inr ((), drop_blocks S s)"
    using delete_obj_run [OF assms(4)] a(2) by (simp add: deletes_def)
  have "cells (drop_blocks S s) a = None" using stored_obj [OF a(2)] by auto
  then have "delete_obj n a (drop_blocks S s) = Inl Freed"
    by (simp add: n clear_with_def get_obj_def bindM_def)
  with del a(1) show ?thesis
    by (simp add: destroy_filebox_def copy_filebox_def delete_chunk_def bindM_def)
qed

theorem copied_file_double_delete_witness:
  "bindM (destroy_filebox 1 \<lparr>box_path = [], box_data = [], box_chunk = Some 0\<rparr>)
      (\<lambda>_. destroy_filebox 1 (copy_filebox \<lparr>box_path = [], box_data = [], box_chunk = Some 0\<rparr>))
      \<lparr>cells = [0 \<mapsto> Obj None 0 None], fresh = 1\<rparr> = Inl Freed"
  by (rule copied_file_double_delete [where fd = "new_filedat []" and S = "{0}" and c = new_chunkdat])
    (simp_all add: holds_file_def new_filedat_def new_chunkdat_def store_ok_def)

end
