(* ===== verification/Filedat_Session.thy ===== *)
theory Filedat_Session
  imports Filedat_Store Chunk_Client
begin

text \<open>
  The life of a file object: a program constructs it, calls its members in any order, catching
  what they throw, and destroys it. On the store every such program does what it does without
  one (theory Filedat), its undefined calls are accesses through the null pointer a failed
  import leaves, and unless an import or a constructor from text failed it leaves no block
  allocated. The locale \<open>file_member\<close> is what each call has to keep.
\<close>

section \<open>Operations\<close>

definition import_file_box :: "(string \<Rightarrow> string) \<Rightarrow> (string \<Rightarrow> string option) \<Rightarrow> nat \<Rightarrow> string \<Rightarrow> filebox
    \<Rightarrow> (exn option \<times> filebox) mem" where
  "import_file_box mem fs n path fd =
     (let fd = (if path \<noteq> [] then fd\<lparr>box_path := path\<rparr> else fd) in
      case fs (box_path fd) of
        None \<Rightarrow> returnM (Some (Runtime_error (''Cannot read file '' @ [squote] @ box_path fd @ [squote])), fd)
      | Some content \<Rightarrow>
          bindM (clear_filebox n fd) (\<lambda>fd.
          generate_box mem n (fd\<lparr>box_data := read_lines (open_stream content) [] []\<rparr>)))"

definition import_stdin_box :: "(string \<Rightarrow> string) \<Rightarrow> nat \<Rightarrow> istream \<Rightarrow> filebox \<Rightarrow> (exn option \<times> filebox) mem" where
  "import_stdin_box mem n cin fd =
     bindM (clear_filebox n (fd\<lparr>box_path := ''stdin''\<rparr>)) (\<lambda>fd.
     generate_box mem n (fd\<lparr>box_data := read_lines cin [] []\<rparr>))"

definition set_path_box :: "string \<Rightarrow> filebox \<Rightarrow> filebox" where
  "set_path_box path fd = fd\<lparr>box_path := path\<rparr>"

text \<open>
  \<open>set_data\<close> with a text: the argument is a temporary object, constructed before the call and
  destroyed after it.
\<close>

definition set_text_box :: "(string \<Rightarrow> string) \<Rightarrow> nat \<Rightarrow> string \<Rightarrow> filebox \<Rightarrow> (exn option \<times> filebox) mem" where
  "set_text_box mem n s fd =
     bindM (new_of_string mem n s 0 None) (\<lambda>r. case r of
       Inl e \<Rightarrow> returnM (Some e, fd)
     | Inr a \<Rightarrow>
         bindM (set_data_box n a fd) (\<lambda>_.
         bindM (delete_obj n a) (\<lambda>_. returnM (None, fd))))"

section \<open>Programs\<close>

datatype file_call =
    Import_string string
  | Import_file string
  | Import_stdin istream
  | Clear_file
  | Set_path string
  | Set_text string

definition set_text :: "(string \<Rightarrow> string) \<Rightarrow> string \<Rightarrow> filedat \<Rightarrow> (exn option \<times> filedat) option" where
  "set_text mem s fd =
     (case chunkdat_of_string mem s 0 None of
        Inl e \<Rightarrow> Some (Some e, fd)
      | Inr c \<Rightarrow> (case m_dataChunk fd of None \<Rightarrow> None | Some _ \<Rightarrow> Some (set_data c fd)))"

fun file_step :: "(string \<Rightarrow> string) \<Rightarrow> (string \<Rightarrow> string option) \<Rightarrow> file_call \<Rightarrow> filedat
    \<Rightarrow> (exn option \<times> filedat) option" where
  "file_step mem fs (Import_string s) fd = Some (import_string mem s fd)"
| "file_step mem fs (Import_file path) fd = Some (import_file mem fs path fd)"
| "file_step mem fs (Import_stdin cin) fd = Some (import_stdin mem cin fd)"
| "file_step mem fs Clear_file fd = Some (None, clear_filedat fd)"
| "file_step mem fs (Set_path path) fd = Some (None, setFilePath path fd)"
| "file_step mem fs (Set_text s) fd = set_text mem s fd"

fun file_run :: "(string \<Rightarrow> string) \<Rightarrow> (string \<Rightarrow> string option) \<Rightarrow> file_call list \<Rightarrow> filedat
    \<Rightarrow> (exn option list \<times> filedat) option" where
  "file_run mem fs [] fd = Some ([], fd)"
| "file_run mem fs (c # cs) fd =
     (case file_step mem fs c fd of None \<Rightarrow> None
      | Some (e, fd') \<Rightarrow>
          (case file_run mem fs cs fd' of None \<Rightarrow> None | Some (es, fd'') \<Rightarrow> Some (e # es, fd'')))"

fun box_step :: "(string \<Rightarrow> string) \<Rightarrow> (string \<Rightarrow> string option) \<Rightarrow> nat \<Rightarrow> file_call \<Rightarrow> filebox
    \<Rightarrow> (exn option \<times> filebox) mem" where
  "box_step mem fs n (Import_string s) b = import_string_box mem n s b"
| "box_step mem fs n (Import_file path) b = import_file_box mem fs n path b"
| "box_step mem fs n (Import_stdin cin) b = import_stdin_box mem n cin b"
| "box_step mem fs n Clear_file b = bindM (clear_filebox n b) (\<lambda>b. returnM (None, b))"
| "box_step mem fs n (Set_path path) b = returnM (None, set_path_box path b)"
| "box_step mem fs n (Set_text s) b = set_text_box mem n s b"

fun box_run :: "(string \<Rightarrow> string) \<Rightarrow> (string \<Rightarrow> string option) \<Rightarrow> nat \<Rightarrow> file_call list \<Rightarrow> filebox
    \<Rightarrow> (exn option list \<times> filebox) mem" where
  "box_run mem fs n [] b = returnM ([], b)"
| "box_run mem fs n (c # cs) b =
     bindM (box_step mem fs n c b) (\<lambda>(e, b).
     bindM (box_run mem fs n cs b) (\<lambda>(es, b). returnM (e # es, b)))"

text \<open>The exceptions that leave no half-built object behind.\<close>

fun harmless :: "exn option \<Rightarrow> bool" where
  "harmless None = True"
| "harmless (Some (Runtime_error w)) = True"
| "harmless (Some _) = False"

lemma removeComments_parse_exn: "removeComments str = Inl e \<Longrightarrow> parse_exn e"
proof -
  have "rc_loop pre r = Inl e \<Longrightarrow> parse_exn e" for pre r
    by (induction pre r rule: rc_loop.induct) (auto simp: Let_def split: if_splits option.splits)
  then show "removeComments str = Inl e \<Longrightarrow> parse_exn e" by (simp add: removeComments_def)
qed


lemma generateChunk_exn:
  "fst (generateChunk mem fd) = Some e \<Longrightarrow> parse_exn e \<and> m_dataChunk (snd (generateChunk mem fd)) = None"
  using removeComments_parse_exn [of "m_data fd"] set_str_parse_exn [of mem _ 0 None]
  by (auto simp: generateChunk_def chunkdat_of_string_def from_set_def Let_def split: sum.splits option.splits
      intro!: catch_parse_exn)

lemma holds_file_dom: "holds_file s b fd S \<Longrightarrow> S \<subseteq> dom (cells s)"
  by (auto simp: holds_file_def dest!: stored_allocated split: option.splits)

section \<open>One call\<close>

text \<open>
  What a call on the store has to do with the file it holds, when the call without a store
  gives \<open>res\<close>; \<open>None\<close> is an access through the null pointer.
\<close>

definition simulates :: "(filebox \<Rightarrow> ('e \<times> filebox) mem) \<Rightarrow> ('e \<Rightarrow> bool) \<Rightarrow> filedat \<Rightarrow> ('e \<times> filedat) option \<Rightarrow> bool" where
  "simulates act ok fd res \<longleftrightarrow> (\<forall>s b S. holds_file s b fd S \<longrightarrow> store_ok s \<longrightarrow>
     (case res of None \<Rightarrow> act b s = Inl Freed
      | Some (e, fd') \<Rightarrow> \<exists>b' s' S'. act b s = Inr ((e, b'), s') \<and> holds_file s' b' fd' S' \<and> store_ok s'
          \<and> (dom (cells s) = S \<longrightarrow> ok e \<longrightarrow> dom (cells s') = S')))"

text \<open>The contract of a member: \<open>op\<close> is the call without a store.\<close>

locale file_member =
  fixes act :: "nat \<Rightarrow> filebox \<Rightarrow> (exn option \<times> filebox) mem"
    and op :: "filedat \<Rightarrow> (exn option \<times> filedat) option"
    and fuel :: "filedat \<Rightarrow> nat"
  assumes sim: "holds_file s b fd S \<Longrightarrow> store_ok s \<Longrightarrow> fuel fd \<le> n \<Longrightarrow>
      case op fd of None \<Rightarrow> act n b s = Inl Freed
      | Some (e, fd') \<Rightarrow> \<exists>b' s' S' L. act n b s = Inr ((e, b'), s') \<and> holds_file s' b' fd' S'
          \<and> becomes s S s' (S' \<union> L) \<and> (harmless e \<longrightarrow> L = {})"
begin

lemma step: "fuel fd \<le> n \<Longrightarrow> simulates (act n) harmless fd (op fd)"
  unfolding simulates_def
proof (intro allI impI)
  fix s b S assume n: "fuel fd \<le> n" and h: "holds_file s b fd S" "store_ok s"
  show "case op fd of None \<Rightarrow> act n b s = Inl Freed
      | Some (e, fd') \<Rightarrow> \<exists>b' s' S'. act n b s = Inr ((e, b'), s') \<and> holds_file s' b' fd' S' \<and> store_ok s'
          \<and> (dom (cells s) = S \<longrightarrow> harmless e \<longrightarrow> dom (cells s') = S')"
  proof (cases "op fd")
    case None
    then show ?thesis using sim [OF h n] by simp
  next
    case (Some res)
    obtain e fd' where res: "res = (e, fd')" by force
    obtain b' s' S' L where *: "act n b s = Inr ((e, b'), s')" "holds_file s' b' fd' S'"
      "becomes s S s' (S' \<union> L)" "harmless e \<longrightarrow> L = {}" using sim [OF h n] Some res by auto
    have "dom (cells s') = S'" if "dom (cells s) = S" "harmless e"
      using holds_file_dom [OF *(2)] that *(3,4) by (auto simp: becomes_def split: if_splits)
    then show ?thesis using * becomes_ok [OF *(3)] Some res by (simp only: option.case prod.case) blast
  qed
qed

end

text \<open>An import: it sets the path, clears the object and parses \<open>data\<close>.\<close>

definition import_fuel :: "string \<Rightarrow> filedat \<Rightarrow> nat" where
  "import_fuel data fd = file_depth fd + 1 + (case removeComments data of Inl _ \<Rightarrow> 0 | Inr d \<Rightarrow> Suc (length d))"

lemma import_sim:
  assumes "holds_file s b fd S" "store_ok s" and n: "import_fuel data fd \<le> n"
  shows "\<exists>b' s' S' L.
    bindM (clear_filebox n (b\<lparr>box_path := path\<rparr>)) (\<lambda>b. generate_box mem n (b\<lparr>box_data := data\<rparr>)) s =
      Inr ((fst (generateChunk mem ((clear_filedat (fd\<lparr>m_filePath := path\<rparr>))\<lparr>m_data := data\<rparr>)), b'), s')
    \<and> holds_file s' b' (snd (generateChunk mem ((clear_filedat (fd\<lparr>m_filePath := path\<rparr>))\<lparr>m_data := data\<rparr>))) S'
    \<and> becomes s S s' (S' \<union> L)
    \<and> (harmless (fst (generateChunk mem ((clear_filedat (fd\<lparr>m_filePath := path\<rparr>))\<lparr>m_data := data\<rparr>))) \<longrightarrow> L = {})"
proof -
  note n = n [unfolded import_fuel_def]
  let ?fd1 = "fd\<lparr>m_filePath := path\<rparr>" and ?b1 = "b\<lparr>box_path := path\<rparr>"
  have h: "holds_file s ?b1 ?fd1 S" using assms(1) by (auto simp: holds_file_def split: option.splits)
  have d1: "file_depth ?fd1 \<le> n" using n by (simp add: file_depth_def)
  obtain b2 s2 S2 where 2: "clear_filebox n ?b1 s = Inr (b2, s2)" "holds_file s2 b2 (clear_filedat ?fd1) S2" "becomes s S s2 S2"
    using clear_filebox_run [OF h assms(2) d1] by blast
  let ?fd2 = "(clear_filedat ?fd1)\<lparr>m_data := data\<rparr>"
  have h2: "holds_file s2 (b2\<lparr>box_data := data\<rparr>) ?fd2 S2"
    using 2(2) by (auto simp: holds_file_def split: option.splits)
  have d2: "file_depth ?fd2 \<le> n" using file_depth_clear [of ?fd1] n by (simp add: file_depth_def)
  have len: "length d < n" if "removeComments (m_data ?fd2) = Inr d" for d using n that by simp
  obtain b' s' S' L where *: "generate_box mem n (b2\<lparr>box_data := data\<rparr>) s2 = Inr ((fst (generateChunk mem ?fd2), b'), s')"
    "holds_file s' b' (snd (generateChunk mem ?fd2)) S'" "becomes s2 S2 s' (S' \<union> L)"
    "fst (generateChunk mem ?fd2) = None \<longrightarrow> L = {}"
    using generate_box_run [OF h2 becomes_ok [OF 2(3)] d2 len] by blast
  have "harmless (fst (generateChunk mem ?fd2)) \<longrightarrow> fst (generateChunk mem ?fd2) = None"
    using generateChunk_exn [of mem ?fd2] by (cases "fst (generateChunk mem ?fd2)" rule: harmless.cases) auto
  then show ?thesis
    using 2(1) * becomes_trans [OF 2(3) *(3) assms(2)]
    by (intro exI [of _ b'] exI [of _ s'] exI [of _ S'] exI [of _ L]) (simp add: run_simps)
qed

lemma import_string_exn: "fst (import_string mem data fd) = Some e \<Longrightarrow> parse_exn e"
  using generateChunk_exn by (simp add: import_string_def)

lemma import_string_sim:
  assumes "holds_file s b fd S" "store_ok s" and n: "import_fuel data fd \<le> n"
  shows "\<exists>b' s' S' L. import_string_box mem n data b s = Inr ((fst (import_string mem data fd), b'), s')
    \<and> holds_file s' b' (snd (import_string mem data fd)) S' \<and> becomes s S s' (S' \<union> L)
    \<and> (harmless (fst (import_string mem data fd)) \<longrightarrow> L = {})"
proof -
  note n = n [unfolded import_fuel_def]
  have len: "length d < n" if "removeComments data = Inr d" for d using n that by simp
  have "harmless (fst (import_string mem data fd)) \<longrightarrow> fst (import_string mem data fd) = None"
    using import_string_exn [of mem data fd] by (cases "fst (import_string mem data fd)" rule: harmless.cases) auto
  then show ?thesis
    using import_box_run [where mem = mem and data = data, OF assms(1,2) _ _ len] n by fastforce
qed

lemma set_text_some:
  assumes "stored s a d S" "store_ok s" "wf_chunk c" "stored s1 x c T" "becomes s {} s1 T" "depth c \<le> n" "depth d \<le> n"
  shows "\<exists>s2 s3 S3. set_obj n x a s1 = Inr ((), s2) \<and> delete_obj n x s2 = Inr ((), s3) \<and> stored s3 a c S3 \<and> becomes s S s3 S3"
proof -
  have a: "stored s1 a d S" "S \<inter> T = {}" using becomes_stored [OF assms(5,1) _ assms(2)] by auto
  have ok: "store_ok s1" by (rule becomes_ok [OF assms(5)])
  have TS: "T \<inter> S = {}" using a(2) by blast
  obtain s2 S2 where 2: "set_obj n x a s1 = Inr ((), s2)" "stored s2 a c S2" "becomes s1 S s2 S2"
    using set_obj_run [OF assms(6,7,3,4) a(1) TS ok] by blast
  have x: "stored s2 x c T" "T \<inter> S2 = {}" using becomes_stored [OF 2(3) assms(4) TS ok] by auto
  let ?s3 = "drop_blocks T s2"
  have del: "delete_obj n x s2 = Inr ((), ?s3)" using delete_obj_run [OF assms(6)] x(1) by (simp add: deletes_def)
  have "stored ?s3 a c S2" by (rule stored_frame [OF 2(2)]) (use x(2) in auto)
  moreover have "becomes s S s1 (S \<union> T)"
    by (rule becomes_new [OF assms(5)]) (use stored_below [OF assms(1,2)] in blast)
  moreover have "becomes s1 (S \<union> T) s2 (S2 \<union> T)"
    by (rule becomes_frame [OF 2(3) TS]) (use stored_below [OF assms(4) ok] in blast)
  moreover have "becomes s2 (S2 \<union> T) ?s3 S2"
    using becomes_drop [OF becomes_ok [OF 2(3)], of T "S2 \<union> T"] x(2) by (simp add: Un_Diff Int_commute Diff_triv)
  ultimately have "becomes s S ?s3 S2" using becomes_trans assms(2) by meson
  with 2(1) del \<open>stored ?s3 a c S2\<close> show ?thesis by blast
qed

lemma holds_file_below: "holds_file s b fd S \<Longrightarrow> store_ok s \<Longrightarrow> x \<in> S \<Longrightarrow> x < fresh s"
  using stored_below by (auto simp: holds_file_def split: option.splits)

definition set_text_fuel :: "(string \<Rightarrow> string) \<Rightarrow> string \<Rightarrow> filedat \<Rightarrow> nat" where
  "set_text_fuel mem data fd = Suc (length data + depth (snd (set_str mem data 0 None)) + file_depth fd)"

lemma set_text_sim:
  assumes "holds_file s b fd S" "store_ok s" and n: "set_text_fuel mem data fd \<le> n"
  shows "case set_text mem data fd of None \<Rightarrow> set_text_box mem n data b s = Inl Freed
      | Some (e, fd') \<Rightarrow> \<exists>b' s' S' L. set_text_box mem n data b s = Inr ((e, b'), s') \<and> holds_file s' b' fd' S'
          \<and> becomes s S s' (S' \<union> L) \<and> (harmless e \<longrightarrow> L = {})"
proof -
  obtain e c where c: "set_str mem data 0 None = (e, c)" by force
  have wf: "wf_chunk c" using parse_good [of mem data 0 None] c by simp
  have n: "length data + depth c + file_depth fd < n" using n c by (simp add: set_text_fuel_def)
  have "sets (set_str_obj mem n data 0 None) (e, c) n" using set_str_obj_run [of data n mem 0 None] n c by simp
  from new_from_run [OF this assms(2)] n obtain r s1 T where new: "new_of_string mem n data 0 None s = Inr (r, s1)"
    "becomes s {} s1 T" "case e of None \<Rightarrow> (\<exists>a. r = Inr a \<and> stored s1 a c T)
      | Some x \<Rightarrow> r = Inl x \<and> T \<subseteq> dom (cells s1) \<and> (m_achunk c \<noteq> None \<longrightarrow> T \<noteq> {})"
    by (auto simp: new_of_string_def)
  show ?thesis
  proof (cases e)
    case (Some x)
    have "parse_exn x" using set_str_parse_exn [of mem data 0 None x] c Some by simp
    moreover have "holds_file s1 b fd S"
      using assms becomes_stored [OF new(2) _ _ assms(2)] by (auto simp: holds_file_def split: option.splits)
    moreover have "becomes s S s1 (S \<union> T)"
      by (rule becomes_new [OF new(2)])
        (use holds_file_below [OF assms(1,2)] in blast)
    moreover have "set_text_box mem n data b s = Inr ((Some x, b), s1)"
      using new(1,3) Some by (simp add: set_text_box_def run_simps)
    ultimately show ?thesis using c Some
      by (cases x) (auto simp: set_text_def chunkdat_of_string_def from_set_def)
  next
    case None
    then obtain a where a: "r = Inr a" "stored s1 a c T" using new(3) by auto
    show ?thesis
    proof (cases "m_dataChunk fd")
      case N: None
      then have "box_chunk b = None" using assms(1) by (simp add: holds_file_def)
      then show ?thesis using N None c new(1) a(1)
        by (simp add: set_text_def chunkdat_of_string_def from_set_def set_text_box_def set_data_box_def run_simps)
    next
      case (Some d)
      then obtain a0 where a0: "box_chunk b = Some a0" "stored s a0 d S" using assms(1) by (auto simp: holds_file_def)
      have "depth d \<le> n" "depth c \<le> n" using n Some by (simp_all add: file_depth_def)
      then obtain s2 s3 S3 where *: "set_obj n a a0 s1 = Inr ((), s2)" "delete_obj n a s2 = Inr ((), s3)"
        "stored s3 a0 c S3" "becomes s S s3 S3"
        using set_text_some [OF a0(2) assms(2) wf a(2) new(2)] by blast
      have "set_text_box mem n data b s = Inr ((None, b), s3)"
        using new(1) a(1) a0(1) * by (simp add: set_text_box_def set_data_box_def run_simps)
      moreover have "holds_file s3 b (fd\<lparr>m_dataChunk := Some c\<rparr>) S3"
        using assms(1) a0(1) *(3) by (simp add: holds_file_def)
      ultimately show ?thesis using Some None c *(4) copy_chunk_id [OF wf]
        by (simp add: set_text_def chunkdat_of_string_def from_set_def set_data_def set_chunk_def)
          (intro exI [of _ S3] exI [of _ "{}"], simp)
    qed
  qed
qed

section \<open>The members\<close>

definition file_fuel :: "(string \<Rightarrow> string option) \<Rightarrow> string \<Rightarrow> filedat \<Rightarrow> nat" where
  "file_fuel fs path fd = (case fs (if path = [] then m_filePath fd else path) of None \<Rightarrow> 0
     | Some content \<Rightarrow> import_fuel (read_lines (open_stream content) [] []) fd)"

interpretation importing_string: file_member "\<lambda>n. box_step mem fs n (Import_string data)"
    "file_step mem fs (Import_string data)" "import_fuel data"
  for mem fs data
  by unfold_locales (use import_string_sim in \<open>simp add: split_beta\<close>)

interpretation importing_stdin: file_member "\<lambda>n. box_step mem fs n (Import_stdin cin)"
    "file_step mem fs (Import_stdin cin)" "import_fuel (read_lines cin [] [])"
  for mem fs cin
  by unfold_locales (use import_sim [where path = "''stdin''"] in \<open>simp add: split_beta import_stdin_def import_stdin_box_def\<close>)

interpretation importing_file: file_member "\<lambda>n. box_step mem fs n (Import_file path)"
    "file_step mem fs (Import_file path)" "file_fuel fs path"
  for mem fs path
proof
  fix s b fd S n assume h: "holds_file s b fd S" "store_ok s" and n: "file_fuel fs path fd \<le> n"
  let ?path = "if path = [] then m_filePath fd else path"
  have p: "box_path b = m_filePath fd" using h(1) by (simp add: holds_file_def)
  have b: "(if path \<noteq> [] then b\<lparr>box_path := path\<rparr> else b) = b\<lparr>box_path := ?path\<rparr>"
    "(if path \<noteq> [] then fd\<lparr>m_filePath := path\<rparr> else fd) = fd\<lparr>m_filePath := ?path\<rparr>"
    using p by (simp_all add: filebox.equality filedat.equality)
  show "case file_step mem fs (Import_file path) fd of None \<Rightarrow> box_step mem fs n (Import_file path) b s = Inl Freed
      | Some (e, fd') \<Rightarrow> \<exists>b' s' S' L. box_step mem fs n (Import_file path) b s = Inr ((e, b'), s') \<and> holds_file s' b' fd' S'
          \<and> becomes s S s' (S' \<union> L) \<and> (harmless e \<longrightarrow> L = {})"
  proof (cases "fs ?path")
    case None
    have "holds_file s (b\<lparr>box_path := ?path\<rparr>) (fd\<lparr>m_filePath := ?path\<rparr>) S"
      using h(1) by (auto simp: holds_file_def split: option.splits)
    moreover have "becomes s S s (S \<union> {})" using becomes_refl [OF h(2)] by simp
    ultimately show ?thesis using None
      by (simp only: file_step.simps box_step.simps import_file_def import_file_box_def b Let_def)
        (auto simp: run_simps)
  next
    case (Some content)
    then have "import_fuel (read_lines (open_stream content) [] []) fd \<le> n" using n by (simp add: file_fuel_def)
    from import_sim [OF h this, of ?path mem] Some show ?thesis
      by (simp only: file_step.simps box_step.simps import_file_def import_file_box_def b Let_def)
        (simp add: split_beta)
  qed
qed

interpretation clearing: file_member "\<lambda>n. box_step mem fs n Clear_file" "file_step mem fs Clear_file" file_depth
  for mem fs
proof
  fix s b fd S n assume h: "holds_file s b fd S" "store_ok s" "file_depth fd \<le> n"
  obtain b' s' S' where "clear_filebox n b s = Inr (b', s')" "holds_file s' b' (clear_filedat fd) S'" "becomes s S s' S'"
    using clear_filebox_run [OF h] by blast
  then have "\<exists>b' s' S' L. box_step mem fs n Clear_file b s = Inr ((None, b'), s') \<and> holds_file s' b' (clear_filedat fd) S'
      \<and> becomes s S s' (S' \<union> L) \<and> (harmless None \<longrightarrow> L = {})"
    by (intro exI [of _ b'] exI [of _ s'] exI [of _ S'] exI [of _ "{}"]) (simp add: run_simps)
  then show "case file_step mem fs Clear_file fd of None \<Rightarrow> box_step mem fs n Clear_file b s = Inl Freed
      | Some (e, fd') \<Rightarrow> \<exists>b' s' S' L. box_step mem fs n Clear_file b s = Inr ((e, b'), s') \<and> holds_file s' b' fd' S'
          \<and> becomes s S s' (S' \<union> L) \<and> (harmless e \<longrightarrow> L = {})" by (simp del: box_step.simps)
qed

interpretation setting_path: file_member "\<lambda>n. box_step mem fs n (Set_path path)" "file_step mem fs (Set_path path)" "\<lambda>_. 0"
  for mem fs path
proof
  fix s b fd S n assume h: "holds_file s b fd S" "store_ok s"
  have "holds_file s (set_path_box path b) (setFilePath path fd) S"
    using h(1) by (auto simp: holds_file_def set_path_box_def setFilePath_def split: option.splits)
  moreover have "becomes s S s (S \<union> {})" using becomes_refl [OF h(2)] by simp
  ultimately show "case file_step mem fs (Set_path path) fd of None \<Rightarrow> box_step mem fs n (Set_path path) b s = Inl Freed
      | Some (e, fd') \<Rightarrow> \<exists>b' s' S' L. box_step mem fs n (Set_path path) b s = Inr ((e, b'), s') \<and> holds_file s' b' fd' S'
          \<and> becomes s S s' (S' \<union> L) \<and> (harmless e \<longrightarrow> L = {})" by (auto simp: run_simps)
qed

interpretation setting_text: file_member "\<lambda>n. box_step mem fs n (Set_text data)"
    "file_step mem fs (Set_text data)" "set_text_fuel mem data"
  for mem fs data
  by unfold_locales (unfold file_step.simps box_step.simps, rule set_text_sim)

lemma box_step_simulates: "\<exists>N. \<forall>n \<ge> N. simulates (box_step mem fs n c) harmless fd (file_step mem fs c fd)"
proof (cases c)
  case (Import_string x)
  show ?thesis unfolding Import_string using importing_string.step by blast
next
  case (Import_file x)
  show ?thesis unfolding Import_file using importing_file.step by blast
next
  case (Import_stdin x)
  show ?thesis unfolding Import_stdin using importing_stdin.step by blast
next
  case Clear_file
  show ?thesis unfolding Clear_file using clearing.step by blast
next
  case (Set_path x)
  show ?thesis unfolding Set_path using setting_path.step by blast
next
  case (Set_text x)
  show ?thesis unfolding Set_text using setting_text.step by blast
qed

section \<open>Runs of programs\<close>

lemma simulatesD:
  "simulates act ok fd None \<Longrightarrow> holds_file s b fd S \<Longrightarrow> store_ok s \<Longrightarrow> act b s = Inl Freed"
  "simulates act ok fd (Some (e, fd')) \<Longrightarrow> holds_file s b fd S \<Longrightarrow> store_ok s \<Longrightarrow>
     \<exists>b' s' S'. act b s = Inr ((e, b'), s') \<and> holds_file s' b' fd' S' \<and> store_ok s'
       \<and> (dom (cells s) = S \<longrightarrow> ok e \<longrightarrow> dom (cells s') = S')"
  unfolding simulates_def by fastforce+

lemma box_run_simulates:
  "\<exists>N. \<forall>n \<ge> N. simulates (box_run mem fs n cs) (list_all harmless) fd (file_run mem fs cs fd)"
proof (induction cs arbitrary: fd)
  case Nil
  show ?case by (auto simp: simulates_def run_simps)
next
  case (Cons c cs)
  obtain N1 where 1: "\<And>n. n \<ge> N1 \<Longrightarrow> simulates (box_step mem fs n c) harmless fd (file_step mem fs c fd)"
    using box_step_simulates by blast
  show ?case
  proof (cases "file_step mem fs c fd")
    case None
    have "simulates (box_run mem fs n (c # cs)) (list_all harmless) fd (file_run mem fs (c # cs) fd)" if "n \<ge> N1" for n
      using 1 [OF that] None by (auto simp: simulates_def run_simps)
    then show ?thesis by blast
  next
    case (Some res)
    obtain e fd1 where res: "res = (e, fd1)" by force
    obtain N2 where 2: "\<And>n. n \<ge> N2 \<Longrightarrow> simulates (box_run mem fs n cs) (list_all harmless) fd1 (file_run mem fs cs fd1)"
      using Cons.IH by blast
    have "simulates (box_run mem fs n (c # cs)) (list_all harmless) fd (file_run mem fs (c # cs) fd)"
      if n: "n \<ge> max N1 N2" for n
      unfolding simulates_def
    proof (intro allI impI)
      fix s b S assume h: "holds_file s b fd S" "store_ok s"
      obtain b1 s1 S1 where a: "box_step mem fs n c b s = Inr ((e, b1), s1)" "holds_file s1 b1 fd1 S1" "store_ok s1"
        "dom (cells s) = S \<longrightarrow> harmless e \<longrightarrow> dom (cells s1) = S1"
        using simulatesD(2) [OF _ h] 1 [of n] n Some res by (metis max.bounded_iff)
      have rest: "simulates (box_run mem fs n cs) (list_all harmless) fd1 (file_run mem fs cs fd1)" using 2 n by simp
      show "case file_run mem fs (c # cs) fd of None \<Rightarrow> box_run mem fs n (c # cs) b s = Inl Freed
        | Some (es, fd') \<Rightarrow> \<exists>b' s' S'. box_run mem fs n (c # cs) b s = Inr ((es, b'), s') \<and> holds_file s' b' fd' S' \<and> store_ok s'
            \<and> (dom (cells s) = S \<longrightarrow> list_all harmless es \<longrightarrow> dom (cells s') = S')"
      proof (cases "file_run mem fs cs fd1")
        case None
        then have "box_run mem fs n cs b1 s1 = Inl Freed" using simulatesD(1) [OF _ a(2,3)] rest by metis
        then show ?thesis using a(1) None Some res by (simp add: run_simps)
      next
        case (Some q)
        obtain es fd2 where q: "q = (es, fd2)" by force
        then obtain b2 s2 S2 where "box_run mem fs n cs b1 s1 = Inr ((es, b2), s2)" "holds_file s2 b2 fd2 S2" "store_ok s2"
          "dom (cells s1) = S1 \<longrightarrow> list_all harmless es \<longrightarrow> dom (cells s2) = S2"
          using simulatesD(2) [OF _ a(2,3)] rest Some by metis
        then show ?thesis using a Some q \<open>file_step mem fs c fd = Some res\<close> res
          by (auto simp: run_simps intro!: exI [of _ b2] exI [of _ s2] exI [of _ S2])
      qed
    qed
    then show ?thesis by blast
  qed
qed

lemma holds_new_file:
  "new_filebox path empty_store =
     Inr (\<lparr>box_path = path, box_data = [], box_chunk = Some 0\<rparr>, alloc (Obj None 0 None) empty_store)"
  "holds_file (alloc (Obj None 0 None) empty_store) \<lparr>box_path = path, box_data = [], box_chunk = Some 0\<rparr> (new_filedat path) {0}"
  "store_ok (alloc (Obj None 0 None) empty_store)" "dom (cells (alloc (Obj None 0 None) empty_store)) = {0}"
  by (auto simp: new_filebox_def run_simps empty_store_def holds_file_def new_filedat_def new_chunkdat_def store_ok_def
      split: if_splits)

section \<open>Properties\<close>

text \<open>C17: A program that constructs a file object, calls its members and destroys it does on the
  store what it does without one: the same exceptions, the same path, text and object. The
  destructor then runs without a fault, and unless an import or a constructor from text failed
  on its text, nothing stays allocated.\<close>

theorem file_sessions:
  assumes "file_run mem fs cs (new_filedat path) = Some (es, fd)"
  shows "\<exists>N. \<forall>n \<ge> N. \<exists>b s S t. bindM (new_filebox path) (box_run mem fs n cs) empty_store = Inr ((es, b), s)
    \<and> holds_file s b fd S \<and> destroy_filebox n b s = Inr ((), t)
    \<and> (list_all harmless es \<longrightarrow> cells t = (\<lambda>_. None))"
proof -
  obtain N where N: "\<And>n. n \<ge> N \<Longrightarrow> simulates (box_run mem fs n cs) (list_all harmless) (new_filedat path) (Some (es, fd))"
    using box_run_simulates [of mem fs cs "new_filedat path"] assms by auto
  have "\<exists>b s S t. bindM (new_filebox path) (box_run mem fs n cs) empty_store = Inr ((es, b), s)
    \<and> holds_file s b fd S \<and> destroy_filebox n b s = Inr ((), t) \<and> (list_all harmless es \<longrightarrow> cells t = (\<lambda>_. None))"
    if n: "n \<ge> max N (file_depth fd)" for n
  proof -
    have "N \<le> n" using n by simp
    from simulatesD(2) [OF N [OF this] holds_new_file(2,3)] obtain b s S where
      r: "box_run mem fs n cs \<lparr>box_path = path, box_data = [], box_chunk = Some 0\<rparr> (alloc (Obj None 0 None) empty_store) = Inr ((es, b), s)"
      "holds_file s b fd S" "store_ok s" "list_all harmless es \<longrightarrow> dom (cells s) = S"
      using holds_new_file(4) by blast
    obtain t where t: "delete_chunk n b s = Inr ((), t)" "becomes s S t {}"
      using delete_chunk_run [OF r(2,3)] n by auto
    have "cells t = (\<lambda>_. None)" if "dom (cells s) = S"
      using t(2) that by (auto simp: becomes_def fun_eq_iff)
    then show ?thesis using r t(1) holds_new_file(1) [of path]
      by (intro exI [of _ b] exI [of _ s] exI [of _ S] exI [of _ t]) (simp add: run_simps destroy_filebox_def)
  qed
  then show ?thesis by blast
qed

theorem file_sessions_witness:
  "\<exists>n b s S t. bindM (new_filebox ''f'') (box_run (\<lambda>_. ''x'') [''g'' \<mapsto> ''{a=b}''] n
      [Import_file ''f'', Import_string ''[a]'', Set_text ''x'', Import_string ''{a=b}'', Clear_file]) empty_store =
      Inr (([Some (Runtime_error (''Cannot read file '' @ [squote] @ ''f'' @ [squote])), None, None, None, None], b), s)
    \<and> destroy_filebox n b s = Inr ((), t) \<and> cells t = (\<lambda>_. None)"
proof -
  have "\<exists>fd. file_run (\<lambda>_. ''x'') [''g'' \<mapsto> ''{a=b}'']
      [Import_file ''f'', Import_string ''[a]'', Set_text ''x'', Import_string ''{a=b}'', Clear_file] (new_filedat ''f'') =
    Some ([Some (Runtime_error (''Cannot read file '' @ [squote] @ ''f'' @ [squote])), None, None, None, None], fd)"
    by (rule exI, code_simp)
  then obtain fd where "file_run (\<lambda>_. ''x'') [''g'' \<mapsto> ''{a=b}'']
      [Import_file ''f'', Import_string ''[a]'', Set_text ''x'', Import_string ''{a=b}'', Clear_file] (new_filedat ''f'') =
    Some ([Some (Runtime_error (''Cannot read file '' @ [squote] @ ''f'' @ [squote])), None, None, None, None], fd)"
    by blast
  from file_sessions [OF this] show ?thesis by fastforce
qed

text \<open>After a failed import the pointer is null, clearing the file keeps it so, and giving the
  file new data then reads through it.\<close>

theorem failed_import_faults:
  assumes "fst (generateChunk mem fd) \<noteq> None" "snd (generateChunk mem fd) = fd'"
    and "set_str mem data 0 None = (None, c)" and "holds_file s b fd' S" "store_ok s"
  shows "\<exists>N. \<forall>n \<ge> N. box_run mem fs n [Clear_file, Set_text data] b s = Inl Freed"
proof -
  have null: "m_dataChunk fd' = None" using assms(1,2) generateChunk_exn [of mem fd] by auto
  have "file_run mem fs [Clear_file, Set_text data] fd' = None"
    using null assms(3) by (simp add: clear_filedat_def set_text_def chunkdat_of_string_def from_set_def)
  with box_run_simulates [of mem fs "[Clear_file, Set_text data]" fd'] simulatesD(1) [OF _ assms(4,5)]
  show ?thesis by metis
qed

theorem failed_import_faults_witness:
  "\<exists>n. box_run (\<lambda>_. ''x'') (\<lambda>_. None) n [Clear_file, Set_text ''a''] \<lparr>box_path = [], box_data = ''{'', box_chunk = None\<rparr>
    empty_store = Inl Freed"
proof -
  have e: "fst (generateChunk (\<lambda>_. ''x'') \<lparr>m_filePath = [], m_data = ''{'', m_dataChunk = None\<rparr>) \<noteq> None"
    and d: "snd (generateChunk (\<lambda>_. ''x'') \<lparr>m_filePath = [], m_data = ''{'', m_dataChunk = None\<rparr>) =
      \<lparr>m_filePath = [], m_data = ''{'', m_dataChunk = None\<rparr>"
    and c: "set_str (\<lambda>_. ''x'') ''a'' 0 None = (None, Chunkdat None 0 (Some (Chunk_string ''a'')))"
    by code_simp+
  have "holds_file empty_store \<lparr>box_path = [], box_data = ''{'', box_chunk = None\<rparr>
      \<lparr>m_filePath = [], m_data = ''{'', m_dataChunk = None\<rparr> {}" "store_ok empty_store"
    by (simp_all add: holds_file_def store_ok_def empty_store_def)
  from failed_import_faults [OF e d c this] show ?thesis by blast
qed

end
