(* ===== verification/Options.thy ===== *)
theory Options
  imports Prelude
begin

text \<open>
  Command line options (src/src/options.cpp, src/include/options.hpp): the option
  objects, the search by name, \<open>option_set::process\<close> and the help text. A pointer into
  \<open>option_vec\<close> is an index; an exception \<open>option_error\<close> is returned beside the set as the
  throwing call leaves it.
\<close>

section \<open>Data\<close>

datatype error_type = Unknown_option | Takes_no_arg | Missing_arg

datatype option_error = Option_error (errtype: error_type) (subject: string)

fun option_error_msg :: "option_error \<Rightarrow> string" where
  "option_error_msg (Option_error Unknown_option opt) = ''Unknown option: '' @ opt"
| "option_error_msg (Option_error Takes_no_arg opt) =
     ''Option '' @ opt @ '' doesn'' @ [squote] @ ''t take an argument''"
| "option_error_msg (Option_error Missing_arg opt) = ''Option '' @ opt @ '' needs an argument''"

record opt =
  shortDef :: bool
  charName :: char
  longDef :: bool
  strName :: string
  takesArgument :: bool
  help_text :: string
  arg_name :: string
  activated :: bool
  argument :: string

definition new_option :: opt where
  "new_option = \<lparr>shortDef = False, charName = nul, longDef = False, strName = [],
     takesArgument = False, help_text = [], arg_name = [], activated = False, argument = []\<rparr>"

definition option_char :: "char \<Rightarrow> bool \<Rightarrow> string \<Rightarrow> string \<Rightarrow> opt" where
  "option_char c arg helptext argname = \<lparr>shortDef = True, charName = c, longDef = False,
     strName = [], takesArgument = arg, help_text = helptext, arg_name = argname,
     activated = False, argument = []\<rparr>"

definition option_string :: "string \<Rightarrow> bool \<Rightarrow> string \<Rightarrow> string \<Rightarrow> opt" where
  "option_string str arg helptext argname = \<lparr>shortDef = False, charName = nul, longDef = True,
     strName = str, takesArgument = arg, help_text = helptext, arg_name = argname,
     activated = False, argument = []\<rparr>"

definition option_both :: "char \<Rightarrow> string \<Rightarrow> bool \<Rightarrow> string \<Rightarrow> string \<Rightarrow> opt" where
  "option_both c str arg helptext argname = \<lparr>shortDef = True, charName = c, longDef = True,
     strName = str, takesArgument = arg, help_text = helptext, arg_name = argname,
     activated = False, argument = []\<rparr>"

definition copy_option :: "opt \<Rightarrow> opt" where
  "copy_option o' = \<lparr>shortDef = shortDef o', charName = charName o', longDef = longDef o',
     strName = strName o', takesArgument = takesArgument o', help_text = help_text o',
     arg_name = arg_name o', activated = activated o', argument = argument o'\<rparr>"

record option_set =
  option_vec :: "opt list"
  option_sequence :: "opt list"

record process_arguments =
  ignore_numbers :: bool
  stop_on_argument :: bool
  ignore_unknown :: bool
  stop_on_doubledash :: bool
  output_doubledash :: bool

definition default_process_args :: process_arguments where
  "default_process_args = \<lparr>ignore_numbers = False, stop_on_argument = False,
     ignore_unknown = False, stop_on_doubledash = True, output_doubledash = False\<rparr>"

definition add_options :: "opt list \<Rightarrow> option_set \<Rightarrow> option_set" where
  "add_options opts s = s\<lparr>option_vec := option_vec s @ map copy_option opts\<rparr>"

definition argVector :: "nat \<Rightarrow> string list \<Rightarrow> string list" where
  "argVector argc argv = map cstr (drop 1 (take argc argv))"

section \<open>Finding an option\<close>

fun find_from :: "(opt \<Rightarrow> bool) \<Rightarrow> opt list \<Rightarrow> nat option" where
  "find_from P [] = None"
| "find_from P (x # xs) = (if P x then Some 0 else map_option Suc (find_from P xs))"

definition find_char :: "char \<Rightarrow> option_set \<Rightarrow> nat option" where
  "find_char c s = find_from (\<lambda>o'. shortDef o' \<and> charName o' = c) (option_vec s)"

definition find_string :: "string \<Rightarrow> option_set \<Rightarrow> nat option" where
  "find_string str s = find_from (\<lambda>o'. longDef o' \<and> strName o' = str) (option_vec s)"

text \<open>The subscript operators dereference what they find without a test.\<close>

definition at_char :: "char \<Rightarrow> option_set \<Rightarrow> exn + opt" where
  "at_char c s = (case find_char c s of None \<Rightarrow> Inl Undefined | Some i \<Rightarrow> Inr (option_vec s ! i))"

definition at_string :: "string \<Rightarrow> option_set \<Rightarrow> exn + opt" where
  "at_string str s = (case find_string str s of None \<Rightarrow> Inl Undefined | Some i \<Rightarrow> Inr (option_vec s ! i))"

definition at_index :: "nat \<Rightarrow> option_set \<Rightarrow> exn + opt" where
  "at_index n s = (if n < length (option_sequence s) then Inr (option_sequence s ! n) else Inl Undefined)"

section \<open>Processing\<close>

text \<open>
  \<open>popt->activated = true\<close>, the argument when there is one, and the copy appended to
  \<open>option_sequence\<close>.
\<close>

definition activate :: "nat \<Rightarrow> string option \<Rightarrow> option_set \<Rightarrow> option_set" where
  "activate i arg s =
     (let o' = option_vec s ! i;
          o' = o'\<lparr>activated := True, argument := (case arg of None \<Rightarrow> argument o' | Some a \<Rightarrow> a)\<rparr>
      in s\<lparr>option_vec := (option_vec s)[i := o'], option_sequence := option_sequence s @ [copy_option o']\<rparr>)"

text \<open>
  The characters of one \<open>-abc\<close> argument (lines 235-280): \<open>ropt\<close> collects the ignored ones;
  the result is \<open>ropt\<close> and the arguments not consumed.
\<close>

fun short_loop :: "process_arguments \<Rightarrow> string \<Rightarrow> string \<Rightarrow> string list \<Rightarrow> option_set
    \<Rightarrow> (option_error + string \<times> string list) \<times> option_set" where
  "short_loop behavior [] ropt rest s = (Inr (ropt, rest), s)"
| "short_loop behavior (c # cs) ropt rest s =
     (case find_char c s of
        None \<Rightarrow>
          (if \<not> ignore_unknown behavior then (Inl (Option_error Unknown_option [CHR ''-'', c]), s)
           else short_loop behavior cs (ropt @ [c]) rest s)
      | Some i \<Rightarrow>
          (if takesArgument (option_vec s ! i) then
             (if cs = [] then
                (case rest of
                   [] \<Rightarrow> (Inl (Option_error Missing_arg [CHR ''-'', charName (option_vec s ! i)]), s)
                 | a # rest' \<Rightarrow> (Inr (ropt, rest'), activate i (Some a) s))
              else (Inr (ropt, rest), activate i (Some (if hd cs = CHR ''='' then tl cs else cs)) s))
           else short_loop behavior cs ropt rest (activate i None s)))"

lemma short_loop_rest:
  "short_loop behavior cs ropt rest s = (Inr (r, rest'), s') \<Longrightarrow> length rest' \<le> length rest"
  by (induction behavior cs ropt rest s rule: short_loop.induct)
    (auto split: option.splits if_splits list.splits)

text \<open>One \<open>--name\<close> or \<open>--name=value\<close> argument (lines 174-219).\<close>

definition long_option :: "process_arguments \<Rightarrow> string \<Rightarrow> string list \<Rightarrow> string list \<Rightarrow> option_set
    \<Rightarrow> (option_error + string list \<times> string list) \<times> option_set" where
  "long_option behavior arg rest out s =
     (case string_find CHR ''='' arg of
        None \<Rightarrow>
          (case find_string (drop 2 arg) s of
             None \<Rightarrow>
               (if \<not> ignore_unknown behavior
                then (Inl (Option_error Unknown_option (''--'' @ drop 2 arg)), s)
                else (Inr (out @ [arg], rest), s))
           | Some i \<Rightarrow>
               (if takesArgument (option_vec s ! i) then
                  (case rest of
                     [] \<Rightarrow> (Inl (Option_error Missing_arg (''--'' @ strName (option_vec s ! i))), s)
                   | a # rest' \<Rightarrow> (Inr (out, rest'), activate i (Some a) s))
                else (Inr (out, rest), activate i None s)))
      | Some eqn \<Rightarrow>
          (let name = take (eqn - 2) (drop 2 arg) in
           case find_string name s of
             None \<Rightarrow>
               (if \<not> ignore_unknown behavior
                then (Inl (Option_error Unknown_option (''--'' @ name)), s)
                else (Inr (out @ [arg], rest), s))
           | Some i \<Rightarrow>
               (if \<not> takesArgument (option_vec s ! i)
                then (Inl (Option_error Takes_no_arg (''--'' @ strName (option_vec s ! i))), s)
                else (Inr (out, rest), activate i (Some (drop (eqn + 1) arg)) s))))"

lemma long_option_rest:
  "long_option behavior arg rest out s = (Inr (out', rest'), s') \<Longrightarrow> length rest' \<le> length rest"
  by (auto simp: long_option_def Let_def split: option.splits if_splits list.splits)

definition is_long :: "string \<Rightarrow> bool" where
  "is_long arg \<longleftrightarrow> 2 < length arg \<and> take 2 arg = ''--''"

definition is_short :: "string \<Rightarrow> bool" where
  "is_short arg \<longleftrightarrow> 1 < length arg \<and> arg ! 0 = CHR ''-'' \<and> arg ! 1 \<noteq> CHR ''-''"

definition is_digit :: "char \<Rightarrow> bool" where
  "is_digit c \<longleftrightarrow> schar CHR ''0'' \<le> schar c \<and> schar c \<le> schar CHR ''9''"

function process_loop :: "process_arguments \<Rightarrow> string list \<Rightarrow> string list \<Rightarrow> option_set
    \<Rightarrow> (option_error + string list) \<times> option_set" where
  "process_loop behavior [] out s = (Inr out, s)"
| "process_loop behavior (arg # rest) out s =
     (if is_long arg then
        (case long_option behavior arg rest out s of
           (Inl e, s') \<Rightarrow> (Inl e, s')
         | (Inr (out', rest'), s') \<Rightarrow> process_loop behavior rest' out' s')
      else if is_short arg then
        (if ignore_numbers behavior \<and> is_digit (arg ! 1) then
           (if stop_on_argument behavior then (Inr (arg # rest), s)
            else process_loop behavior rest (out @ [arg]) s)
         else
           (case short_loop behavior (drop 1 arg) [] rest s of
              (Inl e, s') \<Rightarrow> (Inl e, s')
            | (Inr (ropt, rest'), s') \<Rightarrow>
                process_loop behavior rest' (if ropt \<noteq> [] then out @ [CHR ''-'' # ropt] else out) s'))
      else if stop_on_argument behavior then (Inr (arg # rest), s)
      else if stop_on_doubledash behavior \<and> arg = ''--'' then
        (Inr (if output_doubledash behavior then out @ rest else out), s)
      else process_loop behavior rest (out @ [arg]) s)"
  by pat_completeness auto
termination
  by (relation "measure (\<lambda>(behavior, args, out, s). length args)")
    (auto dest: sym [of "(_, _)"] simp: less_Suc_eq_le intro: long_option_rest short_loop_rest)

definition process :: "string list \<Rightarrow> process_arguments \<Rightarrow> option_set
    \<Rightarrow> (option_error + string list) \<times> option_set" where
  "process arguments behavior s = process_loop behavior arguments [] (s\<lparr>option_sequence := []\<rparr>)"

definition process_main :: "nat \<Rightarrow> string list \<Rightarrow> process_arguments \<Rightarrow> option_set
    \<Rightarrow> (option_error + string list) \<times> option_set" where
  "process_main argc argv behavior s = process (argVector argc argv) behavior s"

section \<open>Help text\<close>

text \<open>\<open>printf\<close> of an empty string to a width: its absolute value in blanks, left or right.\<close>

definition pad :: "int \<Rightarrow> string" where
  "pad w = replicate (nat \<bar>w\<bar>) CHR '' ''"

definition print_help :: "int \<Rightarrow> int \<Rightarrow> opt \<Rightarrow> string" where
  "print_help leftpad rightpad o' =
     (let short = (if shortDef o' then [CHR ''-'', charName o', CHR '' ''] else []);
          rightpad = (if shortDef o' then rightpad - 3 else rightpad);
          long = (if longDef o' then ''--'' @ cstr (strName o') @ '' '' else []);
          rightpad = (if longDef o' then rightpad - (3 + int (length (strName o'))) else rightpad);
          arg = (if takesArgument o' then ''<'' @ cstr (arg_name o') @ ''>'' else []);
          rightpad = (if takesArgument o' then rightpad - (int (length (arg_name o')) + 2) else rightpad)
      in pad (- leftpad) @ short @ long @ arg @ pad (- rightpad) @ cstr (help_text o') @ [newline])"

definition print_help_set :: "int \<Rightarrow> int \<Rightarrow> option_set \<Rightarrow> string" where
  "print_help_set leftpad rightpad s =
     concat (map (\<lambda>o'. print_help leftpad rightpad (copy_option o')) (option_vec s))"

end
