(* ===== verification/Options_Laws.thy ===== *)
theory Options_Laws
  imports Options "HOL-Library.Sublist"
begin

text \<open>
  Facts about option processing. What a run of \<open>process\<close> keeps of the option set is proved
  once, in the locale \<open>activation_invariant\<close>: a predicate kept by every activation is kept
  by the whole run. Its interpretations are the frame of the definitions and the log of
  activations.
\<close>

section \<open>Finding\<close>

lemma find_from_None: "find_from P xs = None \<longleftrightarrow> (\<forall>x \<in> set xs. \<not> P x)"
  by (induction xs) auto

lemma find_from_Some: "find_from P xs = Some i \<longleftrightarrow> i < length xs \<and> P (xs ! i) \<and> (\<forall>j < i. \<not> P (xs ! j))"
proof (induction xs arbitrary: i)
  case (Cons x xs)
  show ?case
    by (cases i) (auto simp: Cons.IH less_Suc_eq_0_disj nth_Cons split: nat.splits)
qed simp

lemma find_bound:
  "find_char c s = Some i \<Longrightarrow> i < length (option_vec s)"
  "find_string str s = Some i \<Longrightarrow> i < length (option_vec s)"
  by (simp_all add: find_char_def find_string_def find_from_Some)

lemma copy_option_id [simp]: "copy_option o' = o'"
  by (simp add: copy_option_def)

section \<open>What a run keeps\<close>

lemma activate_simps [simp]:
  "length (option_vec (activate i arg s)) = length (option_vec s)"
  "option_sequence (activate i arg s) = option_sequence s @
     [(option_vec s ! i)\<lparr>activated := True,
        argument := (case arg of None \<Rightarrow> argument (option_vec s ! i) | Some a \<Rightarrow> a)\<rparr>]"
  by (simp_all add: activate_def Let_def)

locale activation_invariant =
  fixes I :: "option_set \<Rightarrow> bool"
  assumes keeps: "I s \<Longrightarrow> i < length (option_vec s) \<Longrightarrow> (arg \<noteq> None \<longleftrightarrow> takesArgument (option_vec s ! i)) \<Longrightarrow>
    I (activate i arg s)"
begin

lemma short_keeps: "I s \<Longrightarrow> I (snd (short_loop behavior cs ropt rest s))"
proof (induction behavior cs ropt rest s rule: short_loop.induct)
  case (2 behavior c cs ropt rest s)
  show ?case
  proof (cases "find_char c s")
    case None
    with 2 show ?thesis by simp
  next
    case (Some i)
    note i = find_bound(1) [OF Some]
    show ?thesis
    proof (cases "takesArgument (option_vec s ! i)")
      case True
      then have "I (activate i (Some a) s)" for a using keeps [OF "2.prems" i, of "Some a"] by simp
      with Some True "2.prems" show ?thesis by (simp split: list.split)
    next
      case False
      then have "I (activate i None s)" using keeps [OF "2.prems" i, of None] by simp
      with Some False "2.IH" show ?thesis by simp
    qed
  qed
qed simp

lemma long_keeps: "I s \<Longrightarrow> I (snd (long_option behavior arg rest out s))"
proof -
  assume I: "I s"
  have "I (activate i (Some a) s)" if "find_string n s = Some i" "takesArgument (option_vec s ! i)" for n i a
    using keeps [OF I find_bound(2) [OF that(1)], of "Some a"] that(2) by simp
  moreover have "I (activate i None s)" if "find_string n s = Some i" "\<not> takesArgument (option_vec s ! i)" for n i
    using keeps [OF I find_bound(2) [OF that(1)], of None] that(2) by simp
  ultimately show ?thesis
    using I by (simp add: long_option_def Let_def split: option.split list.split)
qed

lemma run_keeps: "I s \<Longrightarrow> I (snd (process_loop behavior args out s))"
proof (induction args arbitrary: out s rule: length_induct)
  case (1 args)
  show ?case
  proof (cases args)
    case (Cons arg rest)
    have IH: "I (snd (process_loop behavior args' out' s'))" if "I s'" "length args' \<le> length rest" for args' out' s'
      using "1.IH" that Cons by (simp add: less_Suc_eq_le)
    obtain l sl where l: "long_option behavior arg rest out s = (l, sl)" by force
    obtain h sh where h: "short_loop behavior (drop 1 arg) [] rest s = (h, sh)" by force
    have long: "I (snd (case (l, sl) of (Inl e, s') \<Rightarrow> (Inl e, s')
        | (Inr (out', rest'), s') \<Rightarrow> process_loop behavior rest' out' s'))"
      using long_keeps [OF "1.prems", of behavior arg rest out] l IH long_option_rest
      by (fastforce split: sum.splits)
    have short: "I (snd (case (h, sh) of (Inl e, s') \<Rightarrow> (Inl e, s')
        | (Inr (ropt, rest'), s') \<Rightarrow>
            process_loop behavior rest' (if ropt \<noteq> [] then out @ [CHR ''-'' # ropt] else out) s'))"
      using short_keeps [OF "1.prems", of behavior "drop 1 arg" "[]" rest] h IH short_loop_rest
      by (fastforce split: sum.splits)
    show ?thesis
      unfolding Cons process_loop.simps l h
      using long short IH "1.prems" by simp
  qed (use "1.prems" in simp)
qed

end

text \<open>The definition of an option: what processing never touches.\<close>

definition undef :: "opt \<Rightarrow> opt" where
  "undef o' = o'\<lparr>activated := False, argument := []\<rparr>"

interpretation frame: activation_invariant "\<lambda>s. map undef (option_vec s) = ds"
  by unfold_locales
    (auto simp: activate_def Let_def map_update undef_def list_update_same_conv intro!: nth_equalityI
      simp: nth_list_update)

text \<open>
  Every option is as it was or as the log last shows it, and the log holds activated
  options of the set only; an option without argument keeps the one it had.
\<close>

definition logged :: "opt list \<Rightarrow> option_set \<Rightarrow> bool" where
  "logged vec0 s \<longleftrightarrow> length (option_vec s) = length vec0
     \<and> (\<forall>i < length vec0. undef (option_vec s ! i) = undef (vec0 ! i)
          \<and> (option_vec s ! i = vec0 ! i \<or> option_vec s ! i \<in> set (option_sequence s))
          \<and> (\<not> takesArgument (vec0 ! i) \<longrightarrow> argument (option_vec s ! i) = argument (vec0 ! i)))
     \<and> (\<forall>e \<in> set (option_sequence s). activated e \<and> undef e \<in> undef ` set vec0)"

lemma undef_update [simp]: "undef (o'\<lparr>activated := b, argument := a\<rparr>) = undef o'"
  by (simp add: undef_def)

lemma undef_takes: "undef a = undef b \<Longrightarrow> takesArgument a = takesArgument b"
  by (cases a, cases b) (simp add: undef_def)

interpretation log: activation_invariant "logged vec0"
proof
  fix s i and arg :: "string option"
  assume I: "logged vec0 s" and i: "i < length (option_vec s)"
    and arg: "arg \<noteq> None \<longleftrightarrow> takesArgument (option_vec s ! i)"
  have "undef (option_vec s ! i) \<in> undef ` set vec0" "takesArgument (option_vec s ! i) = takesArgument (vec0 ! i)"
    using I i by (auto simp: logged_def dest: undef_takes)
  then show "logged vec0 (activate i arg s)"
    using I i arg by (auto simp: logged_def activate_def Let_def nth_list_update split: option.splits)
qed

declare process_loop.simps(2) [simp del]

section \<open>Spellings of an option\<close>

lemma is_long_name: "name \<noteq> [] \<Longrightarrow> is_long (CHR ''-'' # CHR ''-'' # name)"
  by (cases name) (simp_all add: is_long_def numeral_2_eq_2)

lemma is_short_simps [simp]:
  "is_short (CHR ''-'' # c # cs) \<longleftrightarrow> c \<noteq> CHR ''-''"
  "c \<noteq> CHR ''-'' \<Longrightarrow> \<not> is_long (CHR ''-'' # c # cs)"
  by (auto simp: is_short_def is_long_def numeral_2_eq_2)

lemma long_equals:
  assumes "find_string name s = Some i" "takesArgument (option_vec s ! i)"
    and "name \<noteq> []" "CHR ''='' \<notin> set name"
  shows "process_loop b ((CHR ''-'' # CHR ''-'' # name @ CHR ''='' # v) # rest) out s =
    process_loop b ((CHR ''-'' # CHR ''-'' # name) # v # rest) out s"
proof -
  have "is_long (CHR ''-'' # CHR ''-'' # name @ CHR ''='' # v)" using is_long_name assms(3) by simp
  moreover have "is_long (CHR ''-'' # CHR ''-'' # name)" using is_long_name assms(3) .
  ultimately show ?thesis using assms by (simp add: process_loop.simps long_option_def Let_def)
qed

definition short_name :: "process_arguments \<Rightarrow> char \<Rightarrow> bool" where
  "short_name b c \<longleftrightarrow> c \<noteq> CHR ''-'' \<and> \<not> (ignore_numbers b \<and> is_digit c)"

lemma short_step:
  "short_name b c \<Longrightarrow> process_loop b ((CHR ''-'' # c # cs) # rest) out s =
     (case short_loop b (c # cs) [] rest s of
        (Inl e, s') \<Rightarrow> (Inl e, s')
      | (Inr (ropt, rest'), s') \<Rightarrow>
          process_loop b rest' (if ropt \<noteq> [] then out @ [CHR ''-'' # ropt] else out) s')"
  by (auto simp: process_loop.simps(2) short_name_def simp del: short_loop.simps)

lemma short_attached:
  assumes "find_char c s = Some i" "takesArgument (option_vec s ! i)" "short_name b c"
  shows "v \<noteq> [] \<Longrightarrow> hd v \<noteq> CHR ''='' \<Longrightarrow> process_loop b ((CHR ''-'' # c # v) # rest) out s =
      process_loop b ([CHR ''-'', c] # v # rest) out s"
    and "process_loop b ((CHR ''-'' # c # CHR ''='' # v) # rest) out s =
      process_loop b ([CHR ''-'', c] # v # rest) out s"
  using assms by (simp_all add: short_step)

lemma find_char_activate:
  assumes "i < length (option_vec s)"
  shows "find_char c (activate i arg s) = find_char c s"
proof -
  have "find_from P (xs[i := y]) = find_from P xs" if "i < length xs" "P y = P (xs ! i)" for P xs and y :: opt
    using that by (induction xs arbitrary: i) (auto split: nat.split)
  with assms show ?thesis by (auto simp: find_char_def activate_def Let_def)
qed

lemma short_cluster:
  assumes "find_char c s = Some i" "\<not> takesArgument (option_vec s ! i)" "short_name b c"
    and "cs \<noteq> []" "short_name b (hd cs)"
  shows "process_loop b ((CHR ''-'' # c # cs) # rest) out s =
    process_loop b ([CHR ''-'', c] # (CHR ''-'' # cs) # rest) out s"
proof -
  obtain d ds where cs: "cs = d # ds" using assms(4) by (cases cs) auto
  have "process_loop b ((CHR ''-'' # d # ds) # rest) out (activate i None s) =
     (case short_loop b (d # ds) [] rest (activate i None s) of
        (Inl e, s') \<Rightarrow> (Inl e, s')
      | (Inr (ropt, rest'), s') \<Rightarrow>
          process_loop b rest' (if ropt \<noteq> [] then out @ [CHR ''-'' # ropt] else out) s')"
    using assms(5) cs by (intro short_step) simp
  moreover have "process_loop b ([CHR ''-'', c] # (CHR ''-'' # cs) # rest) out s =
      process_loop b ((CHR ''-'' # cs) # rest) out (activate i None s)"
    using assms(1-3) by (simp add: short_step)
  moreover have "short_loop b (c # cs) [] rest s = short_loop b cs [] rest (activate i None s)"
    using assms(1,2) by simp
  ultimately show ?thesis using short_step [OF assms(3), of cs rest out s] cs
    by (simp del: short_loop.simps)
qed

section \<open>Arguments that are not options\<close>

definition operand :: "process_arguments \<Rightarrow> string \<Rightarrow> bool" where
  "operand b arg \<longleftrightarrow> \<not> is_long arg \<and> (is_short arg \<longrightarrow> ignore_numbers b \<and> is_digit (arg ! 1))
     \<and> (arg = ''--'' \<longrightarrow> \<not> stop_on_doubledash b)"

lemma process_operands:
  "\<not> stop_on_argument b \<Longrightarrow> \<forall>x \<in> set xs. operand b x \<Longrightarrow>
     process_loop b (xs @ ys) out s = process_loop b ys (out @ xs) s"
  by (induction xs arbitrary: out) (auto simp: operand_def process_loop.simps(2))

lemma process_doubledash:
  "stop_on_doubledash b \<Longrightarrow> \<not> stop_on_argument b \<Longrightarrow>
     process_loop b (''--'' # rest) out s = (Inr (if output_doubledash b then out @ rest else out), s)"
  by (simp add: process_loop.simps(2) is_long_def is_short_def)

section \<open>Errors and leftovers\<close>

lemma short_unknown:
  "fst (short_loop b cs ropt rest s) = Inl e \<Longrightarrow> ignore_unknown b \<Longrightarrow>
     errtype e = Missing_arg \<and> rest = []"
  by (induction b cs ropt rest s rule: short_loop.induct) (auto split: option.splits if_splits list.splits)

lemma long_unknown:
  "fst (long_option b arg rest out s) = Inl e \<Longrightarrow> ignore_unknown b \<Longrightarrow>
     errtype e = Takes_no_arg \<or> errtype e = Missing_arg \<and> rest = []"
  by (auto simp: long_option_def Let_def split: option.splits if_splits list.splits)

lemma short_leftover:
  "\<not> ignore_unknown b \<Longrightarrow> short_loop b cs ropt rest s = (Inr (r, rest'), s') \<Longrightarrow>
     r = ropt \<and> suffix rest' rest"
  by (induction b cs ropt rest s rule: short_loop.induct)
    (auto split: option.splits if_splits list.splits simp: suffix_ConsI)

lemma long_leftover:
  "\<not> ignore_unknown b \<Longrightarrow> long_option b arg rest out s = (Inr (out', rest'), s') \<Longrightarrow>
     out' = out \<and> suffix rest' rest"
  by (auto simp: long_option_def Let_def suffix_ConsI split: option.splits if_splits list.splits)

lemma process_error:
  "ignore_unknown b \<Longrightarrow> fst (process_loop b args out s) = Inl e \<Longrightarrow> errtype e \<noteq> Unknown_option"
proof (induction args arbitrary: out s rule: length_induct)
  case (1 args)
  show ?case
  proof (cases args)
    case (Cons arg rest)
    have IH: "errtype e \<noteq> Unknown_option"
      if "fst (process_loop b args' out' s') = Inl e" "length args' \<le> length rest" for args' out' s'
      using "1.IH" "1.prems"(1) that Cons by (auto simp: less_Suc_eq_le)
    obtain l sl where l: "long_option b arg rest out s = (l, sl)" by force
    obtain h sh where h: "short_loop b (drop 1 arg) [] rest s = (h, sh)" by force
    note lr = long_option_rest [of b arg rest out s] and sr = short_loop_rest [of b "drop 1 arg" "[]" rest s]
    note lu = long_unknown [of b arg rest out s e] and su = short_unknown [of b "drop 1 arg" "[]" rest s e]
    show ?thesis
      using "1.prems" IH l h lr sr lu su unfolding Cons process_loop.simps
      by (auto split: sum.splits prod.splits if_splits)
  qed (use "1.prems" in simp)
qed

lemma process_leftover:
  assumes "\<not> ignore_unknown b"
  shows "process_loop b args out s = (Inr out', s') \<Longrightarrow>
    \<exists>zs. subseq zs args \<and> (out' = out @ zs \<or> stop_on_argument b \<and> out' = zs)"
proof (induction args arbitrary: out s rule: length_induct)
  case (1 args)
  show ?case
  proof (cases args)
    case Nil
    with 1 show ?thesis by (auto intro: exI [of _ "[]"])
  next
    case (Cons arg rest)
    have IH: "\<exists>zs. subseq zs args \<and> (out' = out'' @ zs \<or> stop_on_argument b \<and> out' = zs)"
      if "process_loop b args' out'' s'' = (Inr out', s')" "suffix args' rest" for args' out'' s''
    proof -
      have "length args' < length args" using suffix_length_le [OF that(2)] Cons by simp
      with "1.IH" that(1) obtain zs where "subseq zs args'"
        "out' = out'' @ zs \<or> stop_on_argument b \<and> out' = zs" by blast
      moreover have "subseq args' args" using that(2) Cons by (simp add: list_emb_Cons suffix_imp_subseq)
      ultimately show ?thesis using subseq_order.trans by blast
    qed
    have keep: "\<exists>zs. subseq zs args \<and> (out' = out @ zs \<or> stop_on_argument b \<and> out' = zs)"
      if "process_loop b rest (out @ [arg]) s = (Inr out', s')"
    proof -
      from "1.IH" that Cons obtain zs where zs: "subseq zs rest"
        "out' = (out @ [arg]) @ zs \<or> stop_on_argument b \<and> out' = zs" by force
      then have "subseq (arg # zs) args" "subseq zs args" using Cons by (auto intro: subseq_Cons')
      with zs(2) show ?thesis by (metis append_Cons append_Nil append_assoc)
    qed
    have stop: "subseq (arg # rest) args" "subseq rest args" "subseq [] args" using Cons by auto
    show ?thesis
    proof (cases "is_long arg \<or> is_short arg \<and> \<not> (ignore_numbers b \<and> is_digit (arg ! 1))")
      case opt: True
      show ?thesis
      proof (cases "is_long arg")
        case True
        with "1.prems" Cons obtain o2 r2 s2 where "long_option b arg rest out s = (Inr (o2, r2), s2)"
          "process_loop b r2 o2 s2 = (Inr out', s')"
          by (auto simp: process_loop.simps(2) split: prod.splits sum.splits)
        with IH long_leftover [OF assms] show ?thesis by blast
      next
        case False
        with "1.prems" Cons opt obtain ropt r2 s2 where
          sl: "short_loop b (drop 1 arg) [] rest s = (Inr (ropt, r2), s2)"
          "process_loop b r2 (if ropt \<noteq> [] then out @ [CHR ''-'' # ropt] else out) s2 = (Inr out', s')"
          by (auto simp: process_loop.simps(2) split: prod.splits sum.splits if_splits)
        with short_leftover [OF assms sl(1)] IH show ?thesis by simp
      qed
    next
      case False
      with "1.prems" Cons keep stop show ?thesis
        by (auto simp: process_loop.simps(2) split: if_splits)
    qed
  qed
qed

section \<open>Help text\<close>

lemma pad_length [simp]: "length (pad w) = nat \<bar>w\<bar>"
  by (simp add: pad_def)

definition help_width :: "opt \<Rightarrow> int" where
  "help_width o' = (if shortDef o' then 3 else 0) + (if longDef o' then 3 + int (length (strName o')) else 0)
     + (if takesArgument o' then 2 + int (length (arg_name o')) else 0)"

lemma print_help_column:
  assumes "nul \<notin> set (strName o')" "nul \<notin> set (arg_name o')"
  shows "\<exists>pre. print_help l r o' = pre @ cstr (help_text o') @ [newline]
    \<and> int (length pre) = \<bar>l\<bar> + help_width o' + \<bar>r - help_width o'\<bar>"
  using assms
  by (intro exI [of _ "pad (- l) @ (if shortDef o' then [CHR ''-'', charName o', CHR '' ''] else [])
      @ (if longDef o' then ''--'' @ cstr (strName o') @ '' '' else [])
      @ (if takesArgument o' then ''<'' @ cstr (arg_name o') @ ''>'' else [])
      @ pad (- (r - help_width o'))"])
    (auto simp: print_help_def Let_def help_width_def algebra_simps)

section \<open>Properties\<close>

text \<open>C22: a run of \<open>process\<close> changes nothing of an option but its activation and argument;
  every option is as it was or as the log last shows it, an option without argument keeps
  the one it had, and the log, emptied first, holds activated options of the set.\<close>

theorem process_frame:
  "logged (option_vec s) (snd (process args b s))"
  unfolding process_def by (rule log.run_keeps) (simp add: logged_def)

text \<open>\<open>--name=value\<close> and \<open>--name value\<close> are the same for an option with an argument.\<close>

theorem long_value_spellings:
  assumes "find_string name s = Some i" "takesArgument (option_vec s ! i)"
    and "name \<noteq> []" "CHR ''='' \<notin> set name"
  shows "process_loop b ((''--'' @ name @ ''='' @ v) # rest) out s =
    process_loop b ((''--'' @ name) # v # rest) out s"
  using long_equals [OF assms] by simp

definition sample_set :: option_set where
  "sample_set = \<lparr>option_vec = [option_both CHR ''h'' ''help'' False [] [],
      option_both CHR ''o'' ''output'' True [] ''file''], option_sequence = []\<rparr>"

lemmas sample_simps = sample_set_def option_both_def find_char_def find_string_def
  default_process_args_def

theorem long_value_spellings_witness:
  "process_loop default_process_args ((''--'' @ ''output'' @ ''='' @ ''a'') # [''b'']) [] sample_set =
    process_loop default_process_args ((''--'' @ ''output'') # ''a'' # [''b'']) [] sample_set"
  by (rule long_value_spellings [where i = 1]) (simp_all add: sample_simps)

text \<open>\<open>-xvalue\<close>, \<open>-x=value\<close> and \<open>-x value\<close> are the same for an option with an argument,
  the first unless the value starts with \<open>=\<close>.\<close>

theorem short_value_spellings:
  assumes "find_char c s = Some i" "takesArgument (option_vec s ! i)"
    and "c \<noteq> CHR ''-''" "ignore_numbers b \<longrightarrow> \<not> is_digit c"
  shows "process_loop b ((''-'' @ [c] @ ''='' @ v) # rest) out s =
      process_loop b ([CHR ''-'', c] # v # rest) out s
    \<and> (v \<noteq> [] \<longrightarrow> hd v \<noteq> CHR ''='' \<longrightarrow> process_loop b ((''-'' @ [c] @ v) # rest) out s =
      process_loop b ([CHR ''-'', c] # v # rest) out s)"
  using short_attached [OF assms(1,2)] assms(3,4) by (simp add: short_name_def)

theorem short_value_spellings_witness:
  "process_loop default_process_args ((''-'' @ ''o'' @ ''='' @ ''a'') # []) [] sample_set =
      process_loop default_process_args ([CHR ''-'', CHR ''o''] # ''a'' # []) [] sample_set
    \<and> process_loop default_process_args ((''-'' @ ''o'' @ ''a'') # []) [] sample_set =
        process_loop default_process_args ([CHR ''-'', CHR ''o''] # ''a'' # []) [] sample_set"
  using short_value_spellings [of "CHR ''o''" sample_set 1 default_process_args "''a''" "[]" "[]"]
  by (simp add: sample_simps is_digit_def)

text \<open>Options without argument may be grouped: \<open>-abc\<close> is \<open>-a -bc\<close>.\<close>

theorem grouped_options:
  assumes "find_char c s = Some i" "\<not> takesArgument (option_vec s ! i)" "c \<noteq> CHR ''-''"
    and "cs \<noteq> []" "hd cs \<noteq> CHR ''-''"
    and "ignore_numbers b \<longrightarrow> \<not> is_digit c \<and> \<not> is_digit (hd cs)"
  shows "process_loop b ((''-'' @ [c] @ cs) # rest) out s =
    process_loop b ([CHR ''-'', c] # (''-'' @ cs) # rest) out s"
  using short_cluster [OF assms(1,2) _ assms(4)] assms(3,5,6) by (auto simp: short_name_def)

theorem grouped_options_witness:
  "process_loop default_process_args ((''-'' @ ''h'' @ ''ofile'') # []) [] sample_set =
    process_loop default_process_args ([CHR ''-'', CHR ''h''] # (''-'' @ ''ofile'') # []) [] sample_set"
  by (rule grouped_options [where i = 0]) (simp_all add: sample_simps)

text \<open>The arguments that are not options are returned in order; at \<open>--\<close> the run ends, and
  what follows is returned or dropped, never read as an option.\<close>

theorem operands_and_doubledash:
  assumes "\<not> stop_on_argument b" "stop_on_doubledash b" and "\<forall>x \<in> set xs. operand b x"
  shows "process (xs @ ''--'' # ys) b s =
      (Inr (if output_doubledash b then xs @ ys else xs), s\<lparr>option_sequence := []\<rparr>)
    \<and> process xs b s = (Inr xs, s\<lparr>option_sequence := []\<rparr>)"
  using process_operands [OF assms(1,3)] process_doubledash [OF assms(2,1)]
    process_operands [OF assms(1,3), of "[]"]
  by (simp add: process_def)

theorem operands_and_doubledash_witness:
  "process ([''a'', ''-''] @ ''--'' # [''-h'']) default_process_args sample_set =
      (Inr (if output_doubledash default_process_args then [''a'', ''-''] @ [''-h''] else [''a'', ''-'']),
       sample_set\<lparr>option_sequence := []\<rparr>)
    \<and> process [''a'', ''-''] default_process_args sample_set =
        (Inr [''a'', ''-''], sample_set\<lparr>option_sequence := []\<rparr>)"
  by (rule operands_and_doubledash)
    (auto simp: default_process_args_def operand_def is_long_def is_short_def)

text \<open>Unless unknown options are ignored, what a run returns is a subsequence of its
  arguments: nothing is invented, duplicated or reordered.\<close>

theorem leftover_subsequence:
  assumes "\<not> ignore_unknown b" and "process args b s = (Inr out, s')"
  shows "subseq out args"
  using process_leftover [OF assms(1), of args "[]"] assms(2) by (auto simp: process_def)

theorem leftover_subsequence_witness: "subseq [''x''] [''-h'', ''x'']"
proof (rule leftover_subsequence [of default_process_args _ sample_set])
  show "process [''-h'', ''x''] default_process_args sample_set =
    (Inr [''x''], snd (process [''-h'', ''x''] default_process_args sample_set))"
    by code_simp
qed (simp add: default_process_args_def)

text \<open>An unknown option is an error only when it is not to be ignored.\<close>

theorem unknown_ignored:
  assumes "ignore_unknown b" and "fst (process args b s) = Inl e"
  shows "errtype e \<noteq> Unknown_option"
  using process_error [OF assms(1)] assms(2) by (simp add: process_def)

theorem unknown_ignored_witness:
  "errtype (Option_error Missing_arg ''-o'') \<noteq> Unknown_option"
proof (rule unknown_ignored [where s = sample_set and args = "[''--zz'', ''-o'']"
      and b = "default_process_args\<lparr>ignore_unknown := True\<rparr>"])
  show "fst (process [''--zz'', ''-o''] (default_process_args\<lparr>ignore_unknown := True\<rparr>) sample_set) =
    Inl (Option_error Missing_arg ''-o'')" by code_simp
qed simp

text \<open>The help text of an option starts at column \<open>leftpad + rightpad\<close> when the option
  fits before it; when it does not, as many blanks as it is too long follow it.\<close>

theorem help_column:
  assumes "nul \<notin> set (strName o')" "nul \<notin> set (arg_name o')"
  shows "\<exists>pre. print_help l r o' = pre @ cstr (help_text o') @ [newline]
    \<and> int (length pre) = \<bar>l\<bar> + (if help_width o' \<le> r then r else 2 * help_width o' - r)"
  using print_help_column [OF assms, of l r] by (auto simp: abs_if split: if_splits)

theorem help_column_witness:
  "\<exists>pre. print_help 2 25 (option_both CHR ''o'' ''output'' True ''Output'' ''file'') =
      pre @ cstr (help_text (option_both CHR ''o'' ''output'' True ''Output'' ''file'')) @ [newline]
    \<and> int (length pre) = \<bar>2\<bar> + (if help_width (option_both CHR ''o'' ''output'' True ''Output'' ''file'') \<le> 25
        then 25 else 2 * help_width (option_both CHR ''o'' ''output'' True ''Output'' ''file'') - 25)"
  by (rule help_column) (simp_all add: option_both_def)

text \<open>\<open>find\<close> gives the first option defined with the name, and a null pointer exactly when
  there is none.\<close>

theorem find_first:
  "(find_char c s = None \<longleftrightarrow> (\<forall>x \<in> set (option_vec s). \<not> (shortDef x \<and> charName x = c)))
    \<and> (find_char c s = Some i \<longleftrightarrow> i < length (option_vec s)
        \<and> shortDef (option_vec s ! i) \<and> charName (option_vec s ! i) = c
        \<and> (\<forall>j < i. \<not> (shortDef (option_vec s ! j) \<and> charName (option_vec s ! j) = c)))"
  by (simp add: find_char_def find_from_None find_from_Some)

theorem find_first_witness: "find_char CHR ''o'' sample_set = Some 1"
  using find_first [of "CHR ''o''" sample_set 1] by (simp add: sample_set_def option_both_def)

end
