(* ===== verification/Options_Grammar.thy ===== *)
theory Options_Grammar
  imports Options_Laws
begin

text \<open>
  The language of \<open>option_set::process\<close>. A command line is a list of items followed by an
  ending; \<open>written\<close> says how an item is written on the command line, \<open>fits\<close> when it may stand
  there, \<open>events\<close> which options it activates and \<open>given_back\<close> what of it \<open>process\<close> returns.
  A run of \<open>process\<close> succeeds exactly on the lines that are written this way, with the
  effects of their items in order, and fails exactly on those with an item that is refused
  behind items that fit.
\<close>

section \<open>Lookup by name\<close>

text \<open>The option a name belongs to, and whether it takes an argument.\<close>

definition long_def :: "option_set \<Rightarrow> string \<Rightarrow> (nat \<times> bool) option" where
  "long_def s n = map_option (\<lambda>i. (i, takesArgument (option_vec s ! i))) (find_string n s)"

definition short_def :: "option_set \<Rightarrow> char \<Rightarrow> (nat \<times> bool) option" where
  "short_def s c = map_option (\<lambda>i. (i, takesArgument (option_vec s ! i))) (find_char c s)"

lemma def_bound:
  "long_def s n = Some (i, t) \<Longrightarrow> i < length (option_vec s)"
  "short_def s c = Some (i, t) \<Longrightarrow> i < length (option_vec s)"
  by (auto simp: long_def_def short_def_def dest: find_bound)

definition same_defs :: "option_set \<Rightarrow> option_set \<Rightarrow> bool" where
  "same_defs s t \<longleftrightarrow> map undef (option_vec s) = map undef (option_vec t)"

lemma same_defs_refl [simp]: "same_defs s s"
  by (simp add: same_defs_def)

lemma same_defs_trans: "same_defs s t \<Longrightarrow> same_defs t u \<Longrightarrow> same_defs s u"
  by (simp add: same_defs_def)

lemma same_defs_clear [simp]: "same_defs s (s\<lparr>option_sequence := l\<rparr>)"
  by (simp add: same_defs_def)

lemma find_undef: "(\<And>x. P (undef x) = P x) \<Longrightarrow> find_from P (map undef xs) = find_from P xs"
  by (induction xs) auto

lemma same_defs_lookup:
  assumes "same_defs s t"
  shows "long_def s = long_def t" "short_def s = short_def t"
proof -
  have find: "find_from P (option_vec s) = find_from P (option_vec t)" if "\<And>x. P (undef x) = P x" for P
    using assms find_undef [of P, OF that] by (metis same_defs_def)
  have takes: "takesArgument (option_vec s ! i) = takesArgument (option_vec t ! i)" if "i < length (option_vec s)" for i
  proof (rule undef_takes)
    show "undef (option_vec s ! i) = undef (option_vec t ! i)"
      using that assms by (metis length_map nth_map same_defs_def)
  qed
  have "find_string n s = find_string n t" for n
    unfolding find_string_def by (rule find) (simp add: undef_def)
  then have "long_def s n = long_def t n" for n
    using takes find_bound(2) [of n s] by (cases "find_string n t") (auto simp: long_def_def)
  then show "long_def s = long_def t" by blast
  have "find_char c s = find_char c t" for c
    unfolding find_char_def by (rule find) (simp add: undef_def)
  then have "short_def s c = short_def t c" for c
    using takes find_bound(1) [of c s] by (cases "find_char c t") (auto simp: short_def_def)
  then show "short_def s = short_def t" by blast
qed

section \<open>Command lines\<close>

text \<open>An argument of an option: behind its letter, behind \<open>=\<close>, or the next argument.\<close>

datatype given = Attached string | Equals string | Next string

fun given_value :: "given \<Rightarrow> string" where
  "given_value (Attached v) = v"
| "given_value (Equals v) = v"
| "given_value (Next v) = v"

fun given_text :: "given \<Rightarrow> string" where
  "given_text (Attached v) = v"
| "given_text (Equals v) = CHR ''='' # v"
| "given_text (Next v) = []"

fun given_more :: "given \<Rightarrow> string list" where
  "given_more (Next v) = [v]"
| "given_more _ = []"

datatype item =
    Long string "given option"
  | Short string "(char \<times> given) option"
  | Unknown string
  | Operand string

datatype ending = Finished | Doubledash "string list" | Stopped string "string list"

fun written :: "item \<Rightarrow> string list" where
  "written (Long n None) = [''--'' @ n]"
| "written (Long n (Some g)) = (''--'' @ n @ given_text g) # given_more g"
| "written (Short cs None) = [''-'' @ cs]"
| "written (Short cs (Some (c, g))) = (''-'' @ cs @ c # given_text g) # given_more g"
| "written (Unknown a) = [a]"
| "written (Operand a) = [a]"

fun written_end :: "ending \<Rightarrow> string list" where
  "written_end Finished = []"
| "written_end (Doubledash xs) = ''--'' # xs"
| "written_end (Stopped a xs) = a # xs"

text \<open>A letter in a group that does not end it.\<close>

definition flag :: "process_arguments \<Rightarrow> option_set \<Rightarrow> char \<Rightarrow> bool" where
  "flag b s c = (case short_def s c of None \<Rightarrow> ignore_unknown b | Some (i, t) \<Rightarrow> \<not> t)"

definition takes_value :: "(nat \<times> bool) option \<Rightarrow> bool" where
  "takes_value d = (case d of None \<Rightarrow> False | Some (i, t) \<Rightarrow> t)"

definition takes_none :: "(nat \<times> bool) option \<Rightarrow> bool" where
  "takes_none d = (case d of None \<Rightarrow> False | Some (i, t) \<Rightarrow> \<not> t)"

definition long_name :: "string \<Rightarrow> string" where
  "long_name a = takeWhile (\<lambda>c. c \<noteq> CHR ''='') (drop 2 a)"

text \<open>An argument \<open>process\<close> does not read as an option, \<open>--\<close> among them.\<close>

definition plain :: "process_arguments \<Rightarrow> string \<Rightarrow> bool" where
  "plain b a \<longleftrightarrow> \<not> is_long a \<and> (is_short a \<longrightarrow> ignore_numbers b \<and> is_digit (a ! 1))"

fun fits :: "process_arguments \<Rightarrow> option_set \<Rightarrow> item \<Rightarrow> bool" where
  "fits b s (Long n None) \<longleftrightarrow> n \<noteq> [] \<and> CHR ''='' \<notin> set n \<and> takes_none (long_def s n)"
| "fits b s (Long n (Some g)) \<longleftrightarrow> CHR ''='' \<notin> set n \<and> takes_value (long_def s n) \<and>
     (case g of Attached v \<Rightarrow> False | Equals v \<Rightarrow> True | Next v \<Rightarrow> n \<noteq> [])"
| "fits b s (Short cs None) \<longleftrightarrow> cs \<noteq> [] \<and> (\<forall>c \<in> set cs. flag b s c) \<and> short_name b (hd cs)"
| "fits b s (Short cs (Some (c, g))) \<longleftrightarrow> (\<forall>c \<in> set cs. flag b s c) \<and> takes_value (short_def s c) \<and>
     short_name b (hd (cs @ [c])) \<and>
     (case g of Attached v \<Rightarrow> v \<noteq> [] \<and> hd v \<noteq> CHR ''='' | _ \<Rightarrow> True)"
| "fits b s (Unknown a) \<longleftrightarrow> is_long a \<and> ignore_unknown b \<and> long_def s (long_name a) = None"
| "fits b s (Operand a) \<longleftrightarrow> plain b a \<and> \<not> stop_on_argument b \<and> \<not> (stop_on_doubledash b \<and> a = ''--'')"

fun fits_end :: "process_arguments \<Rightarrow> ending \<Rightarrow> bool" where
  "fits_end b Finished \<longleftrightarrow> True"
| "fits_end b (Doubledash xs) \<longleftrightarrow> stop_on_doubledash b \<and> \<not> stop_on_argument b"
| "fits_end b (Stopped a xs) \<longleftrightarrow> stop_on_argument b \<and> plain b a"

type_synonym event = "nat \<times> string option"

definition flag_events :: "option_set \<Rightarrow> string \<Rightarrow> event list" where
  "flag_events s cs = concat (map (\<lambda>c. case short_def s c of None \<Rightarrow> [] | Some (i, t) \<Rightarrow> [(i, None)]) cs)"

definition value_event :: "(nat \<times> bool) option \<Rightarrow> string option \<Rightarrow> event list" where
  "value_event d v = (case d of None \<Rightarrow> [] | Some (i, t) \<Rightarrow> [(i, v)])"

fun events :: "option_set \<Rightarrow> item \<Rightarrow> event list" where
  "events s (Long n g) = value_event (long_def s n) (map_option given_value g)"
| "events s (Short cs None) = flag_events s cs"
| "events s (Short cs (Some (c, g))) = flag_events s cs @ value_event (short_def s c) (Some (given_value g))"
| "events s (Unknown a) = []"
| "events s (Operand a) = []"

definition unknown_letters :: "option_set \<Rightarrow> string \<Rightarrow> string" where
  "unknown_letters s cs = filter (\<lambda>c. short_def s c = None) cs"

fun given_back :: "option_set \<Rightarrow> item \<Rightarrow> string list" where
  "given_back s (Long n g) = []"
| "given_back s (Short cs l) = (if unknown_letters s cs = [] then [] else [''-'' @ unknown_letters s cs])"
| "given_back s (Unknown a) = [a]"
| "given_back s (Operand a) = [a]"

fun given_back_end :: "process_arguments \<Rightarrow> string list \<Rightarrow> ending \<Rightarrow> string list" where
  "given_back_end b out Finished = out"
| "given_back_end b out (Doubledash xs) = (if output_doubledash b then out @ xs else out)"
| "given_back_end b out (Stopped a xs) = a # xs"

definition happen :: "event list \<Rightarrow> option_set \<Rightarrow> option_set" where
  "happen es s = fold (\<lambda>(i, v). activate i v) es s"

text \<open>
  What is refused at the head of the rest of the line, with the options that are activated
  before the exception: \<open>refused b s args e es\<close>.
\<close>

inductive refused :: "process_arguments \<Rightarrow> option_set \<Rightarrow> string list \<Rightarrow> option_error \<Rightarrow> event list \<Rightarrow> bool"
  for b s where
  unknown_name: "is_long a \<Longrightarrow> \<not> ignore_unknown b \<Longrightarrow> long_def s (long_name a) = None \<Longrightarrow>
    refused b s (a # rest) (Option_error Unknown_option (''--'' @ long_name a)) []"
| unwanted_value: "CHR ''='' \<notin> set n \<Longrightarrow> takes_none (long_def s n) \<Longrightarrow>
    refused b s ((''--'' @ n @ CHR ''='' # v) # rest) (Option_error Takes_no_arg (''--'' @ n)) []"
| missing_value: "n \<noteq> [] \<Longrightarrow> CHR ''='' \<notin> set n \<Longrightarrow> takes_value (long_def s n) \<Longrightarrow>
    refused b s [''--'' @ n] (Option_error Missing_arg (''--'' @ n)) []"
| unknown_letter: "\<forall>c \<in> set cs. flag b s c \<Longrightarrow> \<not> ignore_unknown b \<Longrightarrow> short_def s c = None \<Longrightarrow>
    short_name b (hd (cs @ [c])) \<Longrightarrow>
    refused b s ((''-'' @ cs @ c # ds) # rest) (Option_error Unknown_option [CHR ''-'', c]) (flag_events s cs)"
| missing_letter_value: "\<forall>c \<in> set cs. flag b s c \<Longrightarrow> takes_value (short_def s c) \<Longrightarrow>
    short_name b (hd (cs @ [c])) \<Longrightarrow>
    refused b s [''-'' @ cs @ [c]] (Option_error Missing_arg [CHR ''-'', c]) (flag_events s cs)"

inductive_cases refusedE: "refused b s args e es"

section \<open>Effects of an item\<close>

lemma happen_simps [simp]:
  "happen [] s = s"
  "happen ((i, v) # es) s = happen es (activate i v s)"
  "happen (es @ fs) s = happen fs (happen es s)"
  by (simp_all add: happen_def)

lemma same_defs_activate: "i < length (option_vec s) \<Longrightarrow> same_defs s (activate i v s)"
  unfolding same_defs_def
  by (rule nth_equalityI) (simp_all add: activate_def Let_def nth_list_update)

lemma same_defs_happen: "\<forall>(i, v) \<in> set es. i < length (option_vec s) \<Longrightarrow> same_defs s (happen es s)"
proof (induction es arbitrary: s)
  case (Cons e es)
  obtain i v where e: "e = (i, v)" by force
  have "same_defs (activate i v s) (happen es (activate i v s))" using Cons.prems e by (intro Cons.IH) auto
  with Cons.prems show ?case
    using same_defs_trans [OF same_defs_activate [of i s v]] by (auto simp: e)
qed simp

lemma flag_events_simps [simp]:
  "flag_events s [] = []"
  "flag_events s (c # cs) = (case short_def s c of None \<Rightarrow> [] | Some (i, t) \<Rightarrow> [(i, None)]) @ flag_events s cs"
  by (simp_all add: flag_events_def)

lemma events_bound:
  "(i, v) \<in> set (flag_events s cs) \<Longrightarrow> i < length (option_vec s)"
  "(i, v) \<in> set (value_event (long_def s n) w) \<Longrightarrow> i < length (option_vec s)"
  "(i, v) \<in> set (value_event (short_def s c) w) \<Longrightarrow> i < length (option_vec s)"
  by (auto simp: flag_events_def value_event_def dest: def_bound def_bound [OF sym] split: option.splits)

lemma same_defs_events: "same_defs s (happen (events s it) s)"
proof (rule same_defs_happen)
  show "\<forall>(i, v) \<in> set (events s it). i < length (option_vec s)"
    by (cases "(s, it)" rule: events.cases) (auto dest: events_bound)
qed

lemma same_defs_item:
  assumes "same_defs s t"
  shows "fits b s = fits b t" "events s = events t" "given_back s = given_back t"
    "flag b s = flag b t" "flag_events s = flag_events t" "unknown_letters s = unknown_letters t"
    "refused b s args e es = refused b t args e es"
proof -
  note l = same_defs_lookup [OF assms]
  show f: "flag b s = flag b t" by (simp add: flag_def fun_eq_iff l)
  show e: "flag_events s = flag_events t" by (simp add: flag_events_def fun_eq_iff l)
  show u: "unknown_letters s = unknown_letters t" by (simp add: unknown_letters_def fun_eq_iff l)
  have "fits b s it = fits b t it" for it
    by (cases "(b, s, it)" rule: fits.cases) (simp_all add: f l)
  then show "fits b s = fits b t" by blast
  have "events s it = events t it" for it
    by (cases "(s, it)" rule: events.cases) (simp_all add: e l)
  then show "events s = events t" by blast
  have "given_back s it = given_back t it" for it
    by (cases "(s, it)" rule: given_back.cases) (simp_all add: u)
  then show "given_back s = given_back t" by blast
  show "refused b s args e es = refused b t args e es"
    by (auto simp: refused.simps [of b s] refused.simps [of b t] l f e)
qed

lemma unknown_letters_simps [simp]:
  "unknown_letters s [] = []"
  "unknown_letters s (c # cs) = (if short_def s c = None then [c] else []) @ unknown_letters s cs"
  by (simp_all add: unknown_letters_def)

section \<open>One item\<close>

text \<open>The letters of a group before the one that ends it.\<close>

lemma short_flags:
  assumes "\<forall>c \<in> set cs. flag b s c"
  shows "short_loop b (cs @ ds) ropt rest s =
    short_loop b ds (ropt @ unknown_letters s cs) rest (happen (flag_events s cs) s)"
  using assms
proof (induction cs arbitrary: ropt s)
  case (Cons c cs)
  show ?case
  proof (cases "find_char c s")
    case None
    then have "short_def s c = None" "ignore_unknown b" using Cons.prems by (auto simp: short_def_def flag_def)
    then show ?thesis using None Cons by simp
  next
    case (Some i)
    then have d: "short_def s c = Some (i, False)" "\<not> takesArgument (option_vec s ! i)"
      using Cons.prems by (auto simp: short_def_def flag_def)
    have same: "same_defs s (activate i None s)" by (rule same_defs_activate [OF find_bound(1) [OF Some]])
    then have "\<forall>c \<in> set cs. flag b (activate i None s) c" using Cons.prems same_defs_item(4) by auto
    from Cons.IH [OF this] show ?thesis using Some d same_defs_item(5,6) [OF same, symmetric] by simp
  qed
qed simp

lemma takes_valueE:
  assumes "takes_value (short_def s c)"
  obtains i where "find_char c s = Some i" "takesArgument (option_vec s ! i)" "short_def s c = Some (i, True)"
    "charName (option_vec s ! i) = c"
  using assms by (auto simp: takes_value_def short_def_def find_char_def find_from_Some split: option.splits)

lemma long_defE:
  assumes "takes_value (long_def s n) \<or> takes_none (long_def s n)"
  obtains i where "find_string n s = Some i" "long_def s n = Some (i, takesArgument (option_vec s ! i))"
    "strName (option_vec s ! i) = n"
  using assms
  by (auto simp: takes_value_def takes_none_def long_def_def find_string_def find_from_Some split: option.splits)

lemma short_end:
  assumes "takes_value (short_def s c)" "case g of Attached v \<Rightarrow> v \<noteq> [] \<and> hd v \<noteq> CHR ''='' | _ \<Rightarrow> True"
  shows "short_loop b (c # given_text g) ropt (given_more g @ rest) s =
    (Inr (ropt, rest), happen (value_event (short_def s c) (Some (given_value g))) s)"
  using assms(1)
proof (rule takes_valueE)
  fix i assume "find_char c s = Some i" "takesArgument (option_vec s ! i)" "short_def s c = Some (i, True)"
  then show ?thesis using assms(2) by (cases g) (simp_all add: value_event_def)
qed

lemma string_find_prefix:
  "CHR ''='' \<notin> set n \<Longrightarrow> string_find CHR ''='' (''--'' @ n) = None"
  "CHR ''='' \<notin> set n \<Longrightarrow> string_find CHR ''='' (''--'' @ n @ CHR ''='' # v) = Some (length n + 2)"
  by simp_all

lemma string_find_takeWhile:
  "string_find c s = Some n \<Longrightarrow> take n s = takeWhile (\<lambda>x. x \<noteq> c) s"
  by (induction s arbitrary: n) (auto split: if_splits)

lemma long_name_take:
  assumes "is_long a"
  shows "string_find CHR ''='' a = None \<Longrightarrow> long_name a = drop 2 a"
    and "string_find CHR ''='' a = Some n \<Longrightarrow> long_name a = take (n - 2) (drop 2 a)"
proof -
  obtain d where a: "a = ''--'' @ d" using assms by (metis append_take_drop_id is_long_def)
  show "long_name a = drop 2 a" if "string_find CHR ''='' a = None"
    using that by (auto simp: a long_name_def takeWhile_eq_all_conv)
  show "long_name a = take (n - 2) (drop 2 a)" if "string_find CHR ''='' a = Some n"
    using that string_find_takeWhile [of "CHR ''=''" d] by (auto simp: a long_name_def)
qed


lemma long_item:
  assumes "fits b s (Long n g)"
  shows "process_loop b (written (Long n g) @ rest) out s = process_loop b rest out (happen (events s (Long n g)) s)"
proof -
  obtain i where i: "find_string n s = Some i" "long_def s n = Some (i, takesArgument (option_vec s ! i))"
    using assms long_defE [of s n] by (cases g) auto
  show ?thesis
  proof (cases g)
    case None
    then have "is_long (''--'' @ n)" using assms is_long_name by simp
    then show ?thesis using assms i None
      by (simp add: process_loop.simps(2) long_option_def takes_none_def value_event_def)
  next
    case (Some h)
    then have n: "CHR ''='' \<notin> set n" "takesArgument (option_vec s ! i)"
      using assms i by (simp_all add: takes_value_def)
    show ?thesis
    proof (cases h)
      case (Equals v)
      have "is_long (''--'' @ n @ CHR ''='' # v)" using is_long_name [of "n @ CHR ''='' # v"] by simp
      then show ?thesis using n i Some Equals
        by (simp add: process_loop.simps(2) long_option_def value_event_def)
    next
      case (Next v)
      then have "is_long (''--'' @ n)" using assms Some is_long_name by simp
      then show ?thesis using n i Some Next
        by (simp add: process_loop.simps(2) long_option_def value_event_def)
    qed (use assms Some in simp)
  qed
qed

text \<open>A group: the letters and what follows them.\<close>

lemma short_group:
  assumes "short_name b (hd (cs @ ds))" "cs @ ds \<noteq> []"
    and "\<forall>c \<in> set cs. flag b s c"
  shows "process_loop b ((''-'' @ cs @ ds) # rest) out s =
    (case short_loop b ds (unknown_letters s cs) rest (happen (flag_events s cs) s) of
       (Inl e, s') \<Rightarrow> (Inl e, s')
     | (Inr (ropt, rest'), s') \<Rightarrow> process_loop b rest' (if ropt \<noteq> [] then out @ [CHR ''-'' # ropt] else out) s')"
proof -
  obtain c es where ce: "cs @ ds = c # es" using assms(2) by (cases "cs @ ds") auto
  then have "short_name b c" using assms(1) by simp
  from short_step [OF this, of es rest out s] show ?thesis
    using short_flags [OF assms(3), of ds "[]" rest] by (simp add: ce [symmetric])
qed

lemma short_item:
  assumes "fits b s (Short cs l)"
  shows "process_loop b (written (Short cs l) @ rest) out s =
    process_loop b rest (out @ given_back s (Short cs l)) (happen (events s (Short cs l)) s)"
proof (cases l)
  case None
  then show ?thesis using short_group [of b cs "[]" s rest out] assms by simp
next
  case (Some cg)
  obtain c g where cg: "cg = (c, g)" by force
  let ?s = "happen (flag_events s cs) s"
  have same: "same_defs s ?s" using same_defs_happen events_bound(1) by blast
  have "takes_value (short_def ?s c)" "case g of Attached v \<Rightarrow> v \<noteq> [] \<and> hd v \<noteq> CHR ''='' | _ \<Rightarrow> True"
    using assms Some cg same_defs_lookup [OF same] by simp_all
  note last = short_end [OF this, of b "unknown_letters s cs" rest]
  have "short_name b (hd (cs @ c # given_text g))" using assms Some cg by (cases cs) simp_all
  from short_group [OF this, of s "given_more g @ rest" out] show ?thesis
    using assms last Some cg same_defs_lookup [OF same] by simp
qed

lemma item_step:
  assumes "fits b s it"
  shows "process_loop b (written it @ rest) out s =
    process_loop b rest (out @ given_back s it) (happen (events s it) s)"
proof (cases it)
  case (Long n g)
  then show ?thesis using long_item assms by simp
next
  case (Short cs l)
  then show ?thesis using short_item assms by simp
next
  case (Unknown a)
  then show ?thesis
    using assms long_name_take [of a]
    by (cases "string_find CHR ''='' a")
      (auto simp: process_loop.simps(2) long_option_def long_def_def Let_def)
next
  case (Operand a)
  then show ?thesis using assms by (auto simp: process_loop.simps(2) plain_def)
qed

lemma ending_step:
  "fits_end b e \<Longrightarrow> process_loop b (written_end e) out s = (Inr (given_back_end b out e), s)"
  by (cases e) (auto simp: process_loop.simps(2) plain_def is_long_def is_short_def)

lemma refused_step:
  "refused b s args e es \<Longrightarrow> process_loop b args out s = (Inl e, happen es s)"
proof (induction rule: refused.induct)
  case (unknown_name a rest)
  then show ?case using long_name_take [of a]
    by (cases "string_find CHR ''='' a")
      (auto simp: process_loop.simps(2) long_option_def long_def_def Let_def)
next
  case (unwanted_value n v rest)
  obtain i where i: "find_string n s = Some i" "long_def s n = Some (i, takesArgument (option_vec s ! i))"
    "strName (option_vec s ! i) = n" using unwanted_value long_defE [of s n] by auto
  have "is_long (''--'' @ n @ CHR ''='' # v)" using is_long_name [of "n @ CHR ''='' # v"] by simp
  then show ?case using i unwanted_value by (simp add: process_loop.simps(2) long_option_def takes_none_def)
next
  case (missing_value n)
  obtain i where i: "find_string n s = Some i" "long_def s n = Some (i, takesArgument (option_vec s ! i))"
    "strName (option_vec s ! i) = n" using missing_value long_defE [of s n] by auto
  have "is_long (''--'' @ n)" using missing_value is_long_name by simp
  then show ?case using i missing_value by (simp add: process_loop.simps(2) long_option_def takes_value_def)
next
  case (unknown_letter cs c ds rest)
  let ?s = "happen (flag_events s cs) s"
  have same: "same_defs s ?s" using same_defs_happen events_bound(1) by blast
  then have "find_char c ?s = None" using unknown_letter same_defs_lookup [OF same] by (simp add: short_def_def)
  moreover have "short_name b (hd (cs @ c # ds))" using unknown_letter by (cases cs) simp_all
  ultimately show ?case using short_group [of b cs "c # ds" s rest out] unknown_letter by simp
next
  case (missing_letter_value cs c)
  let ?s = "happen (flag_events s cs) s"
  have same: "same_defs s ?s" using same_defs_happen events_bound(1) by blast
  then have "takes_value (short_def ?s c)" using missing_letter_value same_defs_lookup [OF same] by simp
  then show ?case
  proof (rule takes_valueE)
    fix i assume "find_char c ?s = Some i" "takesArgument (option_vec ?s ! i)" "charName (option_vec ?s ! i) = c"
    then show ?thesis using short_group [of b cs "[c]" s "[]" out] missing_letter_value by simp
  qed
qed

section \<open>Every line is read one way\<close>

lemma long_split:
  assumes "is_long a"
  obtains "a = ''--'' @ long_name a" "long_name a \<noteq> []" "CHR ''='' \<notin> set (long_name a)"
    | v where "a = ''--'' @ long_name a @ CHR ''='' # v" "CHR ''='' \<notin> set (long_name a)"
proof -
  obtain d where a: "a = ''--'' @ d" using assms by (metis append_take_drop_id is_long_def)
  have d: "d \<noteq> []" using assms a by (auto simp: is_long_def)
  have n: "long_name a = takeWhile (\<lambda>c. c \<noteq> CHR ''='') d" by (simp add: a long_name_def)
  have no: "CHR ''='' \<notin> set (long_name a)" unfolding n by (auto dest: set_takeWhileD)
  show thesis
  proof (cases "dropWhile (\<lambda>c. c \<noteq> CHR ''='') d")
    case Nil
    then have "long_name a = d" using n takeWhile_dropWhile_id [of "\<lambda>c. c \<noteq> CHR ''=''" d] by simp
    then show thesis using that(1) a d no by simp
  next
    case (Cons x v)
    then have "x = CHR ''=''" using hd_dropWhile [of "\<lambda>c. c \<noteq> CHR ''=''" d] by simp
    moreover have "d = long_name a @ x # v" using n Cons takeWhile_dropWhile_id [of "\<lambda>c. c \<noteq> CHR ''=''" d] by simp
    ultimately show thesis using that(2) a no by simp
  qed
qed

definition read_at :: "process_arguments \<Rightarrow> option_set \<Rightarrow> string list \<Rightarrow> bool" where
  "read_at b s args \<longleftrightarrow> (\<exists>it rest. fits b s it \<and> args = written it @ rest) \<or>
     (\<exists>e. fits_end b e \<and> args = written_end e) \<or> (\<exists>e es. refused b s args e es)"

lemma read_itemI: "fits b s it \<Longrightarrow> args = written it @ rest \<Longrightarrow> read_at b s args"
  by (auto simp: read_at_def)

lemma read_refusedI: "refused b s args e es \<Longrightarrow> read_at b s args"
  by (auto simp: read_at_def)

lemma read_long:
  assumes "is_long a"
  shows "read_at b s (a # rest)"
proof (cases "long_def s (long_name a)")
  case None
  then show ?thesis
    using assms read_itemI [of b s "Unknown a"] refused.unknown_name [OF assms _ None, THEN read_refusedI]
    by (cases "ignore_unknown b") auto
next
  case (Some it)
  obtain i t where it: "it = (i, t)" by force
  have takes: "takes_value (long_def s (long_name a)) = t" "takes_none (long_def s (long_name a)) = (\<not> t)"
    by (simp_all add: Some it takes_value_def takes_none_def)
  from assms show ?thesis
  proof (rule long_split)
    assume a: "a = ''--'' @ long_name a" "long_name a \<noteq> []" "CHR ''='' \<notin> set (long_name a)"
    consider "\<not> t" | "t" "rest = []" | v r where t "rest = v # r" by (cases rest) auto
    then show ?thesis
    proof cases
      case 1
      then show ?thesis using a takes by (intro read_itemI [of b s "Long (long_name a) None" _ rest]) simp_all
    next
      case 2
      then have "refused b s [''--'' @ long_name a] (Option_error Missing_arg (''--'' @ long_name a)) []"
        using a takes by (intro refused.missing_value) simp_all
      then show ?thesis using read_refusedI a(1) 2 by metis
    next
      case 3
      then show ?thesis using a takes by (intro read_itemI [of b s "Long (long_name a) (Some (Next v))" _ r]) simp_all
    qed
  next
    fix v assume a: "a = ''--'' @ long_name a @ CHR ''='' # v" "CHR ''='' \<notin> set (long_name a)"
    show ?thesis
    proof (cases t)
      case True
      then show ?thesis using a takes by (intro read_itemI [of b s "Long (long_name a) (Some (Equals v))" _ rest]) simp_all
    next
      case False
      then have "refused b s ((''--'' @ long_name a @ CHR ''='' # v) # rest) (Option_error Takes_no_arg (''--'' @ long_name a)) []"
        using a takes by (intro refused.unwanted_value) simp_all
      then show ?thesis using read_refusedI a(1) by metis
    qed
  qed
qed

lemma read_group:
  assumes "short_name b c"
  shows "read_at b s ((''-'' @ c # cs) # rest)"
proof -
  define us where "us = takeWhile (flag b s) (c # cs)"
  have us: "\<forall>x \<in> set us. flag b s x" unfolding us_def by (auto dest: set_takeWhileD)
  show ?thesis
  proof (cases "dropWhile (flag b s) (c # cs)")
    case Nil
    then have all: "us = c # cs" using takeWhile_dropWhile_id [of "flag b s" "c # cs"] by (simp add: us_def)
    show ?thesis using us assms by (intro read_itemI [of b s "Short us None" _ rest]) (simp_all add: all)
  next
    case (Cons d ds)
    then have split: "c # cs = us @ d # ds" using takeWhile_dropWhile_id [of "flag b s" "c # cs"] by (simp add: us_def)
    have d: "\<not> flag b s d" using hd_dropWhile [of "flag b s" "c # cs"] Cons by simp
    have first: "short_name b (hd (us @ [d]))" using assms split by (cases us) simp_all
    show ?thesis
    proof (cases "short_def s d")
      case None
      then show ?thesis
        using d refused.unknown_letter [OF us _ None first, of ds rest] read_refusedI split by (simp add: flag_def)
    next
      case (Some it)
      then have t: "takes_value (short_def s d)" using d by (auto simp: flag_def takes_value_def)
      note item = read_itemI [of b s "Short us (Some (d, g))" for g]
      consider v where "ds = CHR ''='' # v" | "ds \<noteq> []" "hd ds \<noteq> CHR ''=''" | "ds = []" "rest = []"
        | v r where "ds = []" "rest = v # r" by (metis list.exhaust_sel)
      then show ?thesis
      proof cases
        case (1 v)
        then show ?thesis using us t first split by (intro item [of "Equals v" _ rest]) simp_all
      next
        case 2
        then show ?thesis using us t first split by (intro item [of "Attached ds" _ rest]) simp_all
      next
        case 3
        then show ?thesis using refused.missing_letter_value [OF us t first] read_refusedI split by simp
      next
        case (4 v r)
        then show ?thesis using us t first split by (intro item [of "Next v" _ r]) simp_all
      qed
    qed
  qed
qed

lemma read_head: "read_at b s args"
proof (cases args)
  case Nil
  then show ?thesis by (auto simp: read_at_def intro!: exI [of _ Finished])
next
  case (Cons a rest)
  show ?thesis
  proof (cases "is_long a \<or> plain b a")
    case False
    then have a: "1 < length a" "a ! 0 = CHR ''-''" "short_name b (a ! 1)"
      by (auto simp: plain_def is_short_def short_name_def)
    then obtain x c cs where "a = x # c # cs" by (cases a; cases "tl a") auto
    with a have "a = ''-'' @ c # cs" "short_name b c" by simp_all
    then show ?thesis using read_group Cons by simp
  next
    case True
    then consider "is_long a" | "plain b a" "stop_on_argument b"
      | "plain b a" "\<not> stop_on_argument b" "stop_on_doubledash b" "a = ''--''"
      | "fits b s (Operand a)" by auto
    then show ?thesis
    proof cases
      case 1
      then show ?thesis using read_long Cons by simp
    next
      case 2
      then show ?thesis using Cons by (auto simp: read_at_def intro!: exI [of _ "Stopped a rest"])
    next
      case 3
      then show ?thesis using Cons by (auto simp: read_at_def intro!: exI [of _ "Doubledash rest"])
    next
      case 4
      then show ?thesis using read_itemI [of b s "Operand a" args rest] Cons by simp
    qed
  qed
qed

section \<open>Whole lines\<close>

lemma written_not_empty: "written it \<noteq> []"
  by (cases it rule: written.cases) auto

lemma line_read:
  "\<exists>its tail. list_all (fits b s) its \<and> args = concat (map written its) @ tail \<and>
     ((\<exists>e. fits_end b e \<and> tail = written_end e) \<or> (\<exists>e es. refused b s tail e es))"
proof (induction args rule: length_induct)
  case (1 args)
  from read_head [of b s args] show ?case
    unfolding read_at_def
  proof (elim disjE)
    assume "\<exists>it rest. fits b s it \<and> args = written it @ rest"
    then obtain it rest where it: "fits b s it" "args = written it @ rest" by blast
    then have "length rest < length args" using written_not_empty [of it] by simp
    with 1 obtain its tail where "list_all (fits b s) its" "rest = concat (map written its) @ tail"
      "(\<exists>e. fits_end b e \<and> tail = written_end e) \<or> (\<exists>e es. refused b s tail e es)" by blast
    then show ?thesis using it by (intro exI [of _ "it # its"] exI [of _ tail]) simp
  qed (intro exI [of _ "[]"] exI [of _ args], simp)+
qed

definition all_events :: "option_set \<Rightarrow> item list \<Rightarrow> event list" where
  "all_events s its = concat (map (events s) its)"

lemma items_run:
  "list_all (fits b s) its \<Longrightarrow> same_defs s t \<Longrightarrow> process_loop b (concat (map written its) @ tail) out t =
     process_loop b tail (out @ concat (map (given_back s) its)) (happen (all_events s its) t)"
proof (induction its arbitrary: t out)
  case (Cons it its)
  note same = same_defs_item [OF Cons.prems(2)]
  let ?t = "happen (events s it) t"
  have "same_defs s ?t" using same_defs_trans [OF Cons.prems(2) same_defs_events [of t it]] same(2) by simp
  from Cons.IH [OF _ this] Cons.prems(1) item_step [of b t it "concat (map written its) @ tail" out] same(1-3)
  show ?case by (simp add: all_events_def)
qed (simp add: all_events_def)

lemma run_to_end:
  assumes "list_all (fits b s) its" "fits_end b e"
  shows "process (concat (map written its) @ written_end e) b s =
    (Inr (given_back_end b (concat (map (given_back s) its)) e), happen (all_events s its) (s\<lparr>option_sequence := []\<rparr>))"
  using items_run [OF assms(1) same_defs_clear, where tail = "written_end e" and out = "[]"] ending_step [OF assms(2)]
  by (simp add: process_def)

lemma same_defs_all: "same_defs s (happen (all_events s its) (s\<lparr>option_sequence := []\<rparr>))"
proof (rule same_defs_trans [OF same_defs_clear same_defs_happen])
  show "\<forall>(i, v) \<in> set (all_events s its). i < length (option_vec (s\<lparr>option_sequence := []\<rparr>))"
  proof (clarsimp simp: all_events_def)
    fix it i v assume "(i, v) \<in> set (events s it)"
    then show "i < length (option_vec s)" by (cases "(s, it)" rule: events.cases) (auto dest: events_bound)
  qed
qed

lemma run_to_error:
  assumes "list_all (fits b s) its" "refused b s tail e es"
  shows "process (concat (map written its) @ tail) b s =
    (Inl e, happen (all_events s its @ es) (s\<lparr>option_sequence := []\<rparr>))"
proof -
  let ?t = "happen (all_events s its) (s\<lparr>option_sequence := []\<rparr>)"
  have "refused b ?t tail e es" using assms(2) same_defs_item(7) [OF same_defs_all] by blast
  then have "process_loop b tail out ?t = (Inl e, happen es ?t)" for out by (rule refused_step)
  then show ?thesis using items_run [OF assms(1) same_defs_clear, where tail = tail and out = "[]"] by (simp add: process_def)
qed

section \<open>Properties\<close>

text \<open>C23: \<open>process\<close> succeeds exactly on the command lines made of items that fit and an ending;
  it then activates the options of the items in their order and returns the arguments it did
  not use, or, where it stops at the first of them, the rest of the line.\<close>

theorem process_accepts:
  "process args b s = (Inr out, s') \<longleftrightarrow>
    (\<exists>its e. list_all (fits b s) its \<and> fits_end b e \<and> args = concat (map written its) @ written_end e
       \<and> out = given_back_end b (concat (map (given_back s) its)) e
       \<and> s' = happen (all_events s its) (s\<lparr>option_sequence := []\<rparr>))"
proof
  assume r: "process args b s = (Inr out, s')"
  obtain its tail where *: "list_all (fits b s) its" "args = concat (map written its) @ tail"
    "(\<exists>e. fits_end b e \<and> tail = written_end e) \<or> (\<exists>e es. refused b s tail e es)" using line_read by blast
  from *(3) show "\<exists>its e. list_all (fits b s) its \<and> fits_end b e \<and> args = concat (map written its) @ written_end e
       \<and> out = given_back_end b (concat (map (given_back s) its)) e
       \<and> s' = happen (all_events s its) (s\<lparr>option_sequence := []\<rparr>)"
  proof (elim disjE exE conjE)
    fix e assume e: "fits_end b e" "tail = written_end e"
    with run_to_end [OF *(1) e(1)] r *(2)
    have "out = given_back_end b (concat (map (given_back s) its)) e"
      "s' = happen (all_events s its) (s\<lparr>option_sequence := []\<rparr>)" by simp_all
    with e *(1,2) show ?thesis by blast
  next
    fix e es assume "refused b s tail e es"
    with run_to_error [OF *(1) this] r *(2) show ?thesis by simp
  qed
next
  assume "\<exists>its e. list_all (fits b s) its \<and> fits_end b e \<and> args = concat (map written its) @ written_end e
       \<and> out = given_back_end b (concat (map (given_back s) its)) e
       \<and> s' = happen (all_events s its) (s\<lparr>option_sequence := []\<rparr>)"
  then show "process args b s = (Inr out, s')" by (elim exE conjE) (simp only: run_to_end)
qed

theorem process_accepts_witness:
  "\<exists>s'. process [''-hofile'', ''x'', ''--output=a'', ''--'', ''-z''] default_process_args sample_set = (Inr [''x''], s')
    \<and> map argument (option_sequence s') = [[], ''file'', ''a'']"
proof -
  let ?its = "[Short ''h'' (Some (CHR ''o'', Attached ''file'')), Operand ''x'', Long ''output'' (Some (Equals ''a''))]"
  let ?s' = "happen (all_events sample_set ?its) (sample_set\<lparr>option_sequence := []\<rparr>)"
  have 1: "list_all (fits default_process_args sample_set) ?its"
    by (simp add: sample_simps flag_def short_def_def long_def_def takes_value_def takes_none_def short_name_def plain_def
        is_long_def is_short_def)
  have 2: "fits_end default_process_args (Doubledash [''-z''])" by (simp add: default_process_args_def)
  have 3: "[''-hofile'', ''x'', ''--output=a'', ''--'', ''-z''] = concat (map written ?its) @ written_end (Doubledash [''-z''])"
    by simp
  have 4: "[''x''] = given_back_end default_process_args (concat (map (given_back sample_set) ?its)) (Doubledash [''-z''])"
    by (simp add: sample_simps unknown_letters_def short_def_def)
  from 1 2 3 4
  have "process [''-hofile'', ''x'', ''--output=a'', ''--'', ''-z''] default_process_args sample_set = (Inr [''x''], ?s')"
    unfolding process_accepts by blast
  moreover have "map argument (option_sequence ?s') = [[], ''file'', ''a'']" by code_simp
  ultimately show ?thesis by (intro exI conjI)
qed

text \<open>C24: It fails exactly on the lines with an argument that is refused behind items that fit:
  an unknown name or letter that is not to be ignored, a value for an option without one, a
  value that is missing at the end of the line. What stands before it has had its effect.\<close>

theorem process_refuses:
  "process args b s = (Inl e, s') \<longleftrightarrow>
    (\<exists>its tail es. list_all (fits b s) its \<and> refused b s tail e es \<and> args = concat (map written its) @ tail
       \<and> s' = happen (all_events s its @ es) (s\<lparr>option_sequence := []\<rparr>))"
proof
  assume r: "process args b s = (Inl e, s')"
  obtain its tail where *: "list_all (fits b s) its" "args = concat (map written its) @ tail"
    "(\<exists>e. fits_end b e \<and> tail = written_end e) \<or> (\<exists>e es. refused b s tail e es)" using line_read by blast
  from *(3) show "\<exists>its tail es. list_all (fits b s) its \<and> refused b s tail e es
       \<and> args = concat (map written its) @ tail \<and> s' = happen (all_events s its @ es) (s\<lparr>option_sequence := []\<rparr>)"
  proof (elim disjE exE conjE)
    fix e' es assume e: "refused b s tail e' es"
    with run_to_error [OF *(1) e] r *(2)
    have "e' = e" "s' = happen (all_events s its @ es) (s\<lparr>option_sequence := []\<rparr>)" by simp_all
    with e *(1,2) show ?thesis by blast
  next
    fix e assume "fits_end b e" "tail = written_end e"
    with run_to_end [OF *(1) this(1)] r *(2) show ?thesis by simp
  qed
next
  assume "\<exists>its tail es. list_all (fits b s) its \<and> refused b s tail e es
       \<and> args = concat (map written its) @ tail \<and> s' = happen (all_events s its @ es) (s\<lparr>option_sequence := []\<rparr>)"
  then show "process args b s = (Inl e, s')" by (elim exE conjE) (simp only: run_to_error)
qed

theorem process_refuses_witness:
  "\<exists>s'. process [''x'', ''-ho''] default_process_args sample_set = (Inl (Option_error Missing_arg ''-o''), s')"
proof -
  have "refused default_process_args sample_set [''-'' @ ''h'' @ [CHR ''o'']]
      (Option_error Missing_arg [CHR ''-'', CHR ''o'']) (flag_events sample_set ''h'')"
    by (rule refused.missing_letter_value) code_simp+
  moreover have "list_all (fits default_process_args sample_set) [Operand ''x'']" by code_simp
  moreover have "[''x'', ''-ho''] = concat (map written [Operand ''x'']) @ [''-'' @ ''h'' @ [CHR ''o'']]" by simp
  ultimately have "process [''x'', ''-ho''] default_process_args sample_set = (Inl (Option_error Missing_arg ''-o''),
      happen (all_events sample_set [Operand ''x''] @ flag_events sample_set ''h'') (sample_set\<lparr>option_sequence := []\<rparr>))"
    unfolding process_refuses by blast
  then show ?thesis by blast
qed

end
