(* ===== verification/Color.thy ===== *)
theory Color
  imports Prelude
begin

text \<open>
  Terminal colours (src/src/color.cpp, src/include/color.hpp): the two static tables and
  the lookups by index, by \<open>color_name\<close> and by string. An array element without an
  initialiser is a null pointer, \<open>None\<close>; comparing it with a string has no meaning.
\<close>

section \<open>Tables\<close>

datatype color_name =
    C_none | C_white | C_gray | C_black | C_red | C_green | C_orange | C_blue | C_magenta | C_cyan
  | C_b_white | C_b_lightgray | C_b_gray | C_b_red | C_b_green | C_b_yellow | C_b_blue
  | C_b_magenta | C_b_cyan
  | C_bold | C_italic | C_underline | C_blink | C_strike

definition color_names :: "color_name list" where
  "color_names = [C_none, C_white, C_gray, C_black, C_red, C_green, C_orange, C_blue, C_magenta,
     C_cyan, C_b_white, C_b_lightgray, C_b_gray, C_b_red, C_b_green, C_b_yellow, C_b_blue,
     C_b_magenta, C_b_cyan, C_bold, C_italic, C_underline, C_blink, C_strike]"

text \<open>The value of an enumerator.\<close>

fun color_value :: "color_name \<Rightarrow> nat" where
  "color_value C_none = 0" | "color_value C_white = 1" | "color_value C_gray = 2"
| "color_value C_black = 3" | "color_value C_red = 4" | "color_value C_green = 5"
| "color_value C_orange = 6" | "color_value C_blue = 7" | "color_value C_magenta = 8"
| "color_value C_cyan = 9" | "color_value C_b_white = 10" | "color_value C_b_lightgray = 11"
| "color_value C_b_gray = 12" | "color_value C_b_red = 13" | "color_value C_b_green = 14"
| "color_value C_b_yellow = 15" | "color_value C_b_blue = 16" | "color_value C_b_magenta = 17"
| "color_value C_b_cyan = 18" | "color_value C_bold = 19" | "color_value C_italic = 20"
| "color_value C_underline = 21" | "color_value C_blink = 22" | "color_value C_strike = 23"

definition color_count :: nat where
  "color_count = 24"

text \<open>An array of \<open>color_count\<close> pointers with fewer initialisers ends in null pointers.\<close>

definition c_array :: "string list \<Rightarrow> string option list" where
  "c_array inits = map Some inits @ replicate (color_count - length inits) None"

text \<open>Lines 23 and 25 are adjacent literals, one string to the compiler.\<close>

definition color_name_index :: "string option list" where
  "color_name_index = c_array
     [''none'', ''white'', ''gray'', ''black'', ''red'', ''green'', ''orange'', ''blue'',
      ''magenta'', ''cyan'',
      ''b_white'', ''b_lightgray'', ''b_gray'', ''b_red'', ''b_green'', ''b_yellow'', ''b_blue'',
      ''b_magenta'', ''b_cyan'' @
      ''bold'', ''italic'', ''underline'', ''blink'', ''strike'']"

definition esc :: "string \<Rightarrow> string" where
  "esc s = CHR 0x1B # s"

definition color_reset :: string where
  "color_reset = esc ''[0;0m''"

definition color_index :: "string option list" where
  "color_index = c_array
     [color_reset, esc ''[37m'', esc ''[90m'', esc ''[30m'', esc ''[31m'', esc ''[32m'',
      esc ''[33m'', esc ''[34m'', esc ''[35m'', esc ''[36m'',
      esc ''[1;37m'', esc ''[1;02m'', esc ''[1;30m'', esc ''[1;31m'', esc ''[1;32m'',
      esc ''[1;33m'', esc ''[1;34m'', esc ''[1;35m'', esc ''[1;36m'',
      esc ''[01m'', esc ''[03m'', esc ''[04m'', esc ''[05m'', esc ''[09m'']"

section \<open>Lookups\<close>

definition getColorCode_index :: "nat \<Rightarrow> string option" where
  "getColorCode_index index = (if index \<ge> color_count then Some color_reset else color_index ! index)"

definition getColorCode_name :: "color_name \<Rightarrow> string option" where
  "getColorCode_name cm = color_index ! color_value cm"

text \<open>The loop of lines 76-82 from index \<open>i\<close>.\<close>

fun name_loop :: "string \<Rightarrow> nat \<Rightarrow> string option list \<Rightarrow> exn + string option" where
  "name_loop str i [] = Inr (Some color_reset)"
| "name_loop str i (None # names) = Inl Undefined"
| "name_loop str i (Some n # names) =
     (if n = str then Inr (getColorCode_index i) else name_loop str (Suc i) names)"

definition getColorCode_string :: "string \<Rightarrow> exn + string option" where
  "getColorCode_string str = name_loop str 0 color_name_index"

record color =
  color_code :: string

definition setColor_name :: "color_name \<Rightarrow> color \<Rightarrow> exn + color" where
  "setColor_name cm c = (case getColorCode_name cm of None \<Rightarrow> Inl Undefined
     | Some s \<Rightarrow> Inr (c\<lparr>color_code := s\<rparr>))"

definition setColor_string :: "string \<Rightarrow> color \<Rightarrow> exn + color" where
  "setColor_string name c = (case getColorCode_string name of Inl e \<Rightarrow> Inl e
     | Inr None \<Rightarrow> Inl Undefined | Inr (Some s) \<Rightarrow> Inr (c\<lparr>color_code := s\<rparr>))"

definition new_color :: "exn + color" where
  "new_color = setColor_name C_none \<lparr>color_code = []\<rparr>"

definition color_of_name :: "color_name \<Rightarrow> exn + color" where
  "color_of_name cm = setColor_name cm \<lparr>color_code = []\<rparr>"

definition color_of_string :: "string \<Rightarrow> exn + color" where
  "color_of_string name = setColor_string name \<lparr>color_code = []\<rparr>"

text \<open>\<open>code()\<close> and the stream operators: a C string ends at its first NUL.\<close>

definition color_text :: "color \<Rightarrow> string" where
  "color_text c = cstr (color_code c)"

definition print_color :: "color \<Rightarrow> string" where
  "print_color c = color_text c"

definition print_color_name :: "color_name \<Rightarrow> string option" where
  "print_color_name cm = map_option cstr (color_index ! color_value cm)"

section \<open>Facts\<close>

text \<open>The documented name of an enumerator, as src/include/color.hpp spells it.\<close>

fun enum_name :: "color_name \<Rightarrow> string" where
  "enum_name C_none = ''none''" | "enum_name C_white = ''white''" | "enum_name C_gray = ''gray''"
| "enum_name C_black = ''black''" | "enum_name C_red = ''red''" | "enum_name C_green = ''green''"
| "enum_name C_orange = ''orange''" | "enum_name C_blue = ''blue''" | "enum_name C_magenta = ''magenta''"
| "enum_name C_cyan = ''cyan''" | "enum_name C_b_white = ''b_white''"
| "enum_name C_b_lightgray = ''b_lightgray''" | "enum_name C_b_gray = ''b_gray''"
| "enum_name C_b_red = ''b_red''" | "enum_name C_b_green = ''b_green''"
| "enum_name C_b_yellow = ''b_yellow''" | "enum_name C_b_blue = ''b_blue''"
| "enum_name C_b_magenta = ''b_magenta''" | "enum_name C_b_cyan = ''b_cyan''"
| "enum_name C_bold = ''bold''" | "enum_name C_italic = ''italic''"
| "enum_name C_underline = ''underline''" | "enum_name C_blink = ''blink''"
| "enum_name C_strike = ''strike''"

lemmas color_tables = color_name_index_def color_index_def c_array_def color_count_def
  getColorCode_index_def getColorCode_name_def getColorCode_string_def

lemma length_tables: "length color_name_index = color_count" "length color_index = color_count"
  by (simp_all add: color_tables)

lemma name_loop_null:
  "Some str \<notin> set names \<Longrightarrow> None \<in> set names \<Longrightarrow> name_loop str i names = Inl Undefined"
  by (induction str i names rule: name_loop.induct) auto

section \<open>Properties\<close>

text \<open>Looking a colour up by index never fails: every index below the count has its entry
  of the table, every other one gives the reset code.\<close>

theorem color_by_index:
  "getColorCode_index n = (if n < color_count then color_index ! n else Some color_reset)
    \<and> getColorCode_index n \<noteq> None"
proof -
  have "\<forall>c \<in> set color_index. c \<noteq> None" by (simp add: color_tables)
  then show ?thesis using length_tables(2) by (auto simp: getColorCode_index_def)
qed

text \<open>Looking a colour up by its documented name gives the code of its enumerator for the
  first eighteen colours only; \<open>b_cyan\<close> and \<open>bold\<close> are not found and run into the null
  pointer, and the formats behind them give the code of their predecessor.\<close>

theorem color_by_name:
  "getColorCode_string (enum_name cm) =
    (if color_value cm < 18 then Inr (getColorCode_name cm)
     else if color_value cm < 20 then Inl Undefined
     else Inr (color_index ! (color_value cm - 1)))"
  by (cases cm) (simp_all add: color_tables)

text \<open>Inserting a colour made from an enumerator into a stream writes what inserting
  the enumerator writes.\<close>

theorem color_printed: "map_option print_color (case color_of_name cm of Inr c \<Rightarrow> Some c | Inl _ \<Rightarrow> None) = print_color_name cm"
  by (simp add: print_color_def print_color_name_def color_text_def color_of_name_def setColor_name_def
      getColorCode_name_def split: option.splits)

text \<open>A string that is no entry of the table is compared with the null pointer at its end;
  the reset code of the last line of \<open>getColorCode\<close> is never returned for it.\<close>

theorem color_unknown_name:
  "Some str \<notin> set color_name_index \<Longrightarrow> getColorCode_string str = Inl Undefined"
  unfolding getColorCode_string_def by (rule name_loop_null) (simp_all add: color_tables)

theorem color_unknown_name_witness: "getColorCode_string ''pink'' = Inl Undefined"
  by (rule color_unknown_name) (simp add: color_tables)

end
