(* ===== verification/Wait.thy ===== *)
theory Wait
  imports Main
begin

text \<open>
  Waiting and queues between threads. \<open>wait_pool\<close> (src/src/wait.cpp) is a bare condition
  variable: a thread that calls \<open>wait\<close> blocks until it is notified, and a notification
  wakes threads that are blocked at that moment only. The C++ standard lets a blocked thread
  also wake up on its own. The second part is the contract of a queue that one thread fills and
  another empties, the locale \<open>fifo_channel\<close>; the shell and the socket interpret it.
\<close>

section \<open>Wait pools\<close>

text \<open>The threads blocked in \<open>wait\<close>.\<close>

type_synonym wait_pool = "nat set"

definition pool_wait :: "nat \<Rightarrow> wait_pool \<Rightarrow> wait_pool" where
  "pool_wait t p = insert t p"

definition notify_all :: "wait_pool \<Rightarrow> wait_pool" where
  "notify_all p = {}"

inductive notify_one :: "wait_pool \<Rightarrow> wait_pool \<Rightarrow> bool" where
  "notify_one {} {}"
| "t \<in> p \<Longrightarrow> notify_one p (p - {t})"

text \<open>A wake-up without a notification.\<close>

inductive wake :: "nat \<Rightarrow> wait_pool \<Rightarrow> wait_pool \<Rightarrow> bool" where
  "t \<in> p \<Longrightarrow> wake t p (p - {t})"

lemma pool_simps [simp]:
  "t \<in> pool_wait t p" "notify_all p = {}" "pool_wait t {} = {t}"
  by (simp_all add: pool_wait_def notify_all_def)

section \<open>Runs and queues between threads\<close>

text \<open>A step relation with an invariant that every step keeps.\<close>

locale invariant_system =
  fixes step :: "'s \<Rightarrow> 's \<Rightarrow> bool"
    and inv :: "'s \<Rightarrow> bool"
  assumes keeps: "inv s \<Longrightarrow> step s t \<Longrightarrow> inv t"
begin

lemma run_inv: "step\<^sup>*\<^sup>* s t \<Longrightarrow> inv s \<Longrightarrow> inv t"
  by (induction rule: rtranclp_induct) (simp_all add: keeps)

end

text \<open>
  \<open>pending\<close> is what the producer has still to put in, \<open>queue\<close> what is in, \<open>taken\<close> what the
  consumer has got.
\<close>

locale fifo_channel = invariant_system step inv
  for step :: "'s \<Rightarrow> 's \<Rightarrow> bool"
    and inv :: "'s \<Rightarrow> bool" +
  fixes pending :: "'s \<Rightarrow> 'a list"
    and queue :: "'s \<Rightarrow> 'a list"
    and taken :: "'s \<Rightarrow> 'a list"
  assumes conserves: "inv s \<Longrightarrow> step s t \<Longrightarrow>
      taken t @ queue t @ pending t = taken s @ queue s @ pending s"
    and grows: "inv s \<Longrightarrow> step s t \<Longrightarrow> \<exists>xs. taken t = taken s @ xs"
begin

lemma run_conserves:
  "step\<^sup>*\<^sup>* s t \<Longrightarrow> inv s \<Longrightarrow> taken t @ queue t @ pending t = taken s @ queue s @ pending s"
proof (induction rule: rtranclp_induct)
  case (step u t)
  then show ?case using conserves [OF run_inv [OF step.hyps(1)]] by simp
qed simp

lemma run_grows: "step\<^sup>*\<^sup>* s t \<Longrightarrow> inv s \<Longrightarrow> \<exists>xs. taken t = taken s @ xs"
proof (induction rule: rtranclp_induct)
  case (step u t)
  then show ?case using grows [OF run_inv [OF step.hyps(1)] step.hyps(2)] by force
qed simp

text \<open>From a state where nothing is taken or queued, what is taken is a prefix of the source.\<close>

lemma taken_prefix:
  assumes "step\<^sup>*\<^sup>* s t" "inv s" "taken s = []" "queue s = []"
  shows "\<exists>rest. pending s = taken t @ rest"
  using run_conserves [OF assms(1, 2)] assms(3, 4) by (intro exI [of _ "queue t @ pending t"]) simp

lemma taken_all:
  assumes "step\<^sup>*\<^sup>* s t" "inv s" "taken s = []" "queue s = []" "pending t = []"
  shows "taken t @ queue t = pending s"
  using run_conserves [OF assms(1, 2)] assms(3-) by simp

end

end
