(* ===== verification/Shell.thy ===== *)
theory Shell
  imports Prelude
begin

text \<open>
  Shell calls without threads (src/src/shell.cpp): \<open>sh\<close>, \<open>shr\<close>, \<open>shp\<close>, the pipe and the
  processes of \<open>eopen\<close>, the wait of \<open>eclose\<close>, \<open>exec\<close> and \<open>script\<close>. What the operating system
  and the commands do is a parameter: the output and the wait status of a command, the
  results of \<open>waitpid\<close>, the descriptors a pipe gets.
\<close>

section \<open>Output and status of a command\<close>

text \<open>\<open>WEXITSTATUS\<close> of the C library.\<close>

definition wexitstatus :: "32 word \<Rightarrow> int" where
  "wexitstatus status = uint (drop_bit 8 (and status 0xFF00))"

text \<open>
  \<open>getline(&buff, &buff_size, stream)\<close> of the C library on the bytes left: the next line with
  its newline and what is left behind it; \<open>None\<close> at the end of the stream.
\<close>

definition c_getline :: "string \<Rightarrow> (string \<times> string) option" where
  "c_getline bytes = (if bytes = [] then None
     else let line = takeWhile (\<lambda>c. c \<noteq> newline) bytes; rest = dropWhile (\<lambda>c. c \<noteq> newline) bytes
          in Some (line @ take 1 rest, drop 1 rest))"

lemma c_getline_split:
  "c_getline bytes = Some (line, rest) \<Longrightarrow> bytes = line @ rest \<and> line \<noteq> []"
proof -
  assume line: "c_getline bytes = Some (line, rest)"
  let ?l = "takeWhile (\<lambda>c. c \<noteq> newline) bytes" and ?r = "dropWhile (\<lambda>c. c \<noteq> newline) bytes"
  have b: "bytes = ?l @ ?r" by simp
  from line have l: "line = ?l @ take 1 ?r" "rest = drop 1 ?r" "bytes \<noteq> []"
    by (auto simp: c_getline_def Let_def split: if_splits)
  have "line @ rest = ?l @ ?r" unfolding l by (simp only: append.assoc append_take_drop_id)
  moreover have "line \<noteq> []"
  proof
    assume "line = []"
    then have "?l = []" "?r = []" using l(1) by auto
    with b l(3) show False by simp
  qed
  ultimately show ?thesis using b by simp
qed

text \<open>The lines the loop \<open>while (getline(...) > 0)\<close> sees.\<close>

function c_lines :: "string \<Rightarrow> string list" where
  "c_lines bytes = (case c_getline bytes of None \<Rightarrow> []
     | Some (line, rest) \<Rightarrow> line # c_lines rest)"
  by pat_completeness auto
termination
  by (relation "measure length") (auto dest!: c_getline_split)

declare c_lines.simps [simp del]

text \<open>\<open>ret += buff\<close> appends a C string.\<close>

definition read_output :: "string \<Rightarrow> string" where
  "read_output bytes = foldl (\<lambda>ret line. ret @ cstr line) [] (c_lines bytes)"

text \<open>
  \<open>popen cmd\<close> gives the bytes the command writes and its wait status, or fails with a
  null stream, which \<open>getline\<close> is then given.
\<close>

type_synonym popen = "string \<Rightarrow> (string \<times> 32 word) option"

text \<open>What stops a call: an exception (or undefined behaviour), or the end of the process.\<close>

datatype fault = Throws exn | Exits int

definition shp :: "popen \<Rightarrow> string \<Rightarrow> fault + string \<times> int" where
  "shp popen command = (case popen (cstr command) of
     None \<Rightarrow> Inl (Throws Undefined)
   | Some (bytes, status) \<Rightarrow> Inr (read_output bytes, wexitstatus status))"

definition sh :: "popen \<Rightarrow> string \<Rightarrow> fault + string" where
  "sh popen command = (case shp popen command of Inl e \<Rightarrow> Inl e | Inr r \<Rightarrow> Inr (fst r))"

definition shr :: "(string \<Rightarrow> 32 word) \<Rightarrow> string \<Rightarrow> int" where
  "shr system command = wexitstatus (system (cstr command))"

section \<open>A pipe to a process\<close>

text \<open>
  Descriptor tables: what each descriptor of a process refers to; a pipe has a number of its
  own. \<open>eopen\<close> makes a pipe on the descriptors \<open>r\<close> and \<open>w\<close>, forks, and closes or moves the
  ends in the two processes.
\<close>

datatype fd_target = Read_end nat | Write_end nat | Other_file nat

type_synonym fd_table = "nat \<Rightarrow> fd_target option"

record spawned =
  parent_fds :: fd_table
  child_fds :: fd_table
  child_argv :: "string option list"
  stream_fd :: nat

definition dup2 :: "nat \<Rightarrow> nat \<Rightarrow> fd_table \<Rightarrow> fd_table" where
  "dup2 oldfd newfd fds = (case fds oldfd of None \<Rightarrow> fds | Some f \<Rightarrow> fds(newfd \<mapsto> f))"

definition close_fd :: "nat \<Rightarrow> fd_table \<Rightarrow> fd_table" where
  "close_fd fd fds = fds(fd := None)"

text \<open>
  The argument vector of \<open>execvp\<close>: the null pointer is appended, then the name of the
  program put in front.
\<close>

definition exec_argv :: "string \<Rightarrow> string list \<Rightarrow> string option list" where
  "exec_argv bin args = Some bin # (map Some args @ [None])"

text \<open>
  \<open>eopen\<close> (lines 127-176). \<open>pipe\<close> is the number of the new pipe and the descriptors it gets;
  when the call fails the code only prints a message and goes on with an array that was never
  filled. When \<open>fork\<close> fails the process exits. The child leaves with status 1 when \<open>execvp\<close>
  fails, which is the matter of what runs the argument vector, below.
\<close>

definition eopen :: "(nat \<times> nat \<times> nat) option \<Rightarrow> bool \<Rightarrow> string \<Rightarrow> string \<Rightarrow> string list \<Rightarrow> fd_table
    \<Rightarrow> fault + spawned" where
  "eopen pipe fork_ok type bin args fds =
     (let argv = exec_argv bin args
      in if \<not> fork_ok then Inl (Exits 1)
         else (case pipe of None \<Rightarrow> Inl (Throws Undefined)
           | Some (i, r, w) \<Rightarrow>
               (let fds = fds(r \<mapsto> Read_end i, w \<mapsto> Write_end i)
                in if CHR ''r'' \<in> set type then
                     Inr \<lparr>parent_fds = close_fd w fds, child_fds = dup2 w 1 (close_fd r fds),
                          child_argv = argv, stream_fd = r\<rparr>
                   else
                     Inr \<lparr>parent_fds = close_fd r fds, child_fds = dup2 r 0 (close_fd w fds),
                          child_argv = argv, stream_fd = w\<rparr>)))"

definition popen2 :: "(nat \<times> nat \<times> nat) option \<Rightarrow> bool \<Rightarrow> string \<Rightarrow> string \<Rightarrow> fd_table \<Rightarrow> fault + spawned" where
  "popen2 pipe fork_ok command type fds = eopen pipe fork_ok type ''/bin/sh'' [''-c'', command] fds"

text \<open>
  \<open>eclose\<close> (lines 178-193): \<open>waits n\<close> is what the \<open>n\<close>-th call of \<open>waitpid\<close> gives, its result,
  \<open>errno\<close> and the status it stores, once the stream's descriptor is closed. The loop repeats the call as long as it is interrupted.
\<close>

definition EINTR :: int where
  "EINTR = 4"

type_synonym waits = "nat \<Rightarrow> int \<times> int \<times> 32 word"

partial_function (option) eclose_loop :: "waits \<Rightarrow> nat \<Rightarrow> (32 word) option" where
  "eclose_loop waits n =
     (case waits n of (ret, errno, stat) \<Rightarrow>
        if ret = -1 then (if errno \<noteq> EINTR then Some (-1) else eclose_loop waits (Suc n))
        else Some stat)"

definition eclose :: "nat \<Rightarrow> waits \<Rightarrow> fd_table \<Rightarrow> (32 word \<times> fd_table) option" where
  "eclose fd waits fds =
     (let fds = close_fd fd fds
      in case eclose_loop waits 0 of None \<Rightarrow> None | Some stat \<Rightarrow> Some (stat, fds))"

definition pclose2 :: "nat \<Rightarrow> waits \<Rightarrow> fd_table \<Rightarrow> (32 word \<times> fd_table) option" where
  "pclose2 fd waits fds = eclose fd waits fds"

text \<open>
  \<open>exec\<close> (lines 199-216): \<open>run\<close> gives what a program, started with an argument vector, writes
  and what the calls of \<open>waitpid\<close> for it give. \<open>None\<close> when the waiting never ends.
\<close>

type_synonym run = "string \<Rightarrow> string option list \<Rightarrow> string \<times> waits"

definition exec :: "run \<Rightarrow> (nat \<times> nat \<times> nat) option \<Rightarrow> bool \<Rightarrow> fd_table \<Rightarrow> string \<Rightarrow> string list
    \<Rightarrow> (fault + string \<times> int) option" where
  "exec run pipe fork_ok fds bin args =
     (case eopen pipe fork_ok ''r'' (cstr bin) (map cstr args) fds of
        Inl e \<Rightarrow> Some (Inl e)
      | Inr p \<Rightarrow>
          (case run (cstr bin) (child_argv p) of (bytes, waits) \<Rightarrow>
             (case eclose (stream_fd p) waits (parent_fds p) of None \<Rightarrow> None
              | Some (stat, _) \<Rightarrow> Some (Inr (read_output bytes, wexitstatus stat)))))"

section \<open>Scripts\<close>

text \<open>
  \<open>script\<close> (lines 217-239). The environment variable, the commands \<open>sh\<close> gives to \<open>popen\<close>,
  which paths can be opened for writing, what running the file gives and whether it can be
  removed are parameters. The result is what the call gives and the contents of the files;
  what the commands do to other files is left out.
\<close>

type_synonym files = "string \<Rightarrow> string option"

definition random_name :: string where
  "random_name = ''tr -dc '' @ [squote] @ ''[:alnum:]'' @ [squote] @ '' < /dev/urandom | head -c10''"

definition script_path :: "string option \<Rightarrow> string \<Rightarrow> string" where
  "script_path tmpdir name = (case tmpdir of Some d \<Rightarrow> cstr d | None \<Rightarrow> ''/tmp'') @ ''/ztdscript_'' @ name"

definition quoted :: "string \<Rightarrow> string \<Rightarrow> string" where
  "quoted msg path = msg @ [squote] @ path @ [squote]"

definition script :: "popen \<Rightarrow> (files \<Rightarrow> run) \<Rightarrow> (nat \<times> nat \<times> nat) option \<Rightarrow> bool \<Rightarrow> fd_table
    \<Rightarrow> (string \<Rightarrow> bool) \<Rightarrow> (string \<Rightarrow> bool) \<Rightarrow> string option \<Rightarrow> string \<Rightarrow> string list \<Rightarrow> files
    \<Rightarrow> (fault + string \<times> int) option \<times> files" where
  "script popen run pipe fork_ok fds writable removable tmpdir data args fs =
     (case sh popen random_name of
        Inl e \<Rightarrow> (Some (Inl e), fs)
      | Inr name \<Rightarrow>
          (let filepath = script_path tmpdir name
           in if \<not> writable filepath then
                (Some (Inl (Throws (Runtime_error (quoted ''Failed to write to file '' filepath)))), fs)
              else
                (let fs = fs(filepath \<mapsto> data)
                 in case sh popen (''chmod +x '' @ filepath) of
                      Inl e \<Rightarrow> (Some (Inl e), fs)
                    | Inr _ \<Rightarrow>
                        (case exec (run fs) pipe fork_ok fds filepath args of
                           None \<Rightarrow> (None, fs)
                         | Some (Inl e) \<Rightarrow> (Some (Inl e), fs)
                         | Some (Inr ret) \<Rightarrow>
                             if \<not> removable filepath then
                               (Some (Inl (Throws (Runtime_error
                                  (quoted ''Failed to delete file '' filepath)))), fs)
                             else (Some (Inr (fst ret, snd ret)), fs(filepath := None))))))"

section \<open>Facts\<close>

lemma c_lines_step:
  "c_getline bytes = Some (line, rest) \<Longrightarrow> c_lines bytes = line # c_lines rest"
  by (simp add: c_lines.simps [of bytes])

lemma c_lines_end: "c_getline bytes = None \<Longrightarrow> c_lines bytes = []"
  by (simp add: c_lines.simps [of bytes])

lemma c_lines_Nil [simp]: "c_lines [] = []"
  by (rule c_lines_end) (simp add: c_getline_def)

lemma c_lines_concat: "concat (c_lines bytes) = bytes"
proof (induction bytes rule: c_lines.induct)
  case (1 bytes)
  show ?case
  proof (cases "c_getline bytes")
    case None
    then show ?thesis by (auto simp: c_getline_def Let_def split: if_splits)
  next
    case (Some p)
    obtain line rest where p: "p = (line, rest)" by force
    with Some have line: "c_getline bytes = Some (line, rest)" by simp
    have "concat (c_lines rest) = rest" by (rule 1 [OF line refl])
    with line c_getline_split [OF line] show ?thesis by (simp add: c_lines_step)
  qed
qed

lemma read_output_cstr: "read_output bytes = concat (map cstr (c_lines bytes))"
proof -
  have "foldl (\<lambda>ret line. ret @ cstr line) acc ls = acc @ concat (map cstr ls)" for acc ls
    by (induction ls arbitrary: acc) auto
  then show ?thesis by (simp add: read_output_def)
qed

lemma read_output_id: "nul \<notin> set bytes \<Longrightarrow> read_output bytes = bytes"
proof -
  assume "nul \<notin> set bytes"
  then have "nul \<notin> set (concat (c_lines bytes))" by (simp add: c_lines_concat)
  then have "map cstr (c_lines bytes) = c_lines bytes" by (intro map_idI) auto
  then show ?thesis by (simp add: read_output_cstr c_lines_concat)
qed

definition interrupted :: "int \<times> int \<times> 32 word \<Rightarrow> bool" where
  "interrupted r = (fst r = -1 \<and> fst (snd r) = EINTR)"

definition wait_value :: "int \<times> int \<times> 32 word \<Rightarrow> 32 word" where
  "wait_value r = (if fst r = -1 then -1 else snd (snd r))"

lemma eclose_loop_step:
  "eclose_loop waits k = (if interrupted (waits k) then eclose_loop waits (Suc k)
     else Some (wait_value (waits k)))"
  by (auto simp: eclose_loop.simps [of waits k] interrupted_def wait_value_def split: prod.splits)

lemma eclose_loop_skip:
  "(\<forall>j < n. interrupted (waits (k + j))) \<Longrightarrow> eclose_loop waits k = eclose_loop waits (k + n)"
proof (induction n arbitrary: k)
  case (Suc n)
  have "interrupted (waits k)" using Suc.prems by (metis add_0_right zero_less_Suc)
  then have "eclose_loop waits k = eclose_loop waits (Suc k)"
    by (simp add: eclose_loop_step [of waits k])
  also have "\<dots> = eclose_loop waits (Suc k + n)" by (rule Suc.IH) (use Suc.prems in auto)
  finally show ?case by simp
qed simp

lemma eclose_loop_stops:
  assumes "eclose_loop waits k = Some st"
  shows "\<exists>j. \<not> interrupted (waits j)"
proof (rule eclose_loop.raw_induct [OF _ assms])
  fix loop :: "waits \<Rightarrow> nat \<Rightarrow> (32 word) option" and waits :: waits and n :: nat and st :: "32 word"
  assume IH: "\<And>waits n y. loop waits n = Some y \<Longrightarrow> \<exists>j. \<not> interrupted (waits j)"
    and body: "(case waits n of (ret, errno, stat) \<Rightarrow>
      if ret = -1 then if errno \<noteq> EINTR then Some (-1) else loop waits (Suc n) else Some stat) = Some st"
  show "\<exists>j. \<not> interrupted (waits j)"
  proof (cases "interrupted (waits n)")
    case True
    then have "loop waits (Suc n) = Some st"
      using body by (cases "waits n") (simp add: interrupted_def)
    then show ?thesis by (rule IH)
  qed blast
qed

lemma eclose_value:
  assumes "\<forall>j < n. interrupted (waits j)" "\<not> interrupted (waits n)"
  shows "eclose_loop waits 0 = Some (wait_value (waits n))"
proof -
  have "eclose_loop waits 0 = eclose_loop waits (0 + n)" using assms(1) by (intro eclose_loop_skip) simp
  with assms(2) show ?thesis by (simp add: eclose_loop_step [of waits n])
qed

lemma eclose_exists: "eclose_loop waits 0 = None \<longleftrightarrow> (\<forall>j. interrupted (waits j))"
proof
  assume none: "eclose_loop waits 0 = None"
  show "\<forall>j. interrupted (waits j)"
  proof (rule ccontr)
    assume "\<not> (\<forall>j. interrupted (waits j))"
    then obtain n where "\<not> interrupted (waits n)" "\<forall>j < n. interrupted (waits j)"
      using exists_least_iff [of "\<lambda>j. \<not> interrupted (waits j)"] by blast
    with none eclose_value [of n waits] show False by simp
  qed
next
  assume "\<forall>j. interrupted (waits j)"
  then show "eclose_loop waits 0 = None"
    using eclose_loop_stops [of waits 0] by (cases "eclose_loop waits 0") auto
qed

lemma wexitstatus_eq: "wexitstatus status = uint status div 256 mod 256"
proof -
  have m: "0xFF00 = push_bit 8 (mask 8 :: 32 word)" by (simp add: push_bit_eq_mult mask_eq_exp_minus_1)
  have "drop_bit 8 (and status 0xFF00) = take_bit 8 (drop_bit 8 status)"
    unfolding m by (rule bit_word_eqI) (auto simp: bit_simps)
  then have "wexitstatus status = uint (take_bit 8 (drop_bit 8 status))"
    by (simp add: wexitstatus_def)
  also have "\<dots> = take_bit 8 (drop_bit 8 (uint status))"
    by (simp add: unsigned_take_bit_eq unsigned_drop_bit_eq take_bit_drop_bit take_bit_take_bit)
  finally show ?thesis by (simp add: take_bit_eq_mod drop_bit_eq_div)
qed

lemma wexitstatus_range: "0 \<le> wexitstatus status" "wexitstatus status < 256"
  by (simp_all add: wexitstatus_eq)

lemma wexitstatus_minus [simp]: "wexitstatus (-1) = 255"
  by (simp add: wexitstatus_def)

lemma c_getline_line:
  "newline \<notin> set l \<Longrightarrow> c_getline (l @ newline # rest) = Some (l @ [newline], rest)"
  by (simp add: c_getline_def takeWhile_append2 dropWhile_append2 takeWhile_append dropWhile_append
    Let_def)

lemma read_output_line:
  "newline \<notin> set l \<Longrightarrow> read_output (l @ newline # rest) = cstr (l @ [newline]) @ read_output rest"
  by (simp add: read_output_cstr c_lines_step [OF c_getline_line])

lemma read_output_cut:
  assumes "newline \<notin> set a" "nul \<notin> set a" "newline \<notin> set b"
  shows "read_output (a @ nul # b @ newline # rest) = a @ read_output rest"
proof -
  have "newline \<notin> set (a @ nul # b)" using assms by auto
  from read_output_line [OF this, of rest]
  have "read_output (a @ nul # b @ newline # rest) = cstr (a @ nul # b @ [newline]) @ read_output rest"
    by simp
  moreover have "cstr (a @ nul # b @ [newline]) = a"
    unfolding cstr_def using assms(2) by (subst takeWhile_append2) auto
  ultimately show ?thesis by simp
qed

text \<open>C26: \<open>shp\<close> gives everything the command writes, line by line as \<open>getline\<close> splits it, and the
  exit status; but a line is appended as a C string, so what follows a NUL byte on its line is
  lost, with its newline.\<close>

theorem shp_output:
  "popen (cstr command) = Some (bytes, status) \<Longrightarrow>
     shp popen command = Inr (concat (map cstr (c_lines bytes)), uint status div 256 mod 256) \<and>
     concat (c_lines bytes) = bytes \<and>
     (nul \<notin> set bytes \<longrightarrow> sh popen command = Inr bytes) \<and>
     (\<forall>a b rest. bytes = a @ nul # b @ newline # rest \<and> newline \<notin> set (a @ b) \<and> nul \<notin> set (a @ rest) \<longrightarrow>
        sh popen command = Inr (a @ rest))"
  by (auto simp: sh_def shp_def read_output_cstr [symmetric] wexitstatus_eq c_lines_concat
    read_output_id read_output_cut)

theorem shp_output_witness:
  "shp (\<lambda>cmd. if cmd = ''a'' then Some (''x'' @ [newline] @ ''y'', 512) else None) (''a'' @ [nul] @ ''b'')
     = Inr (''x'' @ [newline] @ ''y'', 2)"
proof -
  define p where "p = (\<lambda>cmd. if cmd = ''a'' then Some (''x'' @ [newline] @ ''y'', 512 :: 32 word) else None)"
  have "p (cstr (''a'' @ [nul] @ ''b'')) = Some (''x'' @ [newline] @ ''y'', 512)"
    by (simp add: cstr_def p_def)
  from shp_output [of p _ _ _, OF this] have "shp p (''a'' @ [nul] @ ''b'') =
    Inr (concat (map cstr (c_lines (''x'' @ [newline] @ ''y''))), 2)" by simp
  also have "concat (map cstr (c_lines (''x'' @ [newline] @ ''y''))) = ''x'' @ [newline] @ ''y''"
    unfolding read_output_cstr [symmetric] by (rule read_output_id) simp
  finally show ?thesis by (simp add: p_def)
qed

text \<open>C27: \<open>eclose\<close> returns if and only if some call of \<open>waitpid\<close> is not interrupted by a signal, with the
  status that call stores, or -1 when it fails for another reason; the stream's descriptor is
  closed.\<close>

theorem eclose_result:
  "(eclose fd waits fds = None \<longleftrightarrow> (\<forall>n. fst (waits n) = -1 \<and> fst (snd (waits n)) = EINTR)) \<and>
   (eclose fd waits fds = Some (st, fds') \<longleftrightarrow> fds' = fds(fd := None) \<and>
      (\<exists>n. (\<forall>j < n. interrupted (waits j)) \<and> \<not> interrupted (waits n) \<and>
        st = (if fst (waits n) = -1 then -1 else snd (snd (waits n)))))"
proof (intro conjI)
  show "eclose fd waits fds = None \<longleftrightarrow> (\<forall>n. fst (waits n) = -1 \<and> fst (snd (waits n)) = EINTR)"
    using eclose_exists [of waits] by (auto simp: interrupted_def eclose_def split: option.splits)
  have "\<exists>n. (\<forall>j < n. interrupted (waits j)) \<and> \<not> interrupted (waits n)"
    if "eclose_loop waits 0 = Some st"
  proof -
    have "\<exists>n. \<not> interrupted (waits n)" using that eclose_exists [of waits] by auto
    then show ?thesis using exists_least_iff [of "\<lambda>j. \<not> interrupted (waits j)"] by blast
  qed
  then have "eclose_loop waits 0 = Some st \<longleftrightarrow> (\<exists>n. (\<forall>j < n. interrupted (waits j)) \<and>
      \<not> interrupted (waits n) \<and> st = (if fst (waits n) = -1 then -1 else snd (snd (waits n))))"
    by (metis eclose_value wait_value_def option.inject)
  then show "eclose fd waits fds = Some (st, fds') \<longleftrightarrow> fds' = fds(fd := None) \<and>
      (\<exists>n. (\<forall>j < n. interrupted (waits j)) \<and> \<not> interrupted (waits n) \<and>
        st = (if fst (waits n) = -1 then -1 else snd (snd (waits n))))"
    by (auto simp: eclose_def close_fd_def split: option.splits)
qed

theorem eclose_result_witness:
  "eclose 5 (\<lambda>n. if n = 0 then (-1, EINTR, 0) else if n = 1 then (7, 0, 256) else (-1, 10, 0)) Map.empty
     = Some (256, Map.empty)"
  by (rule iffD2 [OF conjunct2 [OF eclose_result]], intro conjI, simp, rule exI [of _ 1])
    (simp add: interrupted_def)

lemma eopen_result:
  "eopen (Some (i, r, w)) True type bin args fds = Inr p \<longleftrightarrow>
     (let fds = fds(r \<mapsto> Read_end i, w \<mapsto> Write_end i); argv = Some bin # map Some args @ [None]
      in if CHR ''r'' \<in> set type then
           p = \<lparr>parent_fds = fds(w := None), child_fds = dup2 w 1 (fds(r := None)),
                child_argv = argv, stream_fd = r\<rparr>
         else
           p = \<lparr>parent_fds = fds(r := None), child_fds = dup2 r 0 (fds(w := None)),
                child_argv = argv, stream_fd = w\<rparr>)"
  by (auto simp: eopen_def Let_def close_fd_def exec_argv_def)

text \<open>C28: Each process is left with its end of the pipe: the parent gets the end of the stream it is
  given and nothing else, the child has the other end as its standard output or input and not
  the parent's, and closing the stream gives the parent the descriptors it had.\<close>

theorem eopen_ends:
  assumes "eopen (Some (i, r, w)) True type bin args fds = Inr p" "r \<noteq> w"
    and "Read_end i \<notin> ran fds" "Write_end i \<notin> ran fds" "fds r = None" "fds w = None"
  shows "child_argv p = Some bin # map Some args @ [None] \<and>
    (if CHR ''r'' \<in> set type then
       parent_fds p = fds(r \<mapsto> Read_end i) \<and> stream_fd p = r \<and>
       child_fds p 1 = Some (Write_end i) \<and> Read_end i \<notin> ran (child_fds p)
     else
       parent_fds p = fds(w \<mapsto> Write_end i) \<and> stream_fd p = w \<and>
       child_fds p 0 = Some (Read_end i) \<and> Write_end i \<notin> ran (child_fds p)) \<and>
    close_fd (stream_fd p) (parent_fds p) = fds"
proof (cases "CHR ''r'' \<in> set type")
  case True
  then have p: "p = \<lparr>parent_fds = (fds(r \<mapsto> Read_end i, w \<mapsto> Write_end i))(w := None),
      child_fds = dup2 w 1 ((fds(r \<mapsto> Read_end i, w \<mapsto> Write_end i))(r := None)),
      child_argv = Some bin # map Some args @ [None], stream_fd = r\<rparr>"
    using assms(1) by (simp add: eopen_result)
  have "parent_fds p = fds(r \<mapsto> Read_end i)" unfolding p using assms(2, 6) by (auto simp: fun_eq_iff)
  moreover have "child_fds p = fds(w \<mapsto> Write_end i, 1 \<mapsto> Write_end i)"
    unfolding p dup2_def using assms(2, 5) by (auto simp: fun_eq_iff)
  moreover have "Read_end i \<notin> ran (fds(w \<mapsto> Write_end i, 1 \<mapsto> Write_end i))"
    using assms(3) by (auto simp: ran_def)
  moreover have "child_argv p = Some bin # map Some args @ [None]" "stream_fd p = r" unfolding p by simp_all
  ultimately show ?thesis using True assms(5) by (simp add: close_fd_def fun_upd_idem_iff)
next
  case False
  then have p: "p = \<lparr>parent_fds = (fds(r \<mapsto> Read_end i, w \<mapsto> Write_end i))(r := None),
      child_fds = dup2 r 0 ((fds(r \<mapsto> Read_end i, w \<mapsto> Write_end i))(w := None)),
      child_argv = Some bin # map Some args @ [None], stream_fd = w\<rparr>"
    using assms(1) by (simp add: eopen_result)
  have "parent_fds p = fds(w \<mapsto> Write_end i)" unfolding p using assms(2, 5) by (auto simp: fun_eq_iff)
  moreover have "child_fds p = fds(r \<mapsto> Read_end i, 0 \<mapsto> Read_end i)"
    unfolding p dup2_def using assms(2, 6) by (auto simp: fun_eq_iff)
  moreover have "Write_end i \<notin> ran (fds(r \<mapsto> Read_end i, 0 \<mapsto> Read_end i))"
    using assms(4) by (auto simp: ran_def)
  moreover have "child_argv p = Some bin # map Some args @ [None]" "stream_fd p = w" unfolding p by simp_all
  ultimately show ?thesis using False assms(6) by (simp add: close_fd_def fun_upd_idem_iff)
qed

theorem eopen_ends_witness:
  "\<exists>p. popen2 (Some (9, 3, 4)) True ''ls'' ''r'' [0 \<mapsto> Other_file 0] = Inr p \<and>
     parent_fds p = [0 \<mapsto> Other_file 0, 3 \<mapsto> Read_end 9] \<and> child_fds p 1 = Some (Write_end 9) \<and>
     child_argv p = [Some ''/bin/sh'', Some ''-c'', Some ''ls'', None]"
proof -
  obtain p where p: "eopen (Some (9, 3, 4)) True ''r'' ''/bin/sh'' [''-c'', ''ls''] [0 \<mapsto> Other_file 0] = Inr p"
    by (simp add: eopen_def Let_def)
  from eopen_ends [OF this] p show ?thesis by (simp add: popen2_def ran_def)
qed

text \<open>A process started while a stream written to an earlier one is open inherits the end of that
  pipe (\<open>popen\<close> closes those), so the earlier process does not see its input end when the
  stream is closed.\<close>

theorem earlier_pipe_inherited:
  assumes "eopen (Some (i, r, w)) True ''w'' bin args fds = Inr p" "1 < w" "r \<noteq> w"
    and "popen2 (Some (i', r', w')) True command type (parent_fds p) = Inr q"
    and "w \<noteq> r'" "w \<noteq> w'"
  shows "child_fds q w = Some (Write_end i)"
  using assms by (auto simp: popen2_def eopen_result Let_def dup2_def split: if_splits option.splits)

theorem earlier_pipe_inherited_witness:
  "\<exists>p q. eopen (Some (8, 3, 4)) True ''w'' ''cat'' [] Map.empty = Inr p \<and>
     popen2 (Some (9, 3, 5)) True ''sleep 9'' ''r'' (parent_fds p) = Inr q \<and>
     child_fds q 4 = Some (Write_end 8)"
proof -
  obtain p where p: "eopen (Some (8, 3, 4)) True ''w'' ''cat'' [] Map.empty = Inr p"
    by (simp add: eopen_def Let_def)
  obtain q where q: "popen2 (Some (9, 3, 5)) True ''sleep 9'' ''r'' (parent_fds p) = Inr q"
    by (simp add: popen2_def eopen_def Let_def)
  from earlier_pipe_inherited [OF p _ _ q] have "child_fds q 4 = Some (Write_end 8)" by simp
  with p q show ?thesis by blast
qed

text \<open>\<open>exec\<close> starts the program with its name and the arguments, each cut at a NUL, and gives what
  it writes and its exit status, 255 when the status cannot be had, once \<open>waitpid\<close> is not
  interrupted any more.\<close>

theorem exec_outcome:
  assumes "r \<noteq> w" "fst (waits n) \<noteq> -1 \<or> fst (snd (waits n)) \<noteq> EINTR" "\<forall>j < n. interrupted (waits j)"
    and "run (cstr bin) (Some (cstr bin) # map (Some \<circ> cstr) args @ [None]) = (bytes, waits)"
  shows "exec run (Some (i, r, w)) True fds bin args =
    Some (Inr (read_output bytes,
      if fst (waits n) = -1 then 255 else wexitstatus (snd (snd (waits n)))))"
proof -
  obtain p where p: "eopen (Some (i, r, w)) True ''r'' (cstr bin) (map cstr args) fds = Inr p"
    "child_argv p = Some (cstr bin) # map Some (map cstr args) @ [None]"
    by (simp add: eopen_def exec_argv_def Let_def)
  have "\<not> interrupted (waits n)" using assms(2) by (auto simp: interrupted_def)
  with assms(3) have "eclose_loop waits 0 = Some (wait_value (waits n))" by (intro eclose_value)
  with p assms(4) show ?thesis by (simp add: exec_def eclose_def wait_value_def)
qed

theorem exec_outcome_witness:
  "exec (\<lambda>bin argv. (concat (map (\<lambda>a. case a of None \<Rightarrow> ''.'' | Some a \<Rightarrow> a) argv), \<lambda>n. (-1, 10, 0)))
     (Some (9, 3, 4)) True Map.empty ''ls'' [''-l''] = Some (Inr (''ls-l.'', 255))"
proof -
  have out: "read_output ''ls-l.'' = ''ls-l.''" by (rule read_output_id) simp
  show ?thesis
    by (subst exec_outcome [where n = 0]) (simp_all only: out, simp_all add: EINTR_def cstr_def out)
qed

lemma exec_not_runtime_error: "exec run pipe fork_ok fds bin args \<noteq> Some (Inl (Throws (Runtime_error msg)))"
  by (auto simp: exec_def eopen_def Let_def split: sum.splits option.splits if_splits prod.splits)

lemma sh_not_runtime_error: "sh popen command \<noteq> Inl (Throws (Runtime_error msg))"
  by (auto simp: sh_def shp_def split: sum.splits option.splits)

text \<open>\<open>script\<close> touches one file only. When it returns, that file is gone; when it throws, the message
  names the path, and a file that was written stays behind.\<close>

theorem script_files:
  assumes "script popen run pipe fork_ok fds writable removable tmpdir data args fs = (result, fs')"
    and "sh popen random_name = Inr name" "fs (script_path tmpdir name) = None"
  shows "(\<forall>path. path \<noteq> script_path tmpdir name \<longrightarrow> fs' path = fs path) \<and>
    (case result of
       Some (Inr _) \<Rightarrow> fs' = fs
     | Some (Inl (Throws (Runtime_error msg))) \<Rightarrow>
         if \<not> writable (script_path tmpdir name)
         then fs' = fs \<and> msg = ''Failed to write to file '' @ [squote] @ script_path tmpdir name @ [squote]
         else fs' (script_path tmpdir name) = Some data \<and>
           msg = ''Failed to delete file '' @ [squote] @ script_path tmpdir name @ [squote]
     | _ \<Rightarrow> fs' (script_path tmpdir name) = Some data)"
proof -
  let ?path = "script_path tmpdir name"
  note script = assms(1) [unfolded script_def Let_def assms(2) sum.case]
  show ?thesis
  proof (cases "writable ?path")
    case False
    then show ?thesis using script by (auto simp: quoted_def)
  next
    case True
    show ?thesis
    proof (cases "sh popen (''chmod +x '' @ ?path)")
      case (Inl e)
      then show ?thesis using script True sh_not_runtime_error [of popen "''chmod +x '' @ ?path"]
        by (auto split: fault.splits exn.splits)
    next
      case (Inr out)
      show ?thesis
        using script True Inr assms(3) exec_not_runtime_error
          [of "run (fs(?path \<mapsto> data))" pipe fork_ok fds ?path args]
        by (auto simp: quoted_def split: option.splits sum.splits if_splits fault.splits exn.splits)
    qed
  qed
qed

theorem script_files_witness:
  "\<exists>fs'. script (\<lambda>cmd. Some (''abc'', 0)) (\<lambda>fs bin argv. ([], \<lambda>n. (7, 0, 256))) (Some (9, 3, 4)) False
     Map.empty (\<lambda>path. True) (\<lambda>path. True) None ''exit 3'' [] Map.empty = (Some (Inl (Exits 1)), fs') \<and>
   fs' ''/tmp/ztdscript_abc'' = Some ''exit 3''"
proof -
  define popen where "popen = (\<lambda>cmd :: string. Some (''abc'', 0 :: 32 word))"
  have out: "sh popen cmd = Inr ''abc''" for cmd
    by (simp add: sh_def shp_def popen_def read_output_id)
  obtain fs' where fs': "script popen (\<lambda>fs bin argv. ([], \<lambda>n. (7, 0, 256))) (Some (9, 3, 4)) False
     Map.empty (\<lambda>path. True) (\<lambda>path. True) None ''exit 3'' [] Map.empty = (Some (Inl (Exits 1)), fs')"
    by (simp add: script_def out exec_def eopen_def Let_def)
  from script_files [OF this out] fs' show ?thesis by (simp add: script_path_def popen_def)
qed

end
