(* ===== verification/Shc.thy ===== *)
theory Shc
  imports Shell Wait
begin

text \<open>
  The class \<open>shc\<close> (src/src/shell.cpp, src/include/shell.hpp): a command that runs in the
  background while a thread of its own, \<open>run_process\<close>, puts its lines into a queue. Two threads
  are modelled, the one that uses the object and the worker, one step per statement, under
  every interleaving. The program guards none of the shared fields, so to the language these
  interleavings are data races; the model gives every access the sequentially consistent
  meaning.
\<close>

section \<open>State\<close>

text \<open>Where the worker is in \<open>run_process\<close> (lines 95-121).\<close>

datatype worker_pc =
    W_none
  | W_entry
  | W_notify_start
  | W_popen
  | W_pid string
  | W_read string
  | W_push string string
  | W_notify string
  | W_close
  | W_clear
  | W_notify_output
  | W_notify_finish
  | W_done

text \<open>Where the user of the object is in one of its operations.\<close>

datatype caller_pc =
    Idle
  | Run_check
  | Run_recheck
  | Run_wait
  | Run_blocked
  | Output_running
  | Output_empty
  | Output_wait
  | Output_blocked
  | Finish_running
  | Finish_wait
  | Finish_blocked
  | Kill_running bool
  | Kill_signal bool
  | Join
  | Gone

text \<open>
  What ends the program: \<open>std::terminate\<close> (a thread object that is still joinable is assigned,
  or one that is not is joined), the use of a wait pool that is gone, a command that cannot
  be started.
\<close>

datatype failure = Terminate | Dangling_pool | Spawn_failed fault

text \<open>
  The object, then the two threads. \<open>wait_for_start\<close> is the local pool of the call of \<open>run\<close>
  under way, \<open>wp_alive\<close> tells whether the pool the worker got a pointer to is that one and
  still exists. \<open>got\<close> and \<open>signals\<close> record what \<open>get_output\<close> gave and the processes a
  signal was sent to, \<open>results\<close> what \<open>kill_int\<close> gave.
\<close>

record shc =
  command :: string
  running :: bool
  pid :: int
  output_queue :: "string list"
  return_value :: "int option"
  wp_output :: wait_pool
  wp_finish :: wait_pool
  joinable :: bool
  worker :: worker_pc
  opened :: "(spawned \<times> waits) option"
  wait_for_start :: wait_pool
  wp_alive :: bool
  caller :: caller_pc
  got :: "string list"
  signals :: "int list"
  results :: "int list"
  failed :: "failure option"

text \<open>The operating system: the pipe, the fork, the identity of the child, what programs do and what \<open>kill\<close> gives.\<close>

record host =
  host_pipe :: "(nat \<times> nat \<times> nat) option"
  host_fork :: bool
  host_fds :: fd_table
  host_pid :: int
  host_run :: run
  host_kill :: "int \<Rightarrow> int"

definition shc_new :: "string \<Rightarrow> shc" where
  "shc_new cmd = \<lparr>command = cmd, running = False, pid = 0, output_queue = [], return_value = None,
     wp_output = {}, wp_finish = {}, joinable = False, worker = W_none, opened = None,
     wait_for_start = {}, wp_alive = False, caller = Idle, got = [], signals = [], results = [], failed = None\<rparr>"

section \<open>The worker\<close>

definition run_process :: "host \<Rightarrow> shc \<Rightarrow> shc option" where
  "run_process h p = (case worker p of
     W_none \<Rightarrow> None
   | W_entry \<Rightarrow>
       Some (if running p then p\<lparr>worker := W_done\<rparr>
             else p\<lparr>running := True, worker := W_notify_start\<rparr>)
   | W_notify_start \<Rightarrow>
       Some (if wp_alive p
             then p\<lparr>wait_for_start := notify_all (wait_for_start p), worker := W_popen\<rparr>
             else p\<lparr>failed := Some Dangling_pool\<rparr>)
   | W_popen \<Rightarrow>
       Some (case popen2 (host_pipe h) (host_fork h) (cstr (command p)) ''r'' (host_fds h) of
         Inl e \<Rightarrow> p\<lparr>failed := Some (Spawn_failed e)\<rparr>
       | Inr child \<Rightarrow>
           (case host_run h ''/bin/sh'' (child_argv child) of (bytes, waits) \<Rightarrow>
              p\<lparr>opened := Some (child, waits), worker := W_pid bytes\<rparr>))
   | W_pid bytes \<Rightarrow> Some (p\<lparr>pid := host_pid h, worker := W_read bytes\<rparr>)
   | W_read bytes \<Rightarrow>
       Some (case c_getline bytes of
         None \<Rightarrow> p\<lparr>worker := W_close\<rparr>
       | Some (line, rest) \<Rightarrow> p\<lparr>worker := W_push line rest\<rparr>)
   | W_push line rest \<Rightarrow> Some (p\<lparr>output_queue := output_queue p @ [cstr line], worker := W_notify rest\<rparr>)
   | W_notify rest \<Rightarrow> Some (p\<lparr>wp_output := notify_all (wp_output p), worker := W_read rest\<rparr>)
   | W_close \<Rightarrow>
       (case opened p of
          None \<Rightarrow> None
        | Some (child, waits) \<Rightarrow>
            (case pclose2 (stream_fd child) waits (parent_fds child) of
               None \<Rightarrow> None
             | Some (stat, fds) \<Rightarrow>
                 Some (p\<lparr>return_value := Some (wexitstatus stat), worker := W_clear\<rparr>)))
   | W_clear \<Rightarrow> Some (p\<lparr>running := False, worker := W_notify_output\<rparr>)
   | W_notify_output \<Rightarrow>
       Some (p\<lparr>wp_output := notify_all (wp_output p), worker := W_notify_finish\<rparr>)
   | W_notify_finish \<Rightarrow> Some (p\<lparr>wp_finish := notify_all (wp_finish p), worker := W_done\<rparr>)
   | W_done \<Rightarrow> None)"

section \<open>The operations of the object\<close>

text \<open>The thread that uses the object has the number 0 in the pools.\<close>

definition run_shc :: "shc \<Rightarrow> shc option" where
  "run_shc s = (case caller s of
     Run_check \<Rightarrow>
       Some (if \<not> running s then
               if joinable s then s\<lparr>failed := Some Terminate\<rparr>
               else s\<lparr>joinable := True, worker := W_entry, wp_alive := True, caller := Run_recheck\<rparr>
             else s\<lparr>caller := Run_recheck\<rparr>)
   | Run_recheck \<Rightarrow>
       Some (if \<not> running s then s\<lparr>caller := Run_wait\<rparr>
             else s\<lparr>wp_alive := False, caller := Idle\<rparr>)
   | Run_wait \<Rightarrow>
       Some (s\<lparr>wait_for_start := pool_wait 0 (wait_for_start s), caller := Run_blocked\<rparr>)
   | Run_blocked \<Rightarrow>
       (if 0 \<in> wait_for_start s then None else Some (s\<lparr>wp_alive := False, caller := Idle\<rparr>))
   | _ \<Rightarrow> None)"

text \<open>\<open>kill_int\<close>, called by the user or by the destructor, which goes on to join the worker.\<close>

definition after_kill :: "bool \<Rightarrow> caller_pc" where
  "after_kill dying = (if dying then Join else Idle)"

definition kill_int :: "host \<Rightarrow> shc \<Rightarrow> shc option" where
  "kill_int h s = (case caller s of
     Kill_running dying \<Rightarrow>
       Some (if running s then s\<lparr>caller := Kill_signal dying\<rparr>
             else s\<lparr>results := results s @ [1], caller := after_kill dying\<rparr>)
   | Kill_signal dying \<Rightarrow>
       Some (s\<lparr>signals := signals s @ [pid s], results := results s @ [host_kill h (pid s)],
               caller := after_kill dying\<rparr>)
   | _ \<Rightarrow> None)"

definition has_output :: "shc \<Rightarrow> bool" where
  "has_output s = (length (output_queue s) > 0)"

definition wait_output :: "shc \<Rightarrow> shc option" where
  "wait_output s = (case caller s of
     Output_running \<Rightarrow> Some (if running s then s\<lparr>caller := Output_empty\<rparr> else s\<lparr>caller := Idle\<rparr>)
   | Output_empty \<Rightarrow> Some (if \<not> has_output s then s\<lparr>caller := Output_wait\<rparr> else s\<lparr>caller := Idle\<rparr>)
   | Output_wait \<Rightarrow> Some (s\<lparr>wp_output := pool_wait 0 (wp_output s), caller := Output_blocked\<rparr>)
   | Output_blocked \<Rightarrow> (if 0 \<in> wp_output s then None else Some (s\<lparr>caller := Output_running\<rparr>))
   | _ \<Rightarrow> None)"

text \<open>The value and the object; \<open>got\<close> is extended when there is a line.\<close>

definition get_output :: "shc \<Rightarrow> string \<times> shc" where
  "get_output s = (case output_queue s of
     line # rest \<Rightarrow> (line, s\<lparr>output_queue := rest, got := got s @ [line]\<rparr>)
   | [] \<Rightarrow> ([], s))"

definition wait_finish :: "shc \<Rightarrow> shc option" where
  "wait_finish s = (case caller s of
     Finish_running \<Rightarrow> Some (if running s then s\<lparr>caller := Finish_wait\<rparr> else s\<lparr>caller := Idle\<rparr>)
   | Finish_wait \<Rightarrow> Some (s\<lparr>wp_finish := pool_wait 0 (wp_finish s), caller := Finish_blocked\<rparr>)
   | Finish_blocked \<Rightarrow> (if 0 \<in> wp_finish s then None else Some (s\<lparr>caller := Finish_running\<rparr>))
   | _ \<Rightarrow> None)"

text \<open>The end of the destructor: \<open>join\<close> waits for the worker.\<close>

definition join_shc :: "shc \<Rightarrow> shc option" where
  "join_shc s = (case caller s of
     Join \<Rightarrow> (if \<not> joinable s then Some (s\<lparr>failed := Some Terminate\<rparr>)
              else if worker s = W_done then Some (s\<lparr>joinable := False, caller := Gone\<rparr>)
              else None)
   | _ \<Rightarrow> None)"

datatype shc_op = Run | Kill_int | Wait_output | Get_output | Wait_finish | Destroy

definition call :: "shc_op \<Rightarrow> shc \<Rightarrow> shc" where
  "call m s = (case m of
     Run \<Rightarrow> s\<lparr>wait_for_start := {}, caller := Run_check\<rparr>
   | Kill_int \<Rightarrow> s\<lparr>caller := Kill_running False\<rparr>
   | Wait_output \<Rightarrow> s\<lparr>caller := Output_running\<rparr>
   | Get_output \<Rightarrow> snd (get_output s)
   | Wait_finish \<Rightarrow> s\<lparr>caller := Finish_running\<rparr>
   | Destroy \<Rightarrow> s\<lparr>caller := (if running s then Kill_running True else Join)\<rparr>)"

section \<open>Interleavings\<close>

text \<open>
  One step of one of the threads; the object takes a new call when its user is idle. \<open>woken\<close> is
  a wake-up without a notification, which the condition variable may give.
\<close>

inductive shc_act :: "host \<Rightarrow> shc \<Rightarrow> shc \<Rightarrow> bool" for h where
  worker_act: "failed s = None \<Longrightarrow> run_process h s = Some t \<Longrightarrow> shc_act h s t"
| call_act: "failed s = None \<Longrightarrow> caller s = Idle \<Longrightarrow> shc_act h s (call m s)"
| run_act: "failed s = None \<Longrightarrow> run_shc s = Some t \<Longrightarrow> shc_act h s t"
| output_act: "failed s = None \<Longrightarrow> wait_output s = Some t \<Longrightarrow> shc_act h s t"
| finish_act: "failed s = None \<Longrightarrow> wait_finish s = Some t \<Longrightarrow> shc_act h s t"
| join_act: "failed s = None \<Longrightarrow> join_shc s = Some t \<Longrightarrow> shc_act h s t"
| kill_act: "failed s = None \<Longrightarrow> kill_int h s = Some t \<Longrightarrow> shc_act h s t"

inductive shc_step :: "host \<Rightarrow> shc \<Rightarrow> shc \<Rightarrow> bool" for h where
  act: "shc_act h s t \<Longrightarrow> shc_step h s t"
| woken_start: "failed s = None \<Longrightarrow> wake 0 (wait_for_start s) p \<Longrightarrow> shc_step h s (s\<lparr>wait_for_start := p\<rparr>)"
| woken_output: "failed s = None \<Longrightarrow> wake 0 (wp_output s) p \<Longrightarrow> shc_step h s (s\<lparr>wp_output := p\<rparr>)"
| woken_finish: "failed s = None \<Longrightarrow> wake 0 (wp_finish s) p \<Longrightarrow> shc_step h s (s\<lparr>wp_finish := p\<rparr>)"

inductive_cases shc_actE: "shc_act h s t"
inductive_cases shc_stepE: "shc_step h s t"

end
