(* ===== verification/Shc_Laws.thy ===== *)
theory Shc_Laws
  imports Shc
begin

text \<open>
  The laws of \<open>shc\<close>: the invariant of the two threads, the queue between them, what the user can
  rely on, and the runs in which it goes wrong.
\<close>

section \<open>The invariant\<close>

text \<open>What the command of the object writes and how it ends.\<close>

definition shell_argv :: "string \<Rightarrow> string option list" where
  "shell_argv cmd = [Some ''/bin/sh'', Some ''-c'', Some (cstr cmd), None]"

definition command_run :: "host \<Rightarrow> shc \<Rightarrow> string \<times> waits" where
  "command_run h s = host_run h ''/bin/sh'' (shell_argv (command s))"

definition command_lines :: "host \<Rightarrow> shc \<Rightarrow> string list" where
  "command_lines h s = map cstr (c_lines (fst (command_run h s)))"

text \<open>The lines the worker has still to put into the queue.\<close>

fun lines_left :: "string list \<Rightarrow> worker_pc \<Rightarrow> string list" where
  "lines_left all W_none = all"
| "lines_left all W_entry = all"
| "lines_left all W_notify_start = all"
| "lines_left all W_popen = all"
| "lines_left all (W_pid bytes) = map cstr (c_lines bytes)"
| "lines_left all (W_read bytes) = map cstr (c_lines bytes)"
| "lines_left all (W_push line rest) = cstr line # map cstr (c_lines rest)"
| "lines_left all (W_notify rest) = map cstr (c_lines rest)"
| "lines_left all pc = []"

definition pending :: "host \<Rightarrow> shc \<Rightarrow> string list" where
  "pending h s = lines_left (command_lines h s) (worker s)"

text \<open>The stages of the worker: before the identity of the child is stored, while the command
  runs, and once its status is stored.\<close>

fun before_pid :: "worker_pc \<Rightarrow> bool" where
  "before_pid W_none = True"
| "before_pid W_entry = True"
| "before_pid W_notify_start = True"
| "before_pid W_popen = True"
| "before_pid (W_pid bytes) = True"
| "before_pid pc = False"

fun with_status :: "worker_pc \<Rightarrow> bool" where
  "with_status W_clear = True"
| "with_status W_notify_output = True"
| "with_status W_notify_finish = True"
| "with_status W_done = True"
| "with_status pc = False"

fun with_child :: "worker_pc \<Rightarrow> bool" where
  "with_child (W_pid bytes) = True"
| "with_child (W_read bytes) = True"
| "with_child (W_push line rest) = True"
| "with_child (W_notify rest) = True"
| "with_child W_close = True"
| "with_child pc = False"

definition active :: "worker_pc \<Rightarrow> bool" where
  "active pc \<longleftrightarrow> pc \<notin> {W_none, W_entry, W_notify_output, W_notify_finish, W_done}"

definition exit_code :: "host \<Rightarrow> shc \<Rightarrow> int \<Rightarrow> bool" where
  "exit_code h s code \<longleftrightarrow>
     (\<exists>stat. eclose_loop (snd (command_run h s)) 0 = Some stat \<and> code = wexitstatus stat)"

definition shc_inv :: "host \<Rightarrow> shc \<Rightarrow> bool" where
  "shc_inv h s \<longleftrightarrow>
     (joinable s \<longrightarrow> worker s \<noteq> W_none) \<and>
     (\<not> joinable s \<longrightarrow> worker s = W_none \<or> caller s = Gone) \<and>
     running s = active (worker s) \<and>
     pid s = (if before_pid (worker s) then 0 else host_pid h) \<and>
     (with_child (worker s) \<longrightarrow>
        (\<exists>child. opened s = Some (child, snd (command_run h s)))) \<and>
     (with_status (worker s) \<longrightarrow> (\<exists>code. return_value s = Some code \<and> exit_code h s code))"

lemma popen2_argv:
  "popen2 pipe ok cmd type fds = Inr p \<Longrightarrow>
     child_argv p = [Some ''/bin/sh'', Some ''-c'', Some cmd, None]"
  by (auto simp: popen2_def eopen_def exec_argv_def Let_def split: if_splits option.splits)

lemma pclose2_Some:
  "pclose2 fd waits fds = Some (stat, fds') \<Longrightarrow> eclose_loop waits 0 = Some stat"
  by (auto simp: pclose2_def eclose_def Let_def split: option.splits)

lemma new_inv: "shc_inv h (shc_new cmd)"
  by (simp add: shc_inv_def shc_new_def active_def)

text \<open>Every step but \<open>popen\<close> and \<open>pclose\<close> keeps what the host and the command give.\<close>

lemma run_process_simps:
  "worker s = W_none \<Longrightarrow> run_process h s = None"
  "worker s = W_entry \<Longrightarrow> run_process h s = Some (if running s then s\<lparr>worker := W_done\<rparr>
     else s\<lparr>running := True, worker := W_notify_start\<rparr>)"
  "worker s = W_notify_start \<Longrightarrow> run_process h s = Some (if wp_alive s
     then s\<lparr>wait_for_start := {}, worker := W_popen\<rparr> else s\<lparr>failed := Some Dangling_pool\<rparr>)"
  "worker s = W_pid bytes \<Longrightarrow> run_process h s = Some (s\<lparr>pid := host_pid h, worker := W_read bytes\<rparr>)"
  "worker s = W_read bytes \<Longrightarrow> run_process h s = Some (case c_getline bytes of
     None \<Rightarrow> s\<lparr>worker := W_close\<rparr> | Some (line, rest) \<Rightarrow> s\<lparr>worker := W_push line rest\<rparr>)"
  "worker s = W_push line rest \<Longrightarrow> run_process h s =
     Some (s\<lparr>output_queue := output_queue s @ [cstr line], worker := W_notify rest\<rparr>)"
  "worker s = W_notify rest \<Longrightarrow> run_process h s = Some (s\<lparr>wp_output := {}, worker := W_read rest\<rparr>)"
  "worker s = W_clear \<Longrightarrow> run_process h s = Some (s\<lparr>running := False, worker := W_notify_output\<rparr>)"
  "worker s = W_notify_output \<Longrightarrow>
     run_process h s = Some (s\<lparr>wp_output := {}, worker := W_notify_finish\<rparr>)"
  "worker s = W_notify_finish \<Longrightarrow> run_process h s = Some (s\<lparr>wp_finish := {}, worker := W_done\<rparr>)"
  "worker s = W_done \<Longrightarrow> run_process h s = None"
  by (simp_all add: run_process_def)

lemma run_process_popen:
  "worker s = W_popen \<Longrightarrow> run_process h s = Some t \<Longrightarrow>
     (\<exists>e. t = s\<lparr>failed := Some (Spawn_failed e)\<rparr>) \<or>
     (\<exists>child. t = s\<lparr>opened := Some (child, snd (command_run h s)),
        worker := W_pid (fst (command_run h s))\<rparr>)"
  by (auto simp: run_process_def command_run_def shell_argv_def dest!: popen2_argv
    split: sum.splits prod.splits)

lemma run_process_close:
  "worker s = W_close \<Longrightarrow> run_process h s = Some t \<Longrightarrow>
     \<exists>child waits stat. opened s = Some (child, waits) \<and> eclose_loop waits 0 = Some stat \<and>
       t = s\<lparr>return_value := Some (wexitstatus stat), worker := W_clear\<rparr>"
  by (auto simp: run_process_def dest!: pclose2_Some split: option.splits prod.splits)

text \<open>The steps of the worker, one by one.\<close>

lemma run_process_cases:
  assumes "run_process h s = Some t"
  obtains (again) "worker s = W_entry" "running s" "t = s\<lparr>worker := W_done\<rparr>"
  | (enter) "worker s = W_entry" "\<not> running s" "t = s\<lparr>running := True, worker := W_notify_start\<rparr>"
  | (started) "worker s = W_notify_start" "wp_alive s" "t = s\<lparr>wait_for_start := {}, worker := W_popen\<rparr>"
  | (dangling) "worker s = W_notify_start" "\<not> wp_alive s" "t = s\<lparr>failed := Some Dangling_pool\<rparr>"
  | (no_child) e where "worker s = W_popen" "t = s\<lparr>failed := Some (Spawn_failed e)\<rparr>"
  | (child) child where "worker s = W_popen"
      "t = s\<lparr>opened := Some (child, snd (command_run h s)), worker := W_pid (fst (command_run h s))\<rparr>"
  | (pid) bytes where "worker s = W_pid bytes" "t = s\<lparr>pid := host_pid h, worker := W_read bytes\<rparr>"
  | (eof) bytes where "worker s = W_read bytes" "c_getline bytes = None" "t = s\<lparr>worker := W_close\<rparr>"
  | (line) bytes line rest where "worker s = W_read bytes" "c_getline bytes = Some (line, rest)"
      "t = s\<lparr>worker := W_push line rest\<rparr>"
  | (push) line rest where "worker s = W_push line rest"
      "t = s\<lparr>output_queue := output_queue s @ [cstr line], worker := W_notify rest\<rparr>"
  | (pushed) rest where "worker s = W_notify rest" "t = s\<lparr>wp_output := {}, worker := W_read rest\<rparr>"
  | (close) child waits stat where "worker s = W_close" "opened s = Some (child, waits)"
      "eclose_loop waits 0 = Some stat"
      "t = s\<lparr>return_value := Some (wexitstatus stat), worker := W_clear\<rparr>"
  | (clear) "worker s = W_clear" "t = s\<lparr>running := False, worker := W_notify_output\<rparr>"
  | (tell_output) "worker s = W_notify_output" "t = s\<lparr>wp_output := {}, worker := W_notify_finish\<rparr>"
  | (tell_finish) "worker s = W_notify_finish" "t = s\<lparr>wp_finish := {}, worker := W_done\<rparr>"
proof (cases "worker s")
  case W_popen
  show ?thesis using run_process_popen [OF W_popen assms] that(5, 6) [OF W_popen] by (elim disjE exE)
next
  case W_close
  show ?thesis using run_process_close [OF W_close assms] that(12) [OF W_close] by (elim exE conjE)
next
  case (W_read bytes)
  show ?thesis
  proof (cases "c_getline bytes")
    case None
    show ?thesis by (rule that(8) [OF W_read None])
      (use assms None in \<open>simp add: run_process_simps(5) [OF W_read]\<close>)
  next
    case (Some p)
    obtain line rest where line: "c_getline bytes = Some (line, rest)" using Some by (cases p) simp
    show ?thesis by (rule that(9) [OF W_read line])
      (use assms line in \<open>simp add: run_process_simps(5) [OF W_read]\<close>)
  qed
next
  case W_entry
  show ?thesis
  proof (cases "running s")
    case True
    show ?thesis by (rule that(1) [OF W_entry True])
      (use assms True in \<open>simp add: run_process_simps(2) [OF W_entry]\<close>)
  next
    case False
    show ?thesis by (rule that(2) [OF W_entry False])
      (use assms False in \<open>simp add: run_process_simps(2) [OF W_entry]\<close>)
  qed
next
  case W_notify_start
  show ?thesis
  proof (cases "wp_alive s")
    case True
    show ?thesis by (rule that(3) [OF W_notify_start True])
      (use assms True in \<open>simp add: run_process_simps(3) [OF W_notify_start]\<close>)
  next
    case False
    show ?thesis by (rule that(4) [OF W_notify_start False])
      (use assms False in \<open>simp add: run_process_simps(3) [OF W_notify_start]\<close>)
  qed
next
  case (W_pid bytes)
  show ?thesis by (rule that(7) [OF W_pid])
    (use assms in \<open>simp add: run_process_simps(4) [OF W_pid]\<close>)
next
  case (W_push line rest)
  show ?thesis by (rule that(10) [OF W_push])
    (use assms in \<open>simp add: run_process_simps(6) [OF W_push]\<close>)
next
  case (W_notify rest)
  show ?thesis by (rule that(11) [OF W_notify])
    (use assms in \<open>simp add: run_process_simps(7) [OF W_notify]\<close>)
next
  case W_clear
  show ?thesis by (rule that(13) [OF W_clear])
    (use assms in \<open>simp add: run_process_simps(8) [OF W_clear]\<close>)
next
  case W_notify_output
  show ?thesis by (rule that(14) [OF W_notify_output])
    (use assms in \<open>simp add: run_process_simps(9) [OF W_notify_output]\<close>)
next
  case W_notify_finish
  show ?thesis by (rule that(15) [OF W_notify_finish])
    (use assms in \<open>simp add: run_process_simps(10) [OF W_notify_finish]\<close>)
next
  case W_none
  then show ?thesis using assms run_process_simps(1) [OF W_none, of h] by simp
next
  case W_done
  then show ?thesis using assms run_process_simps(11) [OF W_done, of h] by simp
qed

lemma run_process_command:
  "run_process h s = Some t \<Longrightarrow> command t = command s"
  by (erule run_process_cases) simp_all

lemma command_run_cong: "command t = command s \<Longrightarrow> command_run h t = command_run h s"
  by (simp add: command_run_def)

lemma run_process_inv:
  assumes "shc_inv h s" "run_process h s = Some t"
  shows "shc_inv h t"
proof -
  have run: "command_run h t = command_run h s"
    by (rule command_run_cong [OF run_process_command [OF assms(2)]])
  from assms(2) assms(1) run show ?thesis
    by (cases rule: run_process_cases) (auto simp: shc_inv_def active_def exit_code_def)
qed

text \<open>What the steps of the user leave as it is: everything but the start of the worker.\<close>

definition worker_part :: "shc \<Rightarrow> string \<times> bool \<times> int \<times> int option \<times> (spawned \<times> waits) option" where
  "worker_part s = (command s, running s, pid s, return_value s, opened s)"

lemma kill_int_cases:
  assumes "kill_int h s = Some t"
  obtains pc rs where "t = s\<lparr>caller := pc, results := rs\<rparr> \<or> t = s\<lparr>caller := pc, signals := signals s @ [pid s], results := rs\<rparr>"
    "caller s \<notin> {Idle, Gone, Run_recheck, Run_wait, Run_blocked}"
    "pc \<notin> {Gone, Run_recheck, Run_wait, Run_blocked}"
proof -
  have "(t = s\<lparr>caller := caller t, results := results t\<rparr> \<or> t = s\<lparr>caller := caller t, signals := signals s @ [pid s], results := results t\<rparr>) \<and>
     caller s \<notin> {Idle, Gone, Run_recheck, Run_wait, Run_blocked} \<and>
     caller t \<notin> {Gone, Run_recheck, Run_wait, Run_blocked}"
    using assms by (cases "caller s") (simp_all add: kill_int_def after_kill_def split: if_splits, auto)
  then show thesis using that [where pc = "caller t" and rs = "results t"] by blast
qed

lemma get_output_simps [simp]:
  "worker_part (snd (get_output s)) = worker_part s"
  "worker (snd (get_output s)) = worker s" "joinable (snd (get_output s)) = joinable s"
  "caller (snd (get_output s)) = caller s" "failed (snd (get_output s)) = failed s"
  "wait_for_start (snd (get_output s)) = wait_for_start s" "wp_alive (snd (get_output s)) = wp_alive s"
  "got (snd (get_output s)) @ output_queue (snd (get_output s)) = got s @ output_queue s"
  by (simp_all add: get_output_def worker_part_def split: list.splits)

lemma get_output_grows: "\<exists>xs. got (snd (get_output s)) = got s @ xs"
  by (simp add: get_output_def split: list.splits)

inductive user_step :: "shc \<Rightarrow> shc \<Rightarrow> bool" where
  "caller s = Idle \<Longrightarrow> user_step s (call m s)"
| "run_shc s = Some t \<Longrightarrow> user_step s t"
| "wait_output s = Some t \<Longrightarrow> user_step s t"
| "wait_finish s = Some t \<Longrightarrow> user_step s t"
| "join_shc s = Some t \<Longrightarrow> user_step s t"
| "user_step s (s\<lparr>wait_for_start := p\<rparr>)"
| "user_step s (s\<lparr>wp_output := p\<rparr>)"
| "user_step s (s\<lparr>wp_finish := p\<rparr>)"
| "kill_int h s = Some t \<Longrightarrow> user_step s t"

lemma shc_step_split: "shc_step h s t \<Longrightarrow> failed s = None \<and> (run_process h s = Some t \<or> user_step s t)"
  by (auto elim!: shc_stepE shc_actE intro: user_step.intros)

lemma run_shc_cases:
  assumes "run_shc s = Some t"
  obtains (twice) "caller s = Run_check" "\<not> running s" "joinable s" "t = s\<lparr>failed := Some Terminate\<rparr>"
  | (start) "caller s = Run_check" "\<not> running s" "\<not> joinable s"
      "t = s\<lparr>joinable := True, worker := W_entry, wp_alive := True, caller := Run_recheck\<rparr>"
  | (runs) "caller s = Run_check" "running s" "t = s\<lparr>caller := Run_recheck\<rparr>"
  | (waits) "caller s = Run_recheck" "\<not> running s" "t = s\<lparr>caller := Run_wait\<rparr>"
  | (returns) "caller s = Run_recheck" "running s" "t = s\<lparr>wp_alive := False, caller := Idle\<rparr>"
  | (blocks) "caller s = Run_wait"
      "t = s\<lparr>wait_for_start := insert 0 (wait_for_start s), caller := Run_blocked\<rparr>"
  | (woken) "caller s = Run_blocked" "0 \<notin> wait_for_start s" "t = s\<lparr>wp_alive := False, caller := Idle\<rparr>"
proof -
  have pc: "caller s \<in> {Run_check, Run_recheck, Run_wait, Run_blocked}"
    using assms by (cases "caller s") (simp_all add: run_shc_def)
  from pc consider (a) "caller s = Run_check" | (b) "caller s = Run_recheck"
    | (c) "caller s = Run_wait" | (d) "caller s = Run_blocked" by blast
  then show thesis
  proof cases
    case a
    consider (r) "running s" | (j) "\<not> running s" "joinable s" | (n) "\<not> running s" "\<not> joinable s" by blast
    then show thesis
    proof cases
      case r
      show thesis by (rule that(3) [OF a r]) (use assms a r in \<open>simp add: run_shc_def\<close>)
    next
      case j
      show thesis by (rule that(1) [OF a j]) (use assms a j in \<open>simp add: run_shc_def\<close>)
    next
      case n
      show thesis by (rule that(2) [OF a n]) (use assms a n in \<open>simp add: run_shc_def\<close>)
    qed
  next
    case b
    show thesis
    proof (cases "running s")
      case True
      show thesis by (rule that(5) [OF b True]) (use assms b True in \<open>simp add: run_shc_def\<close>)
    next
      case False
      show thesis by (rule that(4) [OF b False]) (use assms b False in \<open>simp add: run_shc_def\<close>)
    qed
  next
    case c
    show thesis by (rule that(6) [OF c]) (use assms c in \<open>simp add: run_shc_def pool_wait_def\<close>)
  next
    case d
    have "0 \<notin> wait_for_start s" using assms d by (cases "0 \<in> wait_for_start s") (simp_all add: run_shc_def)
    then show thesis by (rule that(7) [OF d]) (use assms d \<open>0 \<notin> wait_for_start s\<close> in \<open>simp add: run_shc_def\<close>)
  qed
qed

lemma wait_output_cases:
  assumes "wait_output s = Some t"
  obtains pc p where "t = s\<lparr>caller := pc, wp_output := p\<rparr>"
    "caller s \<notin> {Idle, Gone, Run_recheck, Run_wait, Run_blocked}"
    "pc \<notin> {Gone, Run_recheck, Run_wait, Run_blocked}"
proof -
  have "t = s\<lparr>caller := caller t, wp_output := wp_output t\<rparr> \<and>
     caller s \<notin> {Idle, Gone, Run_recheck, Run_wait, Run_blocked} \<and>
     caller t \<notin> {Gone, Run_recheck, Run_wait, Run_blocked}"
    using assms by (cases "caller s") (simp_all add: wait_output_def pool_wait_def split: if_splits, auto)
  then show thesis using that [where pc = "caller t" and p = "wp_output t"] by blast
qed

lemma wait_finish_cases:
  assumes "wait_finish s = Some t"
  obtains pc p where "t = s\<lparr>caller := pc, wp_finish := p\<rparr>"
    "caller s \<notin> {Idle, Gone, Run_recheck, Run_wait, Run_blocked}"
    "pc \<notin> {Gone, Run_recheck, Run_wait, Run_blocked}"
proof -
  have "t = s\<lparr>caller := caller t, wp_finish := wp_finish t\<rparr> \<and>
     caller s \<notin> {Idle, Gone, Run_recheck, Run_wait, Run_blocked} \<and>
     caller t \<notin> {Gone, Run_recheck, Run_wait, Run_blocked}"
    using assms by (cases "caller s") (simp_all add: wait_finish_def pool_wait_def split: if_splits, auto)
  then show thesis using that [where pc = "caller t" and p = "wp_finish t"] by blast
qed

lemma join_shc_cases:
  "join_shc s = Some t \<Longrightarrow> caller s = Join \<and>
     (\<not> joinable s \<and> t = s\<lparr>failed := Some Terminate\<rparr> \<or>
      joinable s \<and> worker s = W_done \<and> t = s\<lparr>joinable := False, caller := Gone\<rparr>)"
  by (auto simp: join_shc_def split: caller_pc.splits if_splits)


text \<open>What a step of the user does to the fields of the invariant.\<close>

lemma call_worker_part [simp]:
  "worker_part (call m s) = worker_part s" "worker (call m s) = worker s"
  "joinable (call m s) = joinable s" "failed (call m s) = failed s" "wp_alive (call m s) = wp_alive s"
  by (cases m; simp add: call_def get_output_def worker_part_def split: list.splits)+

lemma call_caller: "caller s = Idle \<Longrightarrow>
    caller (call m s) \<in> {Idle, Run_check, Output_running, Finish_running, Kill_running False, Kill_running True, Join}"
  by (cases m) (simp_all add: call_def)

lemma user_step_effect:
  assumes "user_step s t"
  shows "worker_part t = worker_part s \<and>
    (worker t = worker s \<and> joinable t = joinable s \<and> (caller t = Gone \<longleftrightarrow> caller s = Gone) \<or>
     caller s = Run_check \<and> \<not> running s \<and> \<not> joinable s \<and> joinable t \<and> worker t = W_entry \<and>
       caller t = Run_recheck \<and> wp_alive t \<or>
     worker s = W_done \<and> worker t = W_done \<and> \<not> joinable t \<and> caller t = Gone)"
  using assms
proof cases
  case (1 m)
  then show ?thesis using call_caller [of s m] by auto
next
  case 2
  then show ?thesis by (cases rule: run_shc_cases) (simp_all add: worker_part_def)
next
  case 3
  then show ?thesis by (cases rule: wait_output_cases) (simp_all add: worker_part_def)
next
  case 4
  then show ?thesis by (cases rule: wait_finish_cases) (simp_all add: worker_part_def)
next
  case 5
  from join_shc_cases [OF this] show ?thesis by (elim disjE conjE) (simp_all add: worker_part_def)
next
  case (9 h)
  then show ?thesis by (cases rule: kill_int_cases) (auto simp: worker_part_def)
qed (simp_all add: worker_part_def)

lemma user_step_inv:
  assumes "shc_inv h s" "user_step s t"
  shows "shc_inv h t"
proof -
  note effect = user_step_effect [OF assms(2)]
  have same: "command t = command s" "running t = running s" "pid t = pid s"
    "return_value t = return_value s" "opened t = opened s"
    using effect by (simp_all add: worker_part_def)
  note run = command_run_cong [OF same(1)]
  from effect assms(1) show ?thesis
    by (elim disjE conjE) (simp_all add: shc_inv_def exit_code_def active_def same run)
qed

lemma shc_step_inv: "shc_inv h s \<Longrightarrow> shc_step h s t \<Longrightarrow> shc_inv h t"
  using shc_step_split run_process_inv user_step_inv by blast

section \<open>The queue\<close>

lemma command_lines_cong: "command t = command s \<Longrightarrow> command_lines h t = command_lines h s"
  by (simp add: command_lines_def command_run_def)

lemma run_process_conserves:
  assumes "shc_inv h s" "run_process h s = Some t"
  shows "got t @ output_queue t @ pending h t = got s @ output_queue s @ pending h s \<and> got t = got s"
proof -
  have entry: "\<not> running s" if "worker s = W_entry"
    using assms(1) that by (simp add: shc_inv_def active_def)
  from assms(2) show ?thesis
  proof (cases rule: run_process_cases)
    case again
    then show ?thesis using entry by simp
  qed (simp_all add: pending_def c_lines_step c_lines_end command_lines_def command_run_def)
qed

lemma user_step_got:
  assumes "user_step s t"
  shows "got t @ output_queue t = got s @ output_queue s \<and> (\<exists>xs. got t = got s @ xs)"
  using assms
proof cases
  case (1 m)
  then show ?thesis using get_output_grows [of s] by (cases m) (simp_all add: call_def)
next
  case 2
  then show ?thesis by (cases rule: run_shc_cases) simp_all
next
  case 3
  then show ?thesis by (cases rule: wait_output_cases) simp_all
next
  case 4
  then show ?thesis by (cases rule: wait_finish_cases) simp_all
next
  case 5
  from join_shc_cases [OF this] show ?thesis by (elim disjE conjE) simp_all
next
  case (9 h)
  then show ?thesis by (cases rule: kill_int_cases) auto
qed simp_all

lemma user_step_pending: "shc_inv h s \<Longrightarrow> user_step s t \<Longrightarrow> pending h t = pending h s"
proof -
  assume inv: "shc_inv h s" and user: "user_step s t"
  have "command t = command s" using user_step_effect [OF user] by (simp add: worker_part_def)
  then show ?thesis using user_step_effect [OF user] inv
    by (elim disjE conjE) (simp_all add: pending_def command_lines_cong [of t s] shc_inv_def)
qed

interpretation shc_queue: fifo_channel "shc_step h" "shc_inv h" "pending h" output_queue got for h
proof unfold_locales
  fix s t
  assume inv: "shc_inv h s" and step: "shc_step h s t"
  show "shc_inv h t" using shc_step_inv inv step .
  have split: "run_process h s = Some t \<or> user_step s t" using shc_step_split [OF step] by simp
  then show "got t @ output_queue t @ pending h t = got s @ output_queue s @ pending h s"
  proof
    assume "run_process h s = Some t"
    from run_process_conserves [OF inv this] show ?thesis by (rule conjunct1)
  next
    assume user: "user_step s t"
    have "pending h t = pending h s" using user_step_pending [OF inv user] .
    with user_step_got [OF user] show ?thesis by simp
  qed
  from split show "\<exists>xs. got t = got s @ xs"
    using run_process_conserves [OF inv, of t] user_step_got [of s t] by auto
qed

section \<open>The queue as a stream of lines\<close>

text \<open>
  What a user expects of the object: a stream whose lines appear one by one and are taken in
  order. A state is the lines to come, the lines that are there and the lines taken.
\<close>

type_synonym stream = "string list \<times> string list \<times> string list"

inductive stream_step :: "stream \<Rightarrow> stream \<Rightarrow> bool" where
  appear: "stream_step (line # todo, avail, taken) (todo, avail @ [line], taken)"
| take_line: "stream_step (todo, line # avail, taken) (todo, avail, taken @ [line])"

definition stream_of :: "host \<Rightarrow> shc \<Rightarrow> stream" where
  "stream_of h s = (pending h s, output_queue s, got s)"

lemma run_process_stream:
  assumes "shc_inv h s" "run_process h s = Some t"
  shows "stream_step\<^sup>=\<^sup>= (stream_of h s) (stream_of h t)"
proof -
  have entry: "\<not> running s" if "worker s = W_entry"
    using assms(1) that by (simp add: shc_inv_def active_def)
  from assms(2) show ?thesis
  proof (cases rule: run_process_cases)
    case again
    then show ?thesis using entry by simp
  next
    case (push line rest)
    then show ?thesis by (simp add: stream_of_def pending_def stream_step.simps)
  qed (simp_all add: stream_of_def pending_def c_lines_step c_lines_end command_lines_def command_run_def)
qed

lemma user_step_queue:
  "user_step s t \<Longrightarrow> output_queue t = output_queue s \<and> got t = got s \<or>
     (\<exists>line. output_queue s = line # output_queue t \<and> got t = got s @ [line])"
proof (erule user_step.cases)
  fix s' m assume "s = s'" "t = call m s'"
  then show ?thesis
    by (cases m) (simp_all add: call_def get_output_def split: list.splits)
next
  fix s' t' assume *: "s = s'" "t = t'" "run_shc s' = Some t'"
  from *(3) show ?thesis by (cases rule: run_shc_cases) (simp_all add: *(1, 2))
next
  fix s' t' assume *: "s = s'" "t = t'" "wait_output s' = Some t'"
  from *(3) show ?thesis by (cases rule: wait_output_cases) (simp_all add: *(1, 2))
next
  fix s' t' assume *: "s = s'" "t = t'" "wait_finish s' = Some t'"
  from *(3) show ?thesis by (cases rule: wait_finish_cases) (simp_all add: *(1, 2))
next
  fix s' t' assume *: "s = s'" "t = t'" "join_shc s' = Some t'"
  from join_shc_cases [OF *(3)] show ?thesis by (elim disjE conjE) (simp_all add: *(1, 2))
next
  fix h s' t' assume *: "s = s'" "t = t'" "kill_int h s' = Some t'"
  from *(3) show ?thesis by (cases rule: kill_int_cases) (auto simp: *(1, 2))
qed simp_all

lemma user_step_stream:
  assumes "shc_inv h s" "user_step s t"
  shows "stream_step\<^sup>=\<^sup>= (stream_of h s) (stream_of h t)"
  using user_step_queue [OF assms(2)] user_step_pending [OF assms]
  by (auto simp: stream_of_def stream_step.simps)

lemma shc_step_stream:
  assumes "shc_inv h s" "shc_step h s t"
  shows "stream_step\<^sup>=\<^sup>= (stream_of h s) (stream_of h t)"
  using shc_step_split [OF assms(2)] run_process_stream [OF assms(1)] user_step_stream [OF assms(1)] by blast

lemma reachable_inv: "(shc_step h)\<^sup>*\<^sup>* (shc_new cmd) s \<Longrightarrow> shc_inv h s"
  by (rule shc_queue.run_inv [OF _ new_inv])

lemma reachable_command: "(shc_step h)\<^sup>*\<^sup>* (shc_new cmd) s \<Longrightarrow> command s = cmd"
proof (induction rule: rtranclp_induct)
  case (step s t)
  then show ?case using shc_step_split [OF step.hyps(2)] run_process_command [of h s t]
    user_step_effect [of s t] by (auto simp: worker_part_def)
qed (simp add: shc_new_def)

lemma act_reachable: "(shc_act h)\<^sup>*\<^sup>* s t \<Longrightarrow> (shc_step h)\<^sup>*\<^sup>* s t"
  by (induction rule: rtranclp_induct) (auto intro: shc_step.act rtranclp.rtrancl_into_rtrancl)

text \<open>C29: The object behaves as a stream of the command's lines: in every interleaving of its threads,
  each step of either leaves the stream as it is, makes the next line appear, or takes the
  first line that is there. So the lines the user gets are a prefix of what the command
  writes.\<close>

theorem shc_refines_stream:
  assumes "(shc_step h)\<^sup>*\<^sup>* (shc_new cmd) s" "shc_step h s t"
  shows "(stream_of h t = stream_of h s \<or> stream_step (stream_of h s) (stream_of h t)) \<and>
    stream_of h (shc_new cmd) = (command_lines h (shc_new cmd), [], []) \<and>
    stream_step\<^sup>*\<^sup>* (command_lines h (shc_new cmd), [], []) (stream_of h s) \<and>
    (\<exists>rest. command_lines h (shc_new cmd) = got s @ rest)"
proof -
  have new: "stream_of h (shc_new cmd) = (command_lines h (shc_new cmd), [], [])"
    by (simp add: stream_of_def shc_new_def pending_def)
  have "stream_step\<^sup>*\<^sup>* (stream_of h (shc_new cmd)) (stream_of h s)" using assms(1)
  proof (induction rule: rtranclp_induct)
    case (step u v)
    from shc_step_stream [OF reachable_inv [OF step.hyps(1)] step.hyps(2)] step.IH show ?case
      by (auto intro: rtranclp.rtrancl_into_rtrancl)
  qed simp
  moreover have "stream_step\<^sup>=\<^sup>= (stream_of h s) (stream_of h t)"
    by (rule shc_step_stream [OF reachable_inv [OF assms(1)] assms(2)])
  moreover have "\<exists>rest. pending h (shc_new cmd) = got s @ rest"
    by (rule shc_queue.taken_prefix [OF assms(1) new_inv]) (simp_all add: shc_new_def)
  ultimately show ?thesis using new by (auto simp: stream_of_def)
qed

section \<open>A run\<close>

text \<open>A host whose shell writes two lines and ends with status 3.\<close>

definition echo_host :: host where
  "echo_host = \<lparr>host_pipe = Some (9, 3, 4), host_fork = True, host_fds = Map.empty, host_pid = 77,
     host_run = (\<lambda>bin argv. (''a'' @ [newline] @ ''b'', \<lambda>n. (77, 0, 0x300))), host_kill = (\<lambda>target. 0)\<rparr>"

lemma echo_command [simp]: "command_run echo_host s = (''a'' @ [newline] @ ''b'', \<lambda>n. (77, 0, 0x300))"
  by (simp add: command_run_def echo_host_def)

lemma echo_lines [simp]: "command_lines echo_host s = [''a'' @ [newline], ''b'']"
proof -
  have "c_lines (''a'' @ newline # ''b'') = (''a'' @ [newline]) # c_lines ''b''"
    by (rule c_lines_step [OF c_getline_line]) simp
  moreover have "c_lines ''b'' = [''b'']"
    using c_lines_step [of "''b''" "''b''" "[]"] by (simp add: c_getline_def Let_def)
  ultimately show ?thesis by (simp add: command_lines_def)
qed

text \<open>Steps by evaluation.\<close>

lemma act_worker: "failed s = None \<Longrightarrow> run_process h s = Some u \<Longrightarrow> (shc_act h)\<^sup>*\<^sup>* u t \<Longrightarrow> (shc_act h)\<^sup>*\<^sup>* s t"
  by (meson converse_rtranclp_into_rtranclp shc_act.worker_act)

lemma act_call: "failed s = None \<Longrightarrow> caller s = Idle \<Longrightarrow> (shc_act h)\<^sup>*\<^sup>* (call m s) t \<Longrightarrow> (shc_act h)\<^sup>*\<^sup>* s t"
  by (meson converse_rtranclp_into_rtranclp shc_act.call_act)

lemma act_run: "failed s = None \<Longrightarrow> run_shc s = Some u \<Longrightarrow> (shc_act h)\<^sup>*\<^sup>* u t \<Longrightarrow> (shc_act h)\<^sup>*\<^sup>* s t"
  by (meson converse_rtranclp_into_rtranclp shc_act.run_act)

lemma act_finish: "failed s = None \<Longrightarrow> wait_finish s = Some u \<Longrightarrow> (shc_act h)\<^sup>*\<^sup>* u t \<Longrightarrow> (shc_act h)\<^sup>*\<^sup>* s t"
  by (meson converse_rtranclp_into_rtranclp shc_act.finish_act)

text \<open>The object once its command is started, seen by an idle user.\<close>

definition started :: "string \<Rightarrow> shc" where
  "started cmd = (shc_new cmd)\<lparr>running := True, joinable := True, worker := W_popen\<rparr>"

lemma started_reachable: "(shc_act h)\<^sup>*\<^sup>* (shc_new cmd) (started cmd)"
proof -
  have step: "run_shc ((shc_new cmd)\<lparr>joinable := True, worker := W_popen, wp_alive := True, running := True,
      caller := Run_recheck\<rparr>) = Some (started cmd)"
    by (simp add: run_shc_def shc_new_def started_def)
  show ?thesis
    by (rule act_call [where m = Run], simp_all add: shc_new_def call_def,
      rule act_run, simp_all add: run_shc_def,
      rule act_worker, simp_all add: run_process_def,
      rule act_worker, simp_all add: run_process_def,
      rule act_run [OF _ _ rtranclp.rtrancl_refl], simp, use step in \<open>simp add: shc_new_def\<close>)
qed

text \<open>The worker on its own, for at most \<open>n\<close> steps.\<close>

fun worker_run :: "host \<Rightarrow> nat \<Rightarrow> shc \<Rightarrow> shc" where
  "worker_run h 0 s = s"
| "worker_run h (Suc n) s = (case run_process h s of None \<Rightarrow> s
     | Some t \<Rightarrow> if failed s = None then worker_run h n t else s)"

lemma worker_run_reachable: "(shc_act h)\<^sup>*\<^sup>* s (worker_run h n s)"
proof (induction n arbitrary: s)
  case (Suc n)
  then show ?case using act_worker [of s h _ "worker_run h n _"] by (auto split: option.splits)
qed simp

lemmas echo_eval = run_process_def started_def shc_new_def popen2_def eopen_def echo_host_def
  exec_argv_def c_getline_def pclose2_def eclose_def Let_def

lemma echo_started_child:
  "\<exists>child. worker_run echo_host 1 (started cmd) = (started cmd)
     \<lparr>opened := Some (child, \<lambda>n. (77, 0, 0x300)), worker := W_pid (''a'' @ [newline] @ ''b'')\<rparr>"
  by (simp add: echo_eval)

lemma echo_status [simp]: "wexitstatus 0x300 = 3"
  by (simp add: wexitstatus_eq)

lemma echo_run:
  assumes "worker s = W_pid (''a'' @ [newline] @ ''b'')" "opened s = Some (child, \<lambda>n. (77, 0, 0x300))"
    and "failed s = None"
  shows "worker_run echo_host 3 s =
     s\<lparr>pid := 77, output_queue := output_queue s @ [''a'' @ [newline]], worker := W_notify ''b''\<rparr>"
   and "worker_run echo_host 12 s = s\<lparr>running := False, pid := 77, wp_output := {}, wp_finish := {},
     output_queue := output_queue s @ [''a'' @ [newline], ''b''], return_value := Some 3, worker := W_done\<rparr>"
  using assms by (simp_all add: run_process_def c_getline_def pclose2_def eclose_def Let_def
    eval_nat_numeral eclose_loop.simps cstr_def echo_host_def)

text \<open>The object after its command, with the lines in the queue.\<close>

definition finished :: "string \<Rightarrow> (spawned \<times> waits) option \<Rightarrow> shc" where
  "finished cmd ch = (started cmd)\<lparr>running := False, pid := 77, opened := ch,
     output_queue := [''a'' @ [newline], ''b''], return_value := Some 3, worker := W_done\<rparr>"

lemma echo_finished: "\<exists>ch. (shc_act echo_host)\<^sup>*\<^sup>* (shc_new cmd) (finished cmd ch)"
proof -
  obtain child where child: "worker_run echo_host 1 (started cmd) = (started cmd)
     \<lparr>opened := Some (child, \<lambda>n. (77, 0, 0x300)), worker := W_pid (''a'' @ [newline] @ ''b'')\<rparr>"
    using echo_started_child by blast
  let ?s = "worker_run echo_host 1 (started cmd)"
  have "worker_run echo_host 12 ?s = finished cmd (Some (child, \<lambda>n. (77, 0, 0x300)))"
    by (subst echo_run(2) [of _ child]) (simp_all only: child, simp_all add: started_def shc_new_def finished_def)
  moreover have "(shc_act echo_host)\<^sup>*\<^sup>* (shc_new cmd) (worker_run echo_host 12 ?s)"
    using started_reachable worker_run_reachable by (meson rtranclp_trans)
  ultimately show ?thesis by auto
qed

theorem shc_refines_stream_witness:
  "stream_step\<^sup>*\<^sup>* ([''a'' @ [newline], ''b''], [], []) ([], [''a'' @ [newline], ''b''], []) \<and>
   stream_step ([], [''a'' @ [newline], ''b''], []) ([], [''b''], [''a'' @ [newline]])"
proof -
  obtain ch where reach: "(shc_act echo_host)\<^sup>*\<^sup>* (shc_new ''x'') (finished ''x'' ch)"
    using echo_finished by blast
  have "shc_step echo_host (finished ''x'' ch) (call Get_output (finished ''x'' ch))"
    by (intro shc_step.act shc_act.call_act) (simp_all add: finished_def started_def shc_new_def)
  from shc_refines_stream [OF act_reachable [OF reach] this] show ?thesis
    by (simp add: stream_of_def pending_def finished_def started_def shc_new_def call_def get_output_def)
qed

section \<open>A finished command\<close>

text \<open>
  Without wake-ups of their own the waiting threads keep this: until the worker is past its
  first statement, its user is inside \<open>run\<close>.
\<close>

definition starting_inv :: "shc \<Rightarrow> bool" where
  "starting_inv s \<longleftrightarrow> (worker s = W_entry \<longrightarrow>
     caller s \<in> {Run_recheck, Run_wait} \<or> caller s = Run_blocked \<and> 0 \<in> wait_for_start s)"

lemma run_process_starting: "run_process h s = Some t \<Longrightarrow> starting_inv t"
  by (erule run_process_cases) (simp_all add: starting_inv_def)

lemma user_act_starting:
  assumes "starting_inv s" "shc_inv h s" "shc_act h s t"
  shows "starting_inv t"
  using assms(3)
proof cases
  case worker_act
  then show ?thesis by (intro run_process_starting [of h s])
next
  case (call_act m)
  then show ?thesis using assms(1) by (simp add: starting_inv_def)
next
  case run_act
  have entry: "\<not> running s" if "worker s = W_entry"
    using assms(2) that by (simp add: shc_inv_def active_def)
  from run_act(2) show ?thesis
  proof (cases rule: run_shc_cases)
    case returns
    then show ?thesis using entry by (auto simp: starting_inv_def)
  next
    case woken
    then show ?thesis using assms(1) by (auto simp: starting_inv_def)
  qed (use assms(1) in \<open>simp_all add: starting_inv_def\<close>)
next
  case output_act
  from output_act(2) show ?thesis
    by (cases rule: wait_output_cases) (use assms(1) in \<open>auto simp: starting_inv_def\<close>)
next
  case finish_act
  from finish_act(2) show ?thesis
    by (cases rule: wait_finish_cases) (use assms(1) in \<open>auto simp: starting_inv_def\<close>)
next
  case join_act
  from join_shc_cases [OF join_act(2)] show ?thesis using assms(1)
    by (elim disjE conjE) (simp_all add: starting_inv_def)
next
  case kill_act
  from kill_act(2) show ?thesis
    by (cases rule: kill_int_cases) (use assms(1) in \<open>auto simp: starting_inv_def\<close>)
qed

interpretation shc_start: invariant_system "shc_act h" "\<lambda>s. starting_inv s \<and> shc_inv h s" for h
  by unfold_locales (use user_act_starting shc_step_inv shc_step.act in blast)

text \<open>C30: Where no waiting thread wakes up on its own: a user who has started the command (the thread of the object is
  joinable), is in none of its operations and finds \<open>running\<close> false has in \<open>return_value\<close> bits 8 to 15 of the
  status the command was waited for with, its exit status if it exited, and every line it wrote is in the queue
  or was taken, in order.\<close>

theorem finished_value:
  assumes "(shc_act h)\<^sup>*\<^sup>* (shc_new cmd) s" "caller s = Idle" "joinable s" "\<not> running s"
  shows "\<exists>stat. eclose_loop (snd (command_run h (shc_new cmd))) 0 = Some stat \<and>
    return_value s = Some (uint stat div 256 mod 256) \<and>
    got s @ output_queue s = command_lines h (shc_new cmd)"
proof -
  note reach = act_reachable [OF assms(1)]
  have inv: "shc_inv h s" "starting_inv s"
    using shc_start.run_inv [OF assms(1)] new_inv [of h cmd] by (auto simp: starting_inv_def shc_new_def)
  have "worker s \<notin> {W_none, W_entry}" "\<not> active (worker s)"
    using inv assms(2-4) by (auto simp: shc_inv_def starting_inv_def)
  then have status: "with_status (worker s)" "pending h s = []"
    by (cases "worker s"; simp add: active_def pending_def)+
  have "command_run h s = command_run h (shc_new cmd)"
    by (rule command_run_cong) (simp add: reachable_command [OF reach] shc_new_def)
  then obtain stat where "eclose_loop (snd (command_run h (shc_new cmd))) 0 = Some stat"
    "return_value s = Some (wexitstatus stat)"
    using inv(1) status(1) by (auto simp: shc_inv_def exit_code_def)
  moreover have "got s @ output_queue s = pending h (shc_new cmd)"
    by (rule shc_queue.taken_all [OF reach new_inv _ _ status(2)]) (simp_all add: shc_new_def)
  ultimately show ?thesis by (simp add: wexitstatus_eq pending_def shc_new_def)
qed

theorem finished_value_witness:
  "\<exists>s. (shc_act echo_host)\<^sup>*\<^sup>* (shc_new ''x'') s \<and> caller s = Idle \<and> return_value s = Some 3 \<and>
     got s @ output_queue s = [''a'' @ [newline], ''b'']"
proof -
  obtain ch where reach: "(shc_act echo_host)\<^sup>*\<^sup>* (shc_new ''x'') (finished ''x'' ch)"
    using echo_finished by blast
  have idle: "caller (finished ''x'' ch) = Idle" "joinable (finished ''x'' ch)" "\<not> running (finished ''x'' ch)"
    by (simp_all add: finished_def started_def shc_new_def)
  from finished_value [OF reach idle] have "return_value (finished ''x'' ch) = Some 3 \<and>
     got (finished ''x'' ch) @ output_queue (finished ''x'' ch) = [''a'' @ [newline], ''b'']"
    by (auto simp: eclose_loop.simps)
  with reach idle(1) show ?thesis by blast
qed

section \<open>The worker ends\<close>

text \<open>A bound on the steps left to the worker; \<open>all\<close> is what the command writes.\<close>

fun worker_rank :: "string \<Rightarrow> worker_pc \<Rightarrow> nat" where
  "worker_rank all W_none = 0"
| "worker_rank all W_entry = 3 * length all + 9"
| "worker_rank all W_notify_start = 3 * length all + 8"
| "worker_rank all W_popen = 3 * length all + 7"
| "worker_rank all (W_pid bytes) = 3 * length bytes + 6"
| "worker_rank all (W_read bytes) = 3 * length bytes + 5"
| "worker_rank all (W_push line rest) = 3 * length rest + 7"
| "worker_rank all (W_notify rest) = 3 * length rest + 6"
| "worker_rank all W_close = 4"
| "worker_rank all W_clear = 3"
| "worker_rank all W_notify_output = 2"
| "worker_rank all W_notify_finish = 1"
| "worker_rank all W_done = 0"

definition rank :: "host \<Rightarrow> shc \<Rightarrow> nat" where
  "rank h s = worker_rank (fst (command_run h s)) (worker s)"

inductive worker_step :: "host \<Rightarrow> shc \<Rightarrow> shc \<Rightarrow> bool" for h where
  "failed s = None \<Longrightarrow> run_process h s = Some t \<Longrightarrow> worker_step h s t"

lemma rank_decreases:
  assumes "run_process h s = Some t"
  shows "failed t \<noteq> None \<and> worker t = worker s \<or> rank h t < rank h s"
  using assms
proof (cases rule: run_process_cases)
  case (line bytes l rest)
  from c_getline_split [OF line(2)] have "length rest < length bytes" by simp
  with line show ?thesis by (simp add: rank_def)
qed (simp_all add: rank_def command_run_def)

lemma worker_enabled:
  assumes "shc_inv h s" "worker s \<notin> {W_none, W_done}" "eclose_loop (snd (command_run h s)) 0 \<noteq> None"
  shows "\<exists>t. run_process h s = Some t"
proof (cases "worker s")
  case W_close
  then obtain child where "opened s = Some (child, snd (command_run h s))"
    using assms(1) by (auto simp: shc_inv_def)
  then show ?thesis using W_close assms(3)
    by (auto simp: run_process_def pclose2_def eclose_def Let_def split: option.splits)
qed (use assms(2) in \<open>simp_all add: run_process_def\<close>)

lemma worker_step_shc: "worker_step h s t \<Longrightarrow> shc_step h s t"
  by (auto elim!: worker_step.cases intro: shc_step.act shc_act.worker_act)

lemma worker_runs_out:
  assumes "shc_inv h s" "failed s = None" "worker s \<noteq> W_none"
    and "eclose_loop (snd (command_run h s)) 0 \<noteq> None"
  shows "\<exists>t. (worker_step h)\<^sup>*\<^sup>* s t \<and> (worker t = W_done \<or> failed t \<noteq> None)"
  using assms
proof (induction "rank h s" arbitrary: s rule: less_induct)
  case less
  show ?case
  proof (cases "worker s = W_done")
    case False
    then obtain t where t: "run_process h s = Some t"
      using worker_enabled [OF less.prems(1)] less.prems(3, 4) by blast
    then have step: "worker_step h s t" using less.prems(2) by (intro worker_step.intros)
    show ?thesis
    proof (cases "failed t = None")
      case True
      then have rank: "rank h t < rank h s" using rank_decreases [OF t] by simp
      have inv: "shc_inv h t" using run_process_inv [OF less.prems(1) t] .
      have run: "command_run h t = command_run h s"
        by (rule command_run_cong [OF run_process_command [OF t]])
      have "worker t \<noteq> W_none" using t less.prems(3) by (cases rule: run_process_cases) simp_all
      then obtain u where "(worker_step h)\<^sup>*\<^sup>* t u" "worker u = W_done \<or> failed u \<noteq> None"
        using less.hyps [OF rank inv True] less.prems(4) run by auto
      with step show ?thesis by (meson converse_rtranclp_into_rtranclp)
    qed (use step in blast)
  qed blast
qed

lemma worker_steps_bounded:
  assumes "\<forall>i < n. worker_step h (f i) (f (Suc i))" "failed (f n) = None"
  shows "n + rank h (f n) \<le> rank h (f 0)"
  using assms
proof (induction n)
  case (Suc n)
  have step: "worker_step h (f n) (f (Suc n))" using Suc.prems(1) by simp
  then have "failed (f n) = None" "run_process h (f n) = Some (f (Suc n))"
    by (auto elim: worker_step.cases)
  with Suc rank_decreases [of h "f n" "f (Suc n)"] show ?case by simp
qed simp

lemma rank_bound:
  assumes "(shc_step h)\<^sup>*\<^sup>* (shc_new cmd) s"
  shows "rank h s \<le> 3 * length (fst (command_run h s)) + 9"
  using assms
proof (induction rule: rtranclp_induct)
  case base
  show ?case by (simp add: rank_def shc_new_def)
next
  case (step s t)
  have "command_run h t = command_run h s"
    using step.hyps(2) reachable_command [OF step.hyps(1)]
      reachable_command [OF rtranclp.rtrancl_into_rtrancl [OF step.hyps]]
    by (intro command_run_cong) simp
  moreover have "rank h t \<le> rank h s \<or> worker t = W_entry"
  proof (cases "run_process h s = Some t")
    case True
    from rank_decreases [OF this] show ?thesis
      using command_run_cong [OF run_process_command [OF True]] by (auto simp: rank_def)
  next
    case False
    then have user: "user_step s t" using shc_step_split [OF step.hyps(2)] by blast
    have run: "command_run h t = command_run h s"
      using user_step_effect [OF user] by (intro command_run_cong) (simp add: worker_part_def)
    from user_step_effect [OF user] run show ?thesis by (auto simp: rank_def)
  qed
  ultimately show ?case using step.IH by (auto simp: rank_def)
qed

text \<open>C31: The thread of a started command comes to its end, if only it is given its steps and some \<open>waitpid\<close> for
  the command is not interrupted: it takes at most nine steps and three for each byte the
  command writes, and no statement but the wait can block it.\<close>

theorem worker_finishes:
  assumes "(shc_step h)\<^sup>*\<^sup>* (shc_new cmd) s" "joinable s" "failed s = None"
    and "\<not> interrupted (snd (command_run h (shc_new cmd)) n)"
  shows "(\<exists>t. (worker_step h)\<^sup>*\<^sup>* s t \<and> (worker t = W_done \<or> failed t \<noteq> None)) \<and>
    (\<forall>f k. f 0 = s \<and> (\<forall>i < k. worker_step h (f i) (f (Suc i))) \<and> failed (f k) = None \<longrightarrow>
       k \<le> 3 * length (fst (command_run h (shc_new cmd))) + 9)"
proof
  have run: "command_run h s = command_run h (shc_new cmd)"
    by (rule command_run_cong) (simp add: reachable_command [OF assms(1)] shc_new_def)
  note inv = reachable_inv [OF assms(1)]
  show "\<exists>t. (worker_step h)\<^sup>*\<^sup>* s t \<and> (worker t = W_done \<or> failed t \<noteq> None)"
    by (rule worker_runs_out [OF inv assms(3)])
      (use inv assms(2, 4) run eclose_exists [of "snd (command_run h s)"] in \<open>auto simp: shc_inv_def\<close>)
  show "\<forall>f k. f 0 = s \<and> (\<forall>i < k. worker_step h (f i) (f (Suc i))) \<and> failed (f k) = None \<longrightarrow>
      k \<le> 3 * length (fst (command_run h (shc_new cmd))) + 9"
  proof (intro allI impI, elim conjE)
    fix f k
    assume "f 0 = s" "\<forall>i < k. worker_step h (f i) (f (Suc i))" "failed (f k) = None"
    with worker_steps_bounded [of k h f] rank_bound [OF assms(1)] run
    show "k \<le> 3 * length (fst (command_run h (shc_new cmd))) + 9" by simp
  qed
qed

theorem worker_finishes_witness:
  "\<exists>t. (worker_step echo_host)\<^sup>*\<^sup>* (started ''x'') t \<and> (worker t = W_done \<or> failed t \<noteq> None)"
proof -
  have "joinable (started ''x'')" "failed (started ''x'') = None"
    "\<not> interrupted (snd (command_run echo_host (shc_new ''x'')) 0)"
    by (simp_all add: started_def shc_new_def interrupted_def)
  from worker_finishes [OF act_reachable [OF started_reachable] this] show ?thesis by (rule conjunct1)
qed

section \<open>Races\<close>

text \<open>
  A user that blocks in \<open>run\<close> or in \<open>wait_finish\<close> after the worker's last notification for it
  stays there.
\<close>

definition missed_start :: "shc \<Rightarrow> bool" where
  "missed_start s \<longleftrightarrow> caller s = Run_blocked \<and> 0 \<in> wait_for_start s \<and>
     worker s \<notin> {W_none, W_entry, W_notify_start}"

definition missed_finish :: "shc \<Rightarrow> bool" where
  "missed_finish s \<longleftrightarrow> caller s = Finish_blocked \<and> 0 \<in> wp_finish s \<and> worker s = W_done"

lemma run_process_missed_start: "run_process h s = Some t \<Longrightarrow> missed_start s \<Longrightarrow> missed_start t"
  by (erule run_process_cases) (simp_all add: missed_start_def)

lemma missed_start_keeps: "missed_start s \<Longrightarrow> shc_act h s t \<Longrightarrow> missed_start t"
  by (erule shc_act.cases)
    (simp_all add: run_process_missed_start, simp_all add: missed_start_def run_shc_def wait_output_def
      wait_finish_def
      join_shc_def kill_int_def)

lemma missed_finish_keeps: "missed_finish s \<Longrightarrow> shc_act h s t \<Longrightarrow> missed_finish t"
  by (erule shc_act.cases)
    (simp_all add: missed_finish_def run_process_def run_shc_def wait_output_def wait_finish_def
      join_shc_def kill_int_def)

interpretation shc_missed: invariant_system "shc_act h" missed_start for h
  by unfold_locales (rule missed_start_keeps)

interpretation shc_finish_missed: invariant_system "shc_act h" missed_finish for h
  by unfold_locales (rule missed_finish_keeps)

lemma blocked_for_ever:
  "missed_start s \<Longrightarrow> \<not> (\<exists>t. (shc_act h)\<^sup>*\<^sup>* s t \<and> caller t \<noteq> Run_blocked)"
  using shc_missed.run_inv [of h s] by (auto simp: missed_start_def)

text \<open>The states at the start of a command: its thread exists and has done nothing.\<close>

definition starting :: "string \<Rightarrow> caller_pc \<Rightarrow> shc" where
  "starting cmd pc = (shc_new cmd)\<lparr>joinable := True, worker := W_entry, wp_alive := True, caller := pc\<rparr>"

lemma starting_reachable:
  "(shc_act h)\<^sup>*\<^sup>* (shc_new cmd) (starting cmd Run_recheck)" (is ?recheck)
  "(shc_act h)\<^sup>*\<^sup>* (shc_new cmd) (starting cmd Run_wait)" (is ?wait)
proof -
  show r: ?recheck
    by (rule act_call [where m = Run], simp_all add: shc_new_def call_def,
      rule act_run, simp_all add: run_shc_def starting_def shc_new_def, rule rtranclp.rtrancl_refl)
  have "shc_act h (starting cmd Run_recheck) (starting cmd Run_wait)"
    by (rule shc_act.run_act) (simp_all add: starting_def shc_new_def run_shc_def)
  with r show ?wait by (rule rtranclp.rtrancl_into_rtrancl)
qed

lemma start_missed: "\<exists>s. (shc_act h)\<^sup>*\<^sup>* (shc_new cmd) s \<and> missed_start s"
proof -
  let ?s = "(starting cmd Run_blocked)\<lparr>running := True, worker := W_popen, wait_for_start := {0}\<rparr>"
  have "(shc_act h)\<^sup>*\<^sup>* (starting cmd Run_wait) ?s"
    by (rule act_worker, simp_all add: starting_def shc_new_def run_process_def,
      rule act_worker, simp_all add: run_process_def,
      rule act_run, simp_all add: run_shc_def, rule rtranclp.rtrancl_refl)
  with starting_reachable(2) have "(shc_act h)\<^sup>*\<^sup>* (shc_new cmd) ?s" by (rule rtranclp_trans)
  then show ?thesis
    by (intro exI [of _ ?s] conjI) (simp_all add: missed_start_def starting_def shc_new_def)
qed

lemma pool_dangles: "\<exists>s. (shc_act h)\<^sup>*\<^sup>* (shc_new cmd) s \<and> failed s = Some Dangling_pool"
proof -
  let ?s = "(starting cmd Idle)\<lparr>running := True, worker := W_notify_start, wp_alive := False,
    failed := Some Dangling_pool\<rparr>"
  have "(shc_act h)\<^sup>*\<^sup>* (starting cmd Run_recheck) ?s"
    by (rule act_worker, simp_all add: starting_def shc_new_def run_process_def,
      rule act_run, simp_all add: run_shc_def,
      rule act_worker, simp_all add: run_process_def, rule rtranclp.rtrancl_refl)
  with starting_reachable(1) have "(shc_act h)\<^sup>*\<^sup>* (shc_new cmd) ?s" by (rule rtranclp_trans)
  then show ?thesis by (intro exI [of _ ?s] conjI) (simp_all add: starting_def shc_new_def)
qed

lemma woken_early:
  "\<exists>s. (shc_step h)\<^sup>*\<^sup>* (shc_new cmd) s \<and> caller s = Idle \<and> joinable s \<and> \<not> running s \<and> return_value s = None"
proof -
  let ?b = "(starting cmd Run_blocked)\<lparr>wait_for_start := {0}\<rparr>"
  let ?w = "starting cmd Run_blocked"
  let ?s = "(starting cmd Idle)\<lparr>wp_alive := False\<rparr>"
  have "(shc_step h)\<^sup>*\<^sup>* (shc_new cmd) (starting cmd Run_wait)"
    by (rule act_reachable [OF starting_reachable(2)])
  moreover have "shc_step h (starting cmd Run_wait) ?b"
    by (intro shc_step.act shc_act.run_act) (simp_all add: starting_def shc_new_def run_shc_def)
  moreover have "shc_step h ?b ?w"
  proof -
    have "shc_step h ?b (?b\<lparr>wait_for_start := {}\<rparr>)"
      by (rule shc_step.woken_start) (auto simp: starting_def shc_new_def wake.simps)
    then show ?thesis by (simp add: starting_def shc_new_def)
  qed
  moreover have "shc_step h ?w ?s"
    by (intro shc_step.act shc_act.run_act) (simp_all add: starting_def shc_new_def run_shc_def)
  ultimately have "(shc_step h)\<^sup>*\<^sup>* (shc_new cmd) ?s" by (meson rtranclp.rtrancl_into_rtrancl)
  then show ?thesis by (intro exI [of _ ?s] conjI) (simp_all add: starting_def shc_new_def)
qed

text \<open>C32: \<open>run\<close> tests \<open>running\<close> and then waits without a lock or a loop. So, for every command: the
  notification of the worker can come between the two, and the user is blocked for ever unless
  the condition variable wakes up on its own; the worker can set \<open>running\<close> before the test, and
  then notifies a pool that is gone with the call; and a wake-up without a notification ends
  \<open>run\<close> before the command has started, an object that looks finished with no return value.\<close>

theorem run_races:
  "(\<exists>s. (shc_act h)\<^sup>*\<^sup>* (shc_new cmd) s \<and> caller s = Run_blocked \<and>
      \<not> (\<exists>t. (shc_act h)\<^sup>*\<^sup>* s t \<and> caller t \<noteq> Run_blocked)) \<and>
   (\<exists>s. (shc_act h)\<^sup>*\<^sup>* (shc_new cmd) s \<and> failed s = Some Dangling_pool) \<and>
   (\<exists>s. (shc_step h)\<^sup>*\<^sup>* (shc_new cmd) s \<and> caller s = Idle \<and> joinable s \<and> \<not> running s \<and>
      return_value s = None)"
proof (intro conjI pool_dangles woken_early)
  obtain s where s: "(shc_act h)\<^sup>*\<^sup>* (shc_new cmd) s" "missed_start s" using start_missed by blast
  with blocked_for_ever [OF s(2)] show "\<exists>s. (shc_act h)\<^sup>*\<^sup>* (shc_new cmd) s \<and> caller s = Run_blocked \<and>
      \<not> (\<exists>t. (shc_act h)\<^sup>*\<^sup>* s t \<and> caller t \<noteq> Run_blocked)"
    by (auto simp: missed_start_def)
qed


lemma finish_missed:
  "\<exists>s. (shc_act echo_host)\<^sup>*\<^sup>* (shc_new cmd) s \<and> caller s = Finish_blocked \<and>
     \<not> (\<exists>t. (shc_act echo_host)\<^sup>*\<^sup>* s t \<and> caller t \<noteq> Finish_blocked)"
proof -
  obtain child where child: "worker_run echo_host 1 (started cmd) = (started cmd)
     \<lparr>opened := Some (child, \<lambda>n. (77, 0, 0x300)), worker := W_pid (''a'' @ [newline] @ ''b'')\<rparr>"
    using echo_started_child by blast
  define u where "u = (started cmd)\<lparr>opened := Some (child, \<lambda>n. (77, 0, 0x300)),
    worker := W_pid (''a'' @ [newline] @ ''b''), caller := Finish_wait\<rparr>"
  define w where "w = worker_run echo_host 12 u"
  define s where "s = w\<lparr>wp_finish := {0}, caller := Finish_blocked\<rparr>"
  have u: "worker u = W_pid (''a'' @ [newline] @ ''b'')" "opened u = Some (child, \<lambda>n. (77, 0, 0x300))"
    "failed u = None" by (simp_all add: u_def started_def shc_new_def)
  from echo_run(2) [OF u] have w: "w = u\<lparr>running := False, pid := 77, wp_output := {}, wp_finish := {},
     output_queue := output_queue u @ [''a'' @ [newline], ''b''], return_value := Some 3, worker := W_done\<rparr>"
    by (simp only: w_def)
  have "(shc_act echo_host)\<^sup>*\<^sup>* (shc_new cmd) (worker_run echo_host 1 (started cmd))"
    using started_reachable worker_run_reachable by (meson rtranclp_trans)
  moreover have "(shc_act echo_host)\<^sup>*\<^sup>* (worker_run echo_host 1 (started cmd)) u" unfolding child
    by (rule act_call [where m = Wait_finish], simp_all add: started_def shc_new_def call_def,
      rule act_finish, simp_all add: wait_finish_def u_def started_def shc_new_def,
      rule rtranclp.rtrancl_refl)
  moreover have "(shc_act echo_host)\<^sup>*\<^sup>* u w" unfolding w_def by (rule worker_run_reachable)
  moreover have "shc_act echo_host w s"
    by (rule shc_act.finish_act)
      (simp_all add: s_def w u_def started_def shc_new_def wait_finish_def)
  ultimately have reach: "(shc_act echo_host)\<^sup>*\<^sup>* (shc_new cmd) s"
    by (meson rtranclp_trans rtranclp.rtrancl_into_rtrancl)
  have "missed_finish s"
    by (simp add: missed_finish_def s_def w u_def started_def shc_new_def)
  then have "\<not> (\<exists>t. (shc_act echo_host)\<^sup>*\<^sup>* s t \<and> caller t \<noteq> Finish_blocked)" "caller s = Finish_blocked"
    using shc_finish_missed.run_inv [of echo_host s] by (auto simp: missed_finish_def)
  with reach show ?thesis by blast
qed

section \<open>Signals and the end of the object\<close>

lemma signals_keep:
  assumes "shc_inv h s" "set (signals s) \<subseteq> {0, host_pid h}" "shc_step h s t"
  shows "set (signals t) \<subseteq> {0, host_pid h}"
proof (cases "run_process h s = Some t")
  case True
  then show ?thesis using assms(2) by (cases rule: run_process_cases) simp_all
next
  case False
  then have "user_step s t" using shc_step_split [OF assms(3)] by blast
  then show ?thesis
  proof cases
    case (1 m)
    have "pid s \<in> {0, host_pid h}" using assms(1) by (auto simp: shc_inv_def)
    with 1 assms(2) show ?thesis
      by (cases m) (auto simp: call_def get_output_def split: list.splits)
  next
    case 2
    then show ?thesis using assms(2) by (cases rule: run_shc_cases) simp_all
  next
    case 3
    then show ?thesis using assms(2) by (cases rule: wait_output_cases) simp_all
  next
    case 4
    then show ?thesis using assms(2) by (cases rule: wait_finish_cases) simp_all
  next
    case 5
    from join_shc_cases [OF this] show ?thesis using assms(2) by (elim disjE conjE) simp_all
  next
    case (9 g)
    have "pid s \<in> {0, host_pid h}" using assms(1) by (auto simp: shc_inv_def)
    from 9 show ?thesis by (cases rule: kill_int_cases) (use assms(2) \<open>pid s \<in> {0, host_pid h}\<close> in auto)
  qed (use assms(2) in simp_all)
qed

text \<open>A signal goes to the command of the object or to number 0, the user's own process group; past the statement
  that stores the number of the command it goes to that. There is, for every command, an interleaving in which
  it goes to number 0, since \<open>running\<close> is set before the command is started.\<close>

theorem kill_target:
  assumes "(shc_step h)\<^sup>*\<^sup>* (shc_new cmd) s"
  shows "set (signals s) \<subseteq> {0, host_pid h} \<and>
    (worker s \<noteq> W_none \<and> \<not> before_pid (worker s) \<and> running s \<and> caller s = Kill_signal dying \<longrightarrow>
       kill_int h s = Some (s\<lparr>signals := signals s @ [host_pid h], results := results s @ [host_kill h (host_pid h)],
         caller := after_kill dying\<rparr>)) \<and>
    (\<exists>t. (shc_act h)\<^sup>*\<^sup>* (shc_new cmd) t \<and> signals t = [0] \<and> caller t = Idle)"
proof (intro conjI)
  show "set (signals s) \<subseteq> {0, host_pid h}" using assms
  proof (induction rule: rtranclp_induct)
    case base
    show ?case by (simp add: shc_new_def)
  next
    case (step s t)
    from signals_keep [OF reachable_inv [OF step.hyps(1)] step.IH step.hyps(2)] show ?case .
  qed
  show "worker s \<noteq> W_none \<and> \<not> before_pid (worker s) \<and> running s \<and> caller s = Kill_signal dying \<longrightarrow>
       kill_int h s = Some (s\<lparr>signals := signals s @ [host_pid h], results := results s @ [host_kill h (host_pid h)],
         caller := after_kill dying\<rparr>)"
    using reachable_inv [OF assms] by (auto simp: kill_int_def shc_inv_def)
  let ?u = "(started cmd)\<lparr>caller := Kill_running False\<rparr>"
  let ?v = "(started cmd)\<lparr>caller := Kill_signal False\<rparr>"
  let ?t = "(started cmd)\<lparr>signals := [0], results := [host_kill h 0]\<rparr>"
  have "shc_act h (started cmd) (call Kill_int (started cmd))"
    by (rule shc_act.call_act) (simp_all add: started_def shc_new_def)
  then have "shc_act h (started cmd) ?u" by (simp add: call_def)
  moreover have "shc_act h ?u ?v" "shc_act h ?v ?t"
    by (rule shc_act.kill_act; simp add: kill_int_def after_kill_def started_def shc_new_def)+
  ultimately have "(shc_act h)\<^sup>*\<^sup>* (shc_new cmd) ?t"
    using started_reachable [of h cmd] by (meson rtranclp.rtrancl_into_rtrancl)
  then show "\<exists>t. (shc_act h)\<^sup>*\<^sup>* (shc_new cmd) t \<and> signals t = [0] \<and> caller t = Idle"
    by (intro exI [of _ ?t]) (simp add: started_def shc_new_def)
qed

theorem kill_target_witness:
  "\<exists>s. (shc_act echo_host)\<^sup>*\<^sup>* (shc_new ''x'') s \<and> set (signals s) \<subseteq> {0, 77} \<and> signals s \<noteq> []"
proof -
  obtain t where "(shc_act echo_host)\<^sup>*\<^sup>* (shc_new ''x'') t" "signals t = [0]"
    using kill_target [OF act_reachable [OF started_reachable [of echo_host "''x''"]]] by blast
  then show ?thesis by (intro exI [of _ t]) simp
qed

text \<open>An object whose command was never started cannot be destroyed, nor run twice.\<close>

lemma destroy_unstarted: "\<exists>s. (shc_act h)\<^sup>*\<^sup>* (shc_new cmd) s \<and> failed s = Some Terminate"
proof -
  let ?s = "(shc_new cmd)\<lparr>caller := Join, failed := Some Terminate\<rparr>"
  have "call Destroy (shc_new cmd) = (shc_new cmd)\<lparr>caller := Join\<rparr>"
    by (simp add: call_def shc_new_def)
  then have "(shc_act h)\<^sup>*\<^sup>* (shc_new cmd) ((shc_new cmd)\<lparr>caller := Join\<rparr>)"
    using shc_act.call_act [of "shc_new cmd" h Destroy] by (auto simp: shc_new_def)
  moreover have "shc_act h ((shc_new cmd)\<lparr>caller := Join\<rparr>) ?s"
    by (rule shc_act.join_act) (simp_all add: shc_new_def join_shc_def)
  ultimately have "(shc_act h)\<^sup>*\<^sup>* (shc_new cmd) ?s" by (rule rtranclp.rtrancl_into_rtrancl)
  then show ?thesis by (intro exI [of _ ?s]) simp
qed

lemma run_twice:
  "caller s = Idle \<Longrightarrow> joinable s \<Longrightarrow> \<not> running s \<Longrightarrow> run_shc (call Run s) = Some t \<Longrightarrow>
     failed t = Some Terminate"
  by (auto simp: call_def run_shc_def)

end
