(* ===== verification/Socket.thy ===== *)
theory Socket
  imports Prelude
begin

text \<open>
  TCP sockets (src/src/socket.cpp, src/include/socket.hpp), one call at a time: the base class,
  the server, the server's connections and the client. A derived class is an extension of
  the record of its base class. What the operating system answers is an argument of the
  operation; \<open>events\<close> records the calls made to it. Bytes are characters.
\<close>

section \<open>The base class\<close>

type_synonym byte = char

datatype event =
    Closed int
  | Sent int "byte list"
  | Notified
  | Bound int
  | Listened int int

record socket =
  m_fd :: int
  m_operational :: bool
  m_parallel :: bool
  m_thread :: bool
  m_dataSet :: "byte list list"
  events :: "event list"

definition socket_new :: socket where
  "socket_new = \<lparr>m_fd = -1, m_operational = False, m_parallel = False, m_thread = False,
     m_dataSet = [], events = []\<rparr>"

definition record_event :: "event \<Rightarrow> 'a socket_scheme \<Rightarrow> 'a socket_scheme" where
  "record_event e s = s\<lparr>events := events s @ [e]\<rparr>"

text \<open>Lines 110-125. The thread is detached where it is made, so deleting its object ends nothing.\<close>

definition parallelOff :: "'a socket_scheme \<Rightarrow> 'a socket_scheme" where
  "parallelOff s = record_event Notified (s\<lparr>m_parallel := False, m_thread := False\<rparr>)"

definition killParallel :: "'a socket_scheme \<Rightarrow> 'a socket_scheme" where
  "killParallel s = (if m_thread s then s\<lparr>m_parallel := False, m_thread := False\<rparr> else s)"

definition close_socket :: "'a socket_scheme \<Rightarrow> 'a socket_scheme" where
  "close_socket s =
     (let s = s\<lparr>m_operational := False\<rparr>;
          s = record_event (Closed (m_fd s)) s;
          s = s\<lparr>m_fd := -1\<rparr>
      in parallelOff s)"

definition destroy_socket :: "'a socket_scheme \<Rightarrow> 'a socket_scheme" where
  "destroy_socket s = close_socket (killParallel s)"

text \<open>
  \<open>send_string\<close> and \<open>send_data\<close> (lines 37-73), given the result of \<open>send\<close>. A string is sent
  with the NUL behind it; data is an array of at least the given size. The event has the bytes that
  \<open>send\<close> accepted, which may be fewer than it was given; the code only tests for a failure.
\<close>

definition send_bytes :: "int \<Rightarrow> byte list \<Rightarrow> 'a socket_scheme \<Rightarrow> bool \<times> 'a socket_scheme" where
  "send_bytes sent bytes s =
     (if m_fd s < 0 \<or> \<not> m_operational s then (False, s)
      else (let s = record_event (Sent (m_fd s) (take (nat sent) bytes)) s
            in if sent < 0 then (False, close_socket s) else (True, s)))"

definition send_string :: "int \<Rightarrow> string \<Rightarrow> 'a socket_scheme \<Rightarrow> bool \<times> 'a socket_scheme" where
  "send_string sent str s = send_bytes sent (str @ [nul]) s"

definition send_data :: "int \<Rightarrow> byte list \<Rightarrow> 32 word \<Rightarrow> 'a socket_scheme \<Rightarrow> bool \<times> 'a socket_scheme" where
  "send_data sent data len s = send_bytes sent (take (unat len) data) s"

text \<open>
  \<open>read_string\<close> (lines 49-61), given what \<open>read\<close> stores, \<open>None\<close> when it fails: at most 255
  bytes in an array of 256 zeros, which is then read as a C string.
\<close>

definition read_string :: "byte list option \<Rightarrow> 'a socket_scheme \<Rightarrow> string \<times> 'a socket_scheme" where
  "read_string got s =
     (if m_fd s < 0 \<or> \<not> m_operational s then ([], s)
      else case got of
        None \<Rightarrow> ([], close_socket s)
      | Some bytes \<Rightarrow>
          let bytes = take 255 bytes
          in if bytes = [] then ([], close_socket s)
             else (cstr (bytes @ replicate (256 - length bytes) nul), record_event Notified s))"

text \<open>
  \<open>read_data\<close> (lines 75-87): the array, of the length the caller gives, and the result of
  \<open>read\<close>, -1 when it fails, kept in an unsigned integer of 32 bits. \<open>read_into\<close> is what follows
  the test of the socket.
\<close>

definition read_result :: "byte list option \<Rightarrow> nat \<Rightarrow> int" where
  "read_result got len = (case got of None \<Rightarrow> -1 | Some bytes \<Rightarrow> int (length (take len bytes)))"

definition read_into :: "byte list option \<Rightarrow> byte list \<Rightarrow> 32 word \<Rightarrow> 'a socket_scheme
    \<Rightarrow> bool \<times> byte list \<times> 32 word \<times> 'a socket_scheme" where
  "read_into got data len s =
     (let n = (word_of_int (read_result got (unat len)) :: 32 word);
          data = (case got of None \<Rightarrow> data
                  | Some bytes \<Rightarrow> take (unat len) bytes @ drop (length (take (unat len) bytes)) data)
      in if n \<le> 0 then (False, data, len, close_socket s)
         else (True, data, n, s))"

definition read_data :: "byte list option \<Rightarrow> byte list \<Rightarrow> 32 word \<Rightarrow> 'a socket_scheme
    \<Rightarrow> bool \<times> byte list \<times> 32 word \<times> 'a socket_scheme" where
  "read_data got data len s =
     (if m_fd s < 0 \<or> \<not> m_operational s then (False, data, len, s)
      else read_into got data len s)"

definition retrieve :: "'a socket_scheme \<Rightarrow> byte list \<times> 'a socket_scheme" where
  "retrieve s = (case m_dataSet s of
     ret # rest \<Rightarrow> (ret, s\<lparr>m_dataSet := rest\<rparr>)
   | [] \<Rightarrow> ([], s))"

text \<open>\<open>parallel_on\<close> (lines 100-108); the first component tells whether a thread is started.\<close>

definition parallel_on :: "'a socket_scheme \<Rightarrow> bool \<times> 'a socket_scheme" where
  "parallel_on s =
     (if \<not> m_parallel s then (True, s\<lparr>m_parallel := True, m_thread := True\<rparr>) else (False, s))"

definition data_available :: "'a socket_scheme \<Rightarrow> bool" where
  "data_available s = (length (m_dataSet s) > 0)"

section \<open>TCP sockets\<close>

text \<open>Lines 159-168, given the result of \<open>socket\<close>.\<close>

definition init_tcp :: "int \<Rightarrow> 'a socket_scheme \<Rightarrow> bool \<times> 'a socket_scheme" where
  "init_tcp fd s = (let s = s\<lparr>m_fd := fd\<rparr> in (m_fd s \<ge> 0, s))"

text \<open>
  Addresses, with the port and the address in network order; \<open>htons\<close> and \<open>ntohs\<close> on a machine
  that stores the low byte first.
\<close>

record sockaddr =
  sin_family :: nat
  sin_port :: "16 word"
  sin_addr :: "byte list"

definition AF_INET :: nat where "AF_INET = 2"
definition AF_INET6 :: nat where "AF_INET6 = 10"

definition sizeof_sockaddr_in :: nat where "sizeof_sockaddr_in = 16"

definition htons :: "16 word \<Rightarrow> 16 word" where
  "htons x = or (push_bit 8 x) (drop_bit 8 x)"

definition ntohs :: "16 word \<Rightarrow> 16 word" where
  "ntohs x = htons x"

definition INADDR_ANY :: "byte list" where
  "INADDR_ANY = [nul, nul, nul, nul]"

definition sockaddr_zero :: sockaddr where
  "sockaddr_zero = \<lparr>sin_family = 0, sin_port = 0, sin_addr = INADDR_ANY\<rparr>"

subsection \<open>Servers\<close>

record tcpsocket_server = socket +
  m_listening :: bool
  m_port :: "16 word"
  m_servaddr :: sockaddr

definition server_new :: tcpsocket_server where
  "server_new = socket.extend socket_new
     \<lparr>m_listening = False, m_port = 0, m_servaddr = sockaddr_zero\<rparr>"

text \<open>
  \<open>listen_ipv4\<close> and \<open>listen_ipv6\<close> (lines 180-212): \<open>bind\<close> gives its result for a descriptor, an
  address and the length of the address. The result of \<open>listen\<close> is not used.
\<close>

type_synonym bind_call = "int \<Rightarrow> sockaddr \<Rightarrow> nat \<Rightarrow> int"

definition listen_tcp :: "nat \<Rightarrow> int \<Rightarrow> bind_call \<Rightarrow> 16 word \<Rightarrow> tcpsocket_server
    \<Rightarrow> bool \<times> tcpsocket_server" where
  "listen_tcp family backlog bind port s =
     (let s = s\<lparr>m_port := port\<rparr>
      in if m_port s = 0 then (False, s)
         else (let s = s\<lparr>m_servaddr := \<lparr>sin_family = family, sin_port = htons (m_port s),
                         sin_addr = INADDR_ANY\<rparr>\<rparr>;
                   r = bind (m_fd s) (m_servaddr s) sizeof_sockaddr_in;
                   s = record_event (Bound (m_fd s)) s
               in if r < 0 then (False, s)
                  else (let s = record_event (Listened (m_fd s) backlog) s
                        in if m_fd s < 0 then (False, s) else (True, s\<lparr>m_listening := True\<rparr>))))"

definition listen_ipv4 :: "bind_call \<Rightarrow> 16 word \<Rightarrow> int \<Rightarrow> tcpsocket_server \<Rightarrow> bool \<times> tcpsocket_server" where
  "listen_ipv4 bind port backlog s = listen_tcp AF_INET 5 bind port s"

definition listen_ipv6 :: "bind_call \<Rightarrow> 16 word \<Rightarrow> int \<Rightarrow> tcpsocket_server \<Rightarrow> bool \<times> tcpsocket_server" where
  "listen_ipv6 bind port backlog s = listen_tcp AF_INET6 backlog bind port s"

definition is_open :: "tcpsocket_server \<Rightarrow> bool" where
  "is_open s = m_listening s"

subsection \<open>Connections of a server\<close>

record server_instance = socket +
  m_cliaddr :: sockaddr

definition instance_new :: server_instance where
  "instance_new = socket.extend socket_new \<lparr>m_cliaddr = sockaddr_zero\<rparr>"

text \<open>
  \<open>accept_connection\<close> (lines 223-235); the server, a pointer the constructor stores, is an argument, \<open>None\<close> for null. \<open>accept\<close> gives
  the new descriptor and the address of the client.
\<close>

definition accept_connection :: "(int \<Rightarrow> int \<times> sockaddr) \<Rightarrow> tcpsocket_server option \<Rightarrow> server_instance
    \<Rightarrow> bool \<times> server_instance" where
  "accept_connection accept server s = (case server of
     None \<Rightarrow> (False, s)
   | Some srv \<Rightarrow>
       if \<not> is_open srv then (False, s)
       else (case accept (m_fd srv) of (fd, client) \<Rightarrow>
         (let s = s\<lparr>m_fd := fd, m_cliaddr := (if fd < 0 then m_cliaddr s else client)\<rparr>
          in if m_fd s < 0 then (False, s) else (True, s\<lparr>m_operational := True\<rparr>))))"

text \<open>\<open>inet_ntoa\<close> of the C library prints an address.\<close>

definition client_address :: "(byte list \<Rightarrow> string) \<Rightarrow> server_instance \<Rightarrow> string" where
  "client_address inet_ntoa s = inet_ntoa (sin_addr (m_cliaddr s))"

definition client_port :: "server_instance \<Rightarrow> 16 word" where
  "client_port s = ntohs (sin_port (m_cliaddr s))"

subsection \<open>Clients\<close>

record tcpsocket_client = socket +
  c_server :: "byte list option"
  c_servaddr :: sockaddr
  c_addr :: string
  c_port :: "16 word"

definition client_new :: tcpsocket_client where
  "client_new = socket.extend socket_new
     \<lparr>c_server = None, c_servaddr = sockaddr_zero, c_addr = [], c_port = 0\<rparr>"

text \<open>
  \<open>connect_ipv4\<close> and \<open>connect_ipv6\<close> (lines 255-281). \<open>gethostbyname\<close> gives the address of a host,
  or a null pointer, which is then read.
\<close>

type_synonym connect_call = "int \<Rightarrow> sockaddr \<Rightarrow> nat \<Rightarrow> int"

definition connect_tcp :: "nat \<Rightarrow> (string \<Rightarrow> byte list option) \<Rightarrow> connect_call \<Rightarrow> string \<Rightarrow> 16 word
    \<Rightarrow> tcpsocket_client \<Rightarrow> (exn + bool) \<times> tcpsocket_client" where
  "connect_tcp family gethostbyname connect addr port s =
     (let s = s\<lparr>c_addr := addr, c_port := port, c_server := gethostbyname (cstr addr)\<rparr>
      in case c_server s of
           None \<Rightarrow> (Inl Segfault, s)
         | Some h_addr \<Rightarrow>
             if length h_addr > 4 then (Inl Undefined, s)
             else (let a = h_addr @ drop (length h_addr) (sin_addr (c_servaddr s));
                       s = s\<lparr>c_servaddr := \<lparr>sin_family = family, sin_port = htons (c_port s),
                             sin_addr = a\<rparr>\<rparr>
                   in if connect (m_fd s) (c_servaddr s) sizeof_sockaddr_in < 0 then (Inr False, s)
                      else (Inr True, s\<lparr>m_operational := True\<rparr>)))"

definition connect_ipv4 :: "(string \<Rightarrow> byte list option) \<Rightarrow> connect_call \<Rightarrow> string \<Rightarrow> 16 word
    \<Rightarrow> tcpsocket_client \<Rightarrow> (exn + bool) \<times> tcpsocket_client" where
  "connect_ipv4 gethostbyname connect addr port s =
     connect_tcp AF_INET gethostbyname connect addr port s"

definition connect_ipv6 :: "(string \<Rightarrow> byte list option) \<Rightarrow> connect_call \<Rightarrow> string \<Rightarrow> 16 word
    \<Rightarrow> tcpsocket_client \<Rightarrow> (exn + bool) \<times> tcpsocket_client" where
  "connect_ipv6 gethostbyname connect addr port s =
     connect_tcp AF_INET6 gethostbyname connect addr port s"

section \<open>Strings\<close>

lemma cstr_append_nul: "cstr (bytes @ nul # rest) = cstr bytes"
  by (induction bytes) (simp_all add: cstr_def)

lemma cstr_pad: "cstr (bytes @ replicate n nul) = cstr bytes"
  by (cases n) (simp_all add: cstr_append_nul)

lemma read_string_some:
  assumes "0 \<le> m_fd s" "m_operational s" "bytes \<noteq> []"
  shows "read_string (Some bytes) s = (cstr (take 255 bytes), record_event Notified s)"
  using assms by (simp add: read_string_def cstr_pad Let_def)

text \<open>Reading a string in several pieces.\<close>

fun read_strings :: "byte list list \<Rightarrow> 'a socket_scheme \<Rightarrow> string \<times> 'a socket_scheme" where
  "read_strings [] s = ([], s)"
| "read_strings (c # cs) s =
     (let (str, s) = read_string (Some c) s; (strs, s) = read_strings cs s in (str @ strs, s))"

lemma record_event_simps [simp]:
  "m_fd (record_event e s) = m_fd s" "m_operational (record_event e s) = m_operational s"
  "m_parallel (record_event e s) = m_parallel s" "m_thread (record_event e s) = m_thread s"
  "m_dataSet (record_event e s) = m_dataSet s" "events (record_event e s) = events s @ [e]"
  by (simp_all add: record_event_def)

lemma read_strings_cstr:
  assumes "0 \<le> m_fd s" "m_operational s" "\<forall>c \<in> set cs. c \<noteq> [] \<and> length c \<le> 255"
  shows "fst (read_strings cs s) = concat (map cstr cs)"
  using assms
proof (induction cs arbitrary: s)
  case (Cons c cs)
  have c: "c \<noteq> []" "length c \<le> 255" using Cons.prems(3) by auto
  have "read_string (Some c) s = (cstr c, record_event Notified s)"
    using read_string_some [OF Cons.prems(1, 2) c(1)] c(2) by simp
  moreover have "fst (read_strings cs (record_event Notified s)) = concat (map cstr cs)"
    by (rule Cons.IH) (use Cons.prems in auto)
  ultimately show ?case by (auto split: prod.splits)
qed simp

lemma cstr_no_nul: "nul \<notin> set str \<Longrightarrow> cstr str = str"
  by (induction str) (auto simp: cstr_def)

lemma pieces_no_nul: "nul \<notin> set (concat cs) \<Longrightarrow> concat (map cstr cs) = concat cs"
  by (induction cs) (simp_all add: cstr_no_nul)

lemma pieces_nul:
  "concat cs = str @ [nul] \<Longrightarrow> nul \<notin> set str \<Longrightarrow> [] \<notin> set cs \<Longrightarrow> concat (map cstr cs) = str"
proof (induction cs arbitrary: str)
  case (Cons c cs)
  have eq: "c @ concat cs = str @ [nul]" using Cons.prems(1) by simp
  then consider (last) "c = str @ [nul]" "concat cs = []"
    | (piece) rest where "str = c @ rest" "concat cs = rest @ [nul]"
    by (auto simp: append_eq_append_conv2 Cons_eq_append_conv append_eq_Cons_conv)
  then show ?case
  proof cases
    case last
    then have "cs = []" using Cons.prems(3) by (cases cs) auto
    with last Cons.prems(2) show ?thesis by (simp add: cstr_append_nul cstr_no_nul)
  next
    case piece
    then show ?thesis using Cons.IH [of rest] Cons.prems by (simp add: cstr_no_nul)
  qed
qed simp

lemma pieces_sent:
  assumes "concat cs = take n (str @ [nul])" "nul \<notin> set str" "[] \<notin> set cs"
  shows "concat (map cstr cs) = take n str"
proof (cases "n \<le> length str")
  case True
  then have "concat cs = take n str" using assms(1) by simp
  moreover from this have "nul \<notin> set (concat cs)" using assms(2) by (metis in_set_takeD)
  ultimately show ?thesis using pieces_no_nul by metis
next
  case False
  then have "concat cs = str @ [nul]" using assms(1) by simp
  with pieces_nul [OF this assms(2, 3)] False show ?thesis by simp
qed

text \<open>C33: Of what \<open>send_string\<close> is given, \<open>send\<close> may accept a part, and \<open>send_string\<close> returns true all the same. However the
  accepted bytes are cut into pieces of at most 255 bytes, \<open>read_string\<close> gives each piece up to its first NUL. So a
  string without a NUL is read back by putting the results together, if all of it was accepted, and else the part
  that was. A string that arrives whole in one piece of at most 255 bytes, with whatever arrives behind it, is read
  up to its first NUL, and the rest of the piece, a second string as well, is lost.\<close>

theorem string_roundtrip:
  assumes "0 \<le> m_fd s" "m_operational s" "0 \<le> m_fd r" "m_operational r" "0 \<le> sent"
    and "\<forall>c \<in> set cs. c \<noteq> [] \<and> length c \<le> 255" "concat cs = take (nat sent) (str @ [nul])"
  shows "send_string sent str s = (True, record_event (Sent (m_fd s) (concat cs)) s) \<and>
    fst (read_strings cs r) = concat (map cstr cs) \<and>
    (nul \<notin> set str \<longrightarrow> fst (read_strings cs r) = take (nat sent) str) \<and>
    (length str < nat sent \<and> length (concat cs @ later) \<le> 255 \<longrightarrow>
       read_string (Some (concat cs @ later)) r = (cstr str, record_event Notified r))"
proof (intro conjI impI)
  show "send_string sent str s = (True, record_event (Sent (m_fd s) (concat cs)) s)"
    using assms(1, 2, 5, 7) by (simp add: send_string_def send_bytes_def Let_def)
  show *: "fst (read_strings cs r) = concat (map cstr cs)" by (rule read_strings_cstr [OF assms(3, 4, 6)])
  show "fst (read_strings cs r) = take (nat sent) str" if "nul \<notin> set str"
    unfolding * by (rule pieces_sent [OF assms(7) that]) (use assms(6) in auto)
  show "read_string (Some (concat cs @ later)) r = (cstr str, record_event Notified r)"
    if "length str < nat sent \<and> length (concat cs @ later) \<le> 255"
  proof -
    have "take (nat sent) (str @ [nul]) = str @ [nul]" by (rule take_all) (use that in simp)
    then have cs: "concat cs = str @ [nul]" using assms(7) by simp
    have "take 255 (concat cs @ later) = concat cs @ later" by (rule take_all) (use that in simp)
    moreover have "concat cs @ later \<noteq> []" using cs by simp
    ultimately have "read_string (Some (concat cs @ later)) r = (cstr (concat cs @ later), record_event Notified r)"
      using read_string_some [OF assms(3, 4)] by metis
    then show ?thesis by (simp add: cs cstr_append_nul)
  qed
qed

theorem string_roundtrip_witness:
  "fst (read_strings [''ab'', ''c'' @ [nul]] (socket_new\<lparr>m_fd := 3, m_operational := True\<rparr>)) = ''abc'' \<and>
   send_string 2 ''abc'' (socket_new\<lparr>m_fd := 5, m_operational := True\<rparr>) =
     (True, record_event (Sent 5 ''ab'') (socket_new\<lparr>m_fd := 5, m_operational := True\<rparr>))"
  using string_roundtrip [of "socket_new\<lparr>m_fd := 5, m_operational := True\<rparr>"
      "socket_new\<lparr>m_fd := 3, m_operational := True\<rparr>" 4 "[''ab'', ''c'' @ [nul]]" "''abc''" "[]"]
    string_roundtrip [of "socket_new\<lparr>m_fd := 5, m_operational := True\<rparr>"
      "socket_new\<lparr>m_fd := 3, m_operational := True\<rparr>" 2 "[''ab'']" "''abc''" "[]"]
  by (auto simp del: read_strings.simps)

section \<open>Data\<close>

lemma read_into_None: "read_into None data len s = (True, data, 0xFFFFFFFF, s)"
  by (simp add: read_into_def read_result_def Let_def)

lemma read_into_Some:
  fixes bytes data :: "byte list" and len :: "32 word"
  assumes "length data = unat len"
  defines "m \<equiv> min (length bytes) (unat len)"
  shows "read_into (Some bytes) data len s =
    (if m = 0 then (False, data, len, close_socket s)
     else (True, take m bytes @ drop m data, word_of_nat m, s))" "unat (word_of_nat m :: 32 word) = m"
proof -
  have len: "unat len < 2 ^ LENGTH(32)" by (rule unsigned_less)
  have m: "m < 2 ^ 32" "length (take (unat len) bytes) = m"
    using len by (simp_all add: min_less_iff_disj m_def)
  then show "unat (word_of_nat m :: 32 word) = m"
    by (simp add: unsigned_of_nat take_bit_nat_eq_self)
  have zero: "(word_of_nat m :: 32 word) = 0 \<longleftrightarrow> m = 0"
    using m(1) by (auto simp: word_of_nat_eq_0_iff dest: dvd_imp_le)
  have "take (unat len) bytes = take m bytes" by (simp add: m_def min_def)
  moreover have "m = 0 \<longleftrightarrow> bytes = [] \<or> data = []" using assms(1) by (auto simp: m_def min_def)
  moreover have "unat len = 0 \<longleftrightarrow> data = []" using assms(1) by auto
  ultimately show "read_into (Some bytes) data len s =
    (if m = 0 then (False, data, len, close_socket s)
     else (True, take m bytes @ drop m data, word_of_nat m, s))"
    using m(2) zero assms(1)
    by (cases "m = 0") (simp_all add: read_into_def read_result_def Let_def)
qed

text \<open>C34: What \<open>read_data\<close> gives: nothing on a socket that is not in use; on the end of the stream (or an empty
  array) failure, with the socket closed; otherwise the bytes, at the front of the array, and
  their number. An error of \<open>read\<close> is not seen: it counts as 4294967295 bytes read, with the array
  as it was and the socket open.\<close>

theorem read_data_outcome:
  assumes "length data = unat len"
  shows "(m_fd s < 0 \<or> \<not> m_operational s \<longrightarrow> read_data got data len s = (False, data, len, s)) \<and>
    (0 \<le> m_fd s \<and> m_operational s \<longrightarrow> read_data got data len s =
      (case got of
         None \<Rightarrow> (True, data, 0xFFFFFFFF, s)
       | Some bytes \<Rightarrow>
           let m = min (length bytes) (length data)
           in if m = 0 then (False, data, len, close_socket s)
              else (True, take m bytes @ drop m data, word_of_nat m, s)))"
proof (intro conjI impI)
  show "read_data got data len s = (False, data, len, s)" if "m_fd s < 0 \<or> \<not> m_operational s"
    using that by (simp add: read_data_def read_into_def)
  assume on: "0 \<le> m_fd s \<and> m_operational s"
  show "read_data got data len s = (case got of
         None \<Rightarrow> (True, data, 0xFFFFFFFF, s)
       | Some bytes \<Rightarrow>
           let m = min (length bytes) (length data)
           in if m = 0 then (False, data, len, close_socket s)
              else (True, take m bytes @ drop m data, word_of_nat m, s))"
    using on assms read_into_None [of data len s] read_into_Some(1) [OF assms, of _ s]
    by (simp add: read_data_def Let_def split: option.splits)
qed

theorem read_data_outcome_witness:
  "read_data None ''xy'' 2 (socket_new\<lparr>m_fd := 3, m_operational := True\<rparr>) =
     (True, ''xy'', 0xFFFFFFFF, socket_new\<lparr>m_fd := 3, m_operational := True\<rparr>) \<and>
   read_data (Some ''a'') ''xy'' 2 (socket_new\<lparr>m_fd := 3, m_operational := True\<rparr>) =
     (True, ''ay'', 1, socket_new\<lparr>m_fd := 3, m_operational := True\<rparr>)"
proof -
  have len: "length ''xy'' = unat (2 :: 32 word)" by simp
  show ?thesis
    using read_data_outcome [OF len, of "socket_new\<lparr>m_fd := 3, m_operational := True\<rparr>" None]
      read_data_outcome [OF len, of "socket_new\<lparr>m_fd := 3, m_operational := True\<rparr>" "Some ''a''"]
    by (simp add: Let_def)
qed

section \<open>Sessions\<close>

text \<open>Any sequence of operations on a connected socket.\<close>

datatype sock_op =
    Close
  | Destroy
  | Send_string int string
  | Send_data int "byte list" "32 word"
  | Read_string "byte list option"
  | Read_data "byte list option" "byte list" "32 word"
  | Retrieve
  | Parallel_on
  | Parallel_off
  | Kill_parallel

definition sock_call :: "sock_op \<Rightarrow> 'a socket_scheme \<Rightarrow> 'a socket_scheme" where
  "sock_call m s = (case m of
     Close \<Rightarrow> close_socket s
   | Destroy \<Rightarrow> destroy_socket s
   | Send_string sent str \<Rightarrow> snd (send_string sent str s)
   | Send_data sent data len \<Rightarrow> snd (send_data sent data len s)
   | Read_string got \<Rightarrow> snd (read_string got s)
   | Read_data got data len \<Rightarrow> snd (snd (snd (read_data got data len s)))
   | Retrieve \<Rightarrow> snd (retrieve s)
   | Parallel_on \<Rightarrow> snd (parallel_on s)
   | Parallel_off \<Rightarrow> parallelOff s
   | Kill_parallel \<Rightarrow> killParallel s)"

definition sock_calls :: "sock_op list \<Rightarrow> 'a socket_scheme \<Rightarrow> 'a socket_scheme" where
  "sock_calls ms s = foldl (\<lambda>s m. sock_call m s) s ms"

text \<open>The thread object is there while parallel reading is on, and only a socket with a descriptor is
  operational.\<close>

definition sock_inv :: "'a socket_scheme \<Rightarrow> bool" where
  "sock_inv s \<longleftrightarrow> m_parallel s = m_thread s \<and> (m_operational s \<longrightarrow> 0 \<le> m_fd s)"

text \<open>The descriptor is held and was never closed, or was closed once and nothing was sent on it since.\<close>

definition held :: "int \<Rightarrow> 'a socket_scheme \<Rightarrow> bool" where
  "held fd s \<longleftrightarrow> m_fd s = fd \<and> Closed fd \<notin> set (events s)"

definition released :: "int \<Rightarrow> 'a socket_scheme \<Rightarrow> bool" where
  "released fd s \<longleftrightarrow> m_fd s = -1 \<and> \<not> m_operational s \<and>
     (\<exists>before after. events s = before @ Closed fd # after \<and> Closed fd \<notin> set before \<and>
        Closed fd \<notin> set after \<and> (\<forall>fd' bytes. Sent fd' bytes \<notin> set after))"

lemma close_socket_simps [simp]:
  "m_fd (close_socket s) = -1" "m_operational (close_socket s) = False"
  "m_parallel (close_socket s) = False" "m_thread (close_socket s) = False"
  "m_dataSet (close_socket s) = m_dataSet s"
  "events (close_socket s) = events s @ [Closed (m_fd s), Notified]"
  by (simp_all add: close_socket_def parallelOff_def Let_def)

lemma killParallel_simps [simp]:
  "m_fd (killParallel s) = m_fd s" "m_operational (killParallel s) = m_operational s"
  "events (killParallel s) = events s" "m_parallel (killParallel s) = (m_parallel s \<and> \<not> m_thread s)"
  "m_thread (killParallel s) = False"
  by (simp_all add: killParallel_def)

lemma sock_call_inv: "sock_inv s \<Longrightarrow> sock_inv (sock_call m s)"
  by (cases m) (auto simp: sock_call_def sock_inv_def send_string_def send_data_def send_bytes_def
    read_string_def read_data_def read_into_def retrieve_def parallel_on_def parallelOff_def destroy_socket_def Let_def
    split: option.splits list.splits)

text \<open>What a call does to the descriptor and the system calls.\<close>

lemma sock_call_effect:
  "(m_fd (sock_call m s) = m_fd s \<and> m_operational (sock_call m s) = m_operational s \<and>
     (\<exists>es. events (sock_call m s) = events s @ es \<and> (\<forall>fd. Closed fd \<notin> set es) \<and>
        (\<not> m_operational s \<longrightarrow> (\<forall>fd bytes. Sent fd bytes \<notin> set es)))) \<or>
   (m_fd (sock_call m s) = -1 \<and> \<not> m_operational (sock_call m s) \<and>
     (\<exists>es. events (sock_call m s) = events s @ es @ [Closed (m_fd s), Notified] \<and> (\<forall>fd. Closed fd \<notin> set es) \<and>
        (\<not> m_operational s \<longrightarrow> (\<forall>fd bytes. Sent fd bytes \<notin> set es))))"
  by (cases m) (auto simp: sock_call_def send_string_def send_data_def send_bytes_def
    read_string_def read_data_def read_into_def retrieve_def parallel_on_def parallelOff_def destroy_socket_def Let_def
    split: option.splits list.splits)

lemma sock_call_cases:
  obtains (kept) es where "m_fd (sock_call m s) = m_fd s" "m_operational (sock_call m s) = m_operational s"
      "events (sock_call m s) = events s @ es" "\<forall>fd. Closed fd \<notin> set es"
      "\<not> m_operational s \<longrightarrow> (\<forall>fd bytes. Sent fd bytes \<notin> set es)"
  | (closed) es where "m_fd (sock_call m s) = -1" "\<not> m_operational (sock_call m s)"
      "events (sock_call m s) = (events s @ es) @ Closed (m_fd s) # [Notified]" "\<forall>fd. Closed fd \<notin> set es"
      "\<not> m_operational s \<longrightarrow> (\<forall>fd bytes. Sent fd bytes \<notin> set es)"
  using sock_call_effect [of m s] by (elim disjE conjE exE) (auto simp del: append_assoc simp: append_assoc [symmetric])

lemma held_call:
  assumes "held fd s"
  shows "held fd (sock_call m s) \<or> released fd (sock_call m s)"
proof (cases rule: sock_call_cases [of m s])
  case (kept es)
  then show ?thesis using assms by (simp add: held_def)
next
  case (closed es)
  have "released fd (sock_call m s)" unfolding released_def
    using closed assms by (intro conjI exI [of _ "events s @ es"] exI [of _ "[Notified]"]) (simp_all add: held_def)
  then show ?thesis ..
qed

lemma released_call:
  assumes "released fd s" "0 \<le> fd"
  shows "released fd (sock_call m s)"
proof -
  obtain before after where s: "m_fd s = -1" "\<not> m_operational s" "events s = before @ Closed fd # after"
    "Closed fd \<notin> set before" "Closed fd \<notin> set after" "\<forall>fd' bytes. Sent fd' bytes \<notin> set after"
    using assms(1) unfolding released_def by blast
  show ?thesis
  proof (cases rule: sock_call_cases [of m s])
    case (kept es)
    show ?thesis unfolding released_def
      by (intro conjI exI [of _ before] exI [of _ "after @ es"]) (use kept s in simp_all)
  next
    case (closed es)
    show ?thesis unfolding released_def
      by (intro conjI exI [of _ before] exI [of _ "after @ es @ [Closed (-1), Notified]"])
        (use closed s assms(2) in simp_all)
  qed
qed

text \<open>C35: Over any sequence of operations on a connected socket: its descriptor is held and was never closed,
  or it was closed exactly once, and then the socket is not in use any more and nothing is sent;
  the thread object is there exactly while parallel reading is on.\<close>

theorem session:
  assumes "sock_inv s" "m_fd s = fd" "0 \<le> fd" "Closed fd \<notin> set (events s)"
  shows "sock_inv (sock_calls ms s) \<and> (held fd (sock_calls ms s) \<or> released fd (sock_calls ms s))"
proof -
  have "sock_inv (foldl (\<lambda>s m. sock_call m s) s ms) \<and>
      (held fd (foldl (\<lambda>s m. sock_call m s) s ms) \<or> released fd (foldl (\<lambda>s m. sock_call m s) s ms))"
    if "sock_inv s" "held fd s \<or> released fd s" for s :: "'a socket_scheme"
    using that
  proof (induction ms arbitrary: s)
    case (Cons m ms)
    show ?case unfolding foldl_Cons
      by (rule Cons.IH) (use Cons.prems sock_call_inv held_call released_call assms(3) in blast)+
  qed simp
  from this [of s] assms show ?thesis by (simp add: sock_calls_def held_def)
qed

theorem session_witness:
  "released 3 (sock_calls [Send_string (-1) ''a'', Close, Send_string 2 ''b'']
     (socket_new\<lparr>m_fd := 3, m_operational := True\<rparr>))"
proof -
  let ?s = "sock_calls [Send_string (-1) ''a'', Close, Send_string 2 ''b'']
     (socket_new\<lparr>m_fd := 3, m_operational := True\<rparr>)"
  have "held 3 ?s \<or> released 3 ?s"
    using session [of "socket_new\<lparr>m_fd := 3, m_operational := True\<rparr>" 3
      "[Send_string (-1) ''a'', Close, Send_string 2 ''b'']"]
    by (simp add: sock_inv_def socket_new_def)
  moreover have "m_fd ?s = -1"
    by (simp add: sock_calls_def sock_call_def send_string_def send_bytes_def socket_new_def Let_def)
  ultimately show ?thesis by (simp add: held_def)
qed

section \<open>Servers and clients\<close>

lemma ntohs_htons [simp]: "ntohs (htons port) = port"
  unfolding ntohs_def htons_def by (rule bit_word_eqI) (auto simp: bit_simps)

text \<open>What a server must have: after \<open>listen_ipv4\<close> or \<open>listen_ipv6\<close> has succeeded it is bound to the port it was
  given, in network order, and is open; port 0 and a failed \<open>bind\<close> are refused without listening.
  But the IPv4 server ignores its backlog, and closing the socket does not make \<open>is_open\<close> false,
  so a connection then accepts on descriptor -1.\<close>

theorem server_listens:
  assumes "0 \<le> m_fd s" "listen_ipv4 bind port backlog s = (ok, t)" "listen_ipv6 bind port backlog s = (ok6, t6)"
  shows "ok = (port \<noteq> 0 \<and> 0 \<le> bind (m_fd s) \<lparr>sin_family = AF_INET, sin_port = htons port,
            sin_addr = INADDR_ANY\<rparr> 16) \<and>
    (ok \<longrightarrow> is_open t \<and> ntohs (sin_port (m_servaddr t)) = port \<and>
       events t = events s @ [Bound (m_fd s), Listened (m_fd s) 5]) \<and>
    (ok6 \<longrightarrow> is_open t6 \<and> ntohs (sin_port (m_servaddr t6)) = port \<and>
       events t6 = events s @ [Bound (m_fd s), Listened (m_fd s) backlog]) \<and>
    (\<not> ok \<longrightarrow> is_open t = is_open s \<and> (\<forall>fd n. Listened fd n \<notin> set (drop (length (events s)) (events t)))) \<and>
    (ok \<longrightarrow> is_open (close_socket t) \<and>
       accept_connection accept (Some (close_socket t)) c =
         (case accept (-1) of (fd, client) \<Rightarrow>
            if fd < 0 then (False, c\<lparr>m_fd := fd\<rparr>)
            else (True, c\<lparr>m_fd := fd, m_cliaddr := client, m_operational := True\<rparr>)))"
  using assms
  by (auto simp: listen_ipv4_def listen_ipv6_def listen_tcp_def is_open_def accept_connection_def
    close_socket_def parallelOff_def record_event_def sizeof_sockaddr_in_def Let_def
    split: if_splits prod.splits)

text \<open>\<open>connect_ipv4\<close> reads the null pointer \<open>gethostbyname\<close> gives for a name it does not know; for a known host
  the connection is made to its address and the port, in network order, and the socket is in use
  exactly if it is made or was in use before.\<close>

theorem connect_outcome:
  assumes "connect_ipv4 gethostbyname connect addr port s = (result, t)" "length (sin_addr (c_servaddr s)) = 4"
  shows "(gethostbyname (cstr addr) = None \<longrightarrow> result = Inl Segfault) \<and>
    (\<forall>a. gethostbyname (cstr addr) = Some a \<and> length a = 4 \<longrightarrow>
       c_servaddr t = \<lparr>sin_family = AF_INET, sin_port = htons port, sin_addr = a\<rparr> \<and>
       ntohs (sin_port (c_servaddr t)) = port \<and>
       result = Inr (0 \<le> connect (m_fd s) (c_servaddr t) 16) \<and>
       m_operational t = (result = Inr True \<or> m_operational s)) \<and>
    c_addr t = addr \<and> c_port t = port"
  using assms
  by (auto simp: connect_ipv4_def connect_tcp_def sizeof_sockaddr_in_def Let_def
    split: option.splits if_splits)

theorem connect_outcome_witness:
  "\<exists>t. connect_ipv4 (\<lambda>name. if name = ''a'' then Some (replicate 4 CHR ''1'') else None) (\<lambda>fd a n. 0) ''a'' 80
      (client_new\<lparr>m_fd := 3\<rparr>) = (Inr True, t) \<and> ntohs (sin_port (c_servaddr t)) = 80 \<and> m_operational t"
proof -
  define g where "g = (\<lambda>name. if name = ''a'' then Some (replicate 4 CHR ''1'') else None)"
  obtain result t where c: "connect_ipv4 g (\<lambda>fd a n. 0) ''a'' 80 (client_new\<lparr>m_fd := 3\<rparr>) = (result, t)"
    by force
  have "length (sin_addr (c_servaddr (client_new\<lparr>m_fd := 3\<rparr>))) = 4"
    by (simp add: client_new_def sockaddr_zero_def INADDR_ANY_def socket.extend_def)
  from connect_outcome [OF c this] c show ?thesis by (auto simp: g_def)
qed

theorem server_listens_witness:
  "\<exists>t. listen_ipv4 (\<lambda>fd a n. 0) 80 1 (server_new\<lparr>m_fd := 3\<rparr>) = (True, t) \<and> is_open (close_socket t) \<and>
     events t = [Bound 3, Listened 3 5]"
proof -
  obtain ok t where t: "listen_ipv4 (\<lambda>fd a n. 0) 80 1 (server_new\<lparr>m_fd := 3\<rparr>) = (ok, t)" by force
  obtain ok6 t6 where t6: "listen_ipv6 (\<lambda>fd a n. 0) 80 1 (server_new\<lparr>m_fd := 3\<rparr>) = (ok6, t6)" by force
  have "0 \<le> m_fd (server_new\<lparr>m_fd := 3\<rparr>)" "events (server_new\<lparr>m_fd := 3\<rparr>) = []"
    by (simp_all add: server_new_def socket_new_def socket.extend_def)
  with server_listens [OF _ t t6] t show ?thesis by auto
qed

text \<open>
  The address a socket of IPv6 is given has the length of an IPv4 address, which \<open>bind\<close> and
  \<open>connect\<close> refuse: 28 bytes are needed.
\<close>

lemma ipv6_never:
  assumes "\<And>fd a n. sin_family a = AF_INET6 \<Longrightarrow> n < 28 \<Longrightarrow> call fd a n < 0"
  shows "fst (listen_ipv6 call port backlog s) = False"
    and "fst (connect_ipv6 gethostbyname call addr port c) \<noteq> Inr True"
  using assms by (auto simp: listen_ipv6_def listen_tcp_def connect_ipv6_def connect_tcp_def
    sizeof_sockaddr_in_def AF_INET6_def Let_def split: option.splits)

end
