(* ===== verification/Socket_Par.thy ===== *)
theory Socket_Par
  imports Socket Wait
begin

text \<open>
  Parallel reading (src/src/socket.cpp, lines 100-149): a thread reads from the socket and appends
  what it gets to the data set, while the user waits for data and retrieves it. The user and any
  number of reading threads take their steps in every order, one step per statement, in
  \<open>close_socket\<close>, which both may be in at a time, as well. The condition of the loop in
  \<open>wait_data\<close>, \<open>retrieve\<close> and \<open>killParallel\<close> are one step each. The data set and the flags are shared
  without a lock in the program; the model gives every access the sequentially consistent
  meaning.
\<close>

section \<open>Closing\<close>

text \<open>The statements of \<open>close_socket\<close> (lines 29-35), the last three those of \<open>parallelOff\<close> (lines 110-115).\<close>

datatype close_pc = C_operational | C_close | C_fd | C_parallel | C_thread | C_notify

fun close_stmt :: "close_pc \<Rightarrow> socket \<Rightarrow> socket" where
  "close_stmt C_operational s = s\<lparr>m_operational := False\<rparr>"
| "close_stmt C_close s = record_event (Closed (m_fd s)) s"
| "close_stmt C_fd s = s\<lparr>m_fd := -1\<rparr>"
| "close_stmt C_parallel s = s\<lparr>m_parallel := False\<rparr>"
| "close_stmt C_thread s = s\<lparr>m_thread := False\<rparr>"
| "close_stmt C_notify s = record_event Notified s"

fun close_next :: "close_pc \<Rightarrow> close_pc option" where
  "close_next C_operational = Some C_close"
| "close_next C_close = Some C_fd"
| "close_next C_fd = Some C_parallel"
| "close_next C_parallel = Some C_thread"
| "close_next C_thread = Some C_notify"
| "close_next C_notify = None"

text \<open>Taken without a break they are the calls.\<close>

lemma close_statements:
  "close_socket s = foldl (\<lambda>s c. close_stmt c s) s [C_operational, C_close, C_fd, C_parallel, C_thread, C_notify]"
  "parallelOff s = foldl (\<lambda>s c. close_stmt c s) s [C_parallel, C_thread, C_notify]"
  by (simp_all add: close_socket_def parallelOff_def record_event_def Let_def)

section \<open>State\<close>

text \<open>
  Where a reader is: the two tests of its loop, the test of \<open>read_data\<close>, the argument of
  \<open>read\<close>, in \<open>read\<close> on a descriptor, in the \<open>close_socket\<close> of a read that failed, with data to
  append, before the notification.
\<close>

datatype reader_pc =
    R_parallel
  | R_operational
  | R_enter
  | R_call
  | R_read int
  | R_close close_pc
  | R_push "32 word"
  | R_notify
  | R_done

record reader =
  r_size :: "32 word"
  r_buffer :: "byte list"
  r_pc :: reader_pc

text \<open>
  The user: in \<open>wait_data\<close>, in \<open>close_socket\<close> or \<open>parallelOff\<close>, or in \<open>parallel_on\<close>, which sets the
  flag, makes the thread, stores the pointer to it and detaches it through the pointer.
\<close>

datatype user_pc = U_idle | U_wait_data | U_check | U_wait | U_blocked
  | U_close close_pc
  | U_flag "32 word" | U_make "32 word" | U_assign | U_detach

text \<open>
  \<open>incoming\<close> is what the peer sends: pieces of bytes, the empty piece for the end of the stream,
  \<open>None\<close> for an error. \<open>taken\<close> records what the user has retrieved, \<open>overread\<close> that a reader
  has read beyond its buffer, \<open>null_thread\<close> that \<open>detach\<close> was called through the null pointer; the
  program goes no further then.
\<close>

record par =
  sock :: socket
  readers :: "reader list"
  incoming :: "byte list option list"
  m_cv :: wait_pool
  user :: user_pc
  taken :: "byte list list"
  overread :: bool
  null_thread :: bool

definition faulted :: "par \<Rightarrow> bool" where
  "faulted s \<longleftrightarrow> overread s \<or> null_thread s"

definition close_step :: "close_pc \<Rightarrow> par \<Rightarrow> par" where
  "close_step c s = s\<lparr>sock := close_stmt c (sock s),
     m_cv := (if c = C_notify then notify_all (m_cv s) else m_cv s)\<rparr>"

section \<open>A reading thread\<close>

text \<open>The buffer \<open>malloc\<close> gives; its bytes are not used before they are read.\<close>

definition new_reader :: "32 word \<Rightarrow> reader" where
  "new_reader bufferSize =
     \<lparr>r_size = bufferSize, r_buffer = replicate (unat bufferSize) nul, r_pc = R_parallel\<rparr>"

definition set_reader :: "nat \<Rightarrow> reader \<Rightarrow> par \<Rightarrow> par" where
  "set_reader i r s = s\<lparr>readers := (readers s)[i := r]\<rparr>"

text \<open>The bytes a call of \<open>read\<close> leaves for the next one.\<close>

definition left_over :: "nat \<Rightarrow> byte list \<Rightarrow> byte list option list \<Rightarrow> byte list option list" where
  "left_over len bytes rest =
     (if bytes = [] then Some [] # rest
      else if drop len bytes = [] then rest else Some (drop len bytes) # rest)"

text \<open>
  The end of \<open>read_data\<close>, with what \<open>read\<close> gave: the \<open>close_socket\<close> of a failure is still to be
  done, statement by statement. The vector that is made of the buffer (lines 142-144) is read beyond the
  buffer when \<open>n\<close> is larger than it.
\<close>

definition after_read :: "nat \<Rightarrow> byte list option \<Rightarrow> par \<Rightarrow> par" where
  "after_read i got s =
     (let r = readers s ! i
      in case read_into got (r_buffer r) (r_size r) (sock s) of
           (ok, buffer, n, sk) \<Rightarrow>
             if \<not> ok then
               set_reader i (r\<lparr>r_buffer := buffer, r_pc := R_close C_operational\<rparr>) s
             else if n > r_size r then s\<lparr>overread := True\<rparr>
             else set_reader i (r\<lparr>r_buffer := buffer, r_pc := R_push n\<rparr>) s)"

definition parallel_reading :: "nat \<Rightarrow> par \<Rightarrow> par option" where
  "parallel_reading i s =
     (let r = readers s ! i; goto = (\<lambda>pc. set_reader i (r\<lparr>r_pc := pc\<rparr>) s)
      in case r_pc r of
           R_parallel \<Rightarrow> Some (goto (if m_parallel (sock s) then R_operational else R_done))
         | R_operational \<Rightarrow> Some (goto (if m_operational (sock s) then R_enter else R_done))
         | R_enter \<Rightarrow>
             Some (goto (if m_fd (sock s) < 0 \<or> \<not> m_operational (sock s) then R_notify else R_call))
         | R_call \<Rightarrow> Some (goto (R_read (m_fd (sock s))))
         | R_read fd \<Rightarrow>
             (if fd < 0 then Some (after_read i None s)
              else case incoming s of
                [] \<Rightarrow> None
              | None # rest \<Rightarrow> Some (after_read i None (s\<lparr>incoming := rest\<rparr>))
              | Some bytes # rest \<Rightarrow>
                  Some (after_read i (Some bytes)
                    (s\<lparr>incoming := left_over (unat (r_size r)) bytes rest\<rparr>)))
         | R_close c \<Rightarrow>
             Some (set_reader i (r\<lparr>r_pc := (case close_next c of None \<Rightarrow> R_notify | Some c' \<Rightarrow> R_close c')\<rparr>)
               (close_step c s))
         | R_push n \<Rightarrow>
             Some (set_reader i (r\<lparr>r_pc := R_notify\<rparr>)
               (s\<lparr>sock := (sock s)\<lparr>m_dataSet := m_dataSet (sock s) @ [take (unat n) (r_buffer r)]\<rparr>\<rparr>))
         | R_notify \<Rightarrow>
             Some (set_reader i (r\<lparr>r_pc := R_parallel\<rparr>) (s\<lparr>m_cv := notify_all (m_cv s)\<rparr>))
         | R_done \<Rightarrow> None)"

section \<open>The user\<close>

datatype user_op = Wait_data | Retrieve_data | Parallel_start "32 word" | Parallel_stop | Parallel_kill | Close_now

definition user_call :: "user_op \<Rightarrow> par \<Rightarrow> par" where
  "user_call m s = (case m of
     Wait_data \<Rightarrow> s\<lparr>user := U_wait_data\<rparr>
   | Retrieve_data \<Rightarrow>
       (case retrieve (sock s) of (bytes, sk) \<Rightarrow> s\<lparr>sock := sk, taken := taken s @ [bytes]\<rparr>)
   | Parallel_start bufferSize \<Rightarrow>
       (if \<not> m_parallel (sock s) then s\<lparr>user := U_flag bufferSize\<rparr> else s)
   | Parallel_stop \<Rightarrow> s\<lparr>user := U_close C_parallel\<rparr>
   | Parallel_kill \<Rightarrow> s\<lparr>sock := killParallel (sock s)\<rparr>
   | Close_now \<Rightarrow> s\<lparr>user := U_close C_operational\<rparr>)"

definition closing :: "par \<Rightarrow> par option" where
  "closing s = (case user s of
     U_close c \<Rightarrow>
       Some ((close_step c s)\<lparr>user := (case close_next c of None \<Rightarrow> U_idle | Some c' \<Rightarrow> U_close c')\<rparr>)
   | _ \<Rightarrow> None)"

text \<open>\<open>parallel_on\<close> behind its test, lines 104-106.\<close>

definition turning_on :: "par \<Rightarrow> par option" where
  "turning_on s = (case user s of
     U_flag bufferSize \<Rightarrow> Some (s\<lparr>sock := (sock s)\<lparr>m_parallel := True\<rparr>, user := U_make bufferSize\<rparr>)
   | U_make bufferSize \<Rightarrow> Some (s\<lparr>readers := readers s @ [new_reader bufferSize], user := U_assign\<rparr>)
   | U_assign \<Rightarrow> Some (s\<lparr>sock := (sock s)\<lparr>m_thread := True\<rparr>, user := U_detach\<rparr>)
   | U_detach \<Rightarrow> Some (if m_thread (sock s) then s\<lparr>user := U_idle\<rparr> else s\<lparr>null_thread := True\<rparr>)
   | _ \<Rightarrow> None)"

text \<open>\<open>wait_data\<close>, lines 127-133. The lock is taken by this function only.\<close>

definition wait_data :: "par \<Rightarrow> par option" where
  "wait_data s = (case user s of
     U_wait_data \<Rightarrow>
       Some (if \<not> m_parallel (sock s) \<or> \<not> m_operational (sock s) then s\<lparr>user := U_idle\<rparr>
             else s\<lparr>user := U_check\<rparr>)
   | U_check \<Rightarrow>
       Some (if \<not> data_available (sock s) \<and> m_parallel (sock s) \<and> m_operational (sock s)
             then s\<lparr>user := U_wait\<rparr> else s\<lparr>user := U_idle\<rparr>)
   | U_wait \<Rightarrow> Some (s\<lparr>m_cv := pool_wait 0 (m_cv s), user := U_blocked\<rparr>)
   | U_blocked \<Rightarrow> (if 0 \<in> m_cv s then None else Some (s\<lparr>user := U_check\<rparr>))
   | _ \<Rightarrow> None)"

section \<open>Interleavings\<close>

inductive par_act :: "par \<Rightarrow> par \<Rightarrow> bool" where
  reader_act: "\<not> faulted s \<Longrightarrow> i < length (readers s) \<Longrightarrow> parallel_reading i s = Some t \<Longrightarrow> par_act s t"
| call_act: "\<not> faulted s \<Longrightarrow> user s = U_idle \<Longrightarrow> par_act s (user_call m s)"
| wait_act: "\<not> faulted s \<Longrightarrow> wait_data s = Some t \<Longrightarrow> par_act s t"
| closing_act: "\<not> faulted s \<Longrightarrow> closing s = Some t \<Longrightarrow> par_act s t"
| turning_on_act: "\<not> faulted s \<Longrightarrow> turning_on s = Some t \<Longrightarrow> par_act s t"

inductive par_step :: "par \<Rightarrow> par \<Rightarrow> bool" where
  act: "par_act s t \<Longrightarrow> par_step s t"
| woken: "\<not> faulted s \<Longrightarrow> wake 0 (m_cv s) p \<Longrightarrow> par_step s (s\<lparr>m_cv := p\<rparr>)"

inductive_cases par_actE: "par_act s t"
inductive_cases par_stepE: "par_step s t"

text \<open>A connected socket, with what its peer sends.\<close>

definition connected :: "int \<Rightarrow> byte list option list \<Rightarrow> par" where
  "connected fd ins = \<lparr>sock = socket_new\<lparr>m_fd := fd, m_operational := True\<rparr>, readers = [],
     incoming = ins, m_cv = {}, user = U_idle, taken = [], overread = False, null_thread = False\<rparr>"

end
