(* ===== verification/Socket_Par_Laws.thy ===== *)
theory Socket_Par_Laws
  imports Socket_Par
begin

text \<open>
  The laws of parallel reading: the bytes of the stream as a queue between the reading thread and
  its user (the contract \<open>fifo_channel\<close>), the runs in which it goes wrong, and the end of the thread
  under every interleaving with a user who waits and retrieves.
\<close>

section \<open>The bytes of the stream\<close>

definition flow :: "byte list option list \<Rightarrow> byte list" where
  "flow ins = concat (map (\<lambda>x. case x of None \<Rightarrow> [] | Some bytes \<Rightarrow> bytes) ins)"

lemma flow_simps [simp]:
  "flow [] = []" "flow (None # ins) = flow ins" "flow (Some bytes # ins) = bytes @ flow ins"
  by (simp_all add: flow_def)

lemma flow_left_over: "bytes \<noteq> [] \<Longrightarrow> take len bytes @ flow (left_over len bytes rest) = bytes @ flow rest"
  by (simp add: left_over_def)

text \<open>What a reader has read and not yet appended.\<close>

definition in_hand :: "reader \<Rightarrow> byte list" where
  "in_hand r = (case r_pc r of R_push n \<Rightarrow> take (unat n) (r_buffer r) | _ \<Rightarrow> [])"

definition bytes_left :: "par \<Rightarrow> byte list" where
  "bytes_left s = concat (map in_hand (readers s)) @ flow (incoming s)"

definition bytes_queued :: "par \<Rightarrow> byte list" where
  "bytes_queued s = concat (m_dataSet (sock s))"

definition bytes_taken :: "par \<Rightarrow> byte list" where
  "bytes_taken s = concat (taken s)"

text \<open>At most one reading thread, whose buffer has its size and not the one an error of \<open>read\<close> looks like.\<close>

definition good_reader :: "reader \<Rightarrow> bool" where
  "good_reader r \<longleftrightarrow> length (r_buffer r) = unat (r_size r) \<and> r_size r \<noteq> 0xFFFFFFFF"

definition par_inv :: "par \<Rightarrow> bool" where
  "par_inv s \<longleftrightarrow> readers s = [] \<or> (\<exists>r. readers s = [r] \<and> good_reader r)"

text \<open>The steps of a run in which parallel reading is switched on once.\<close>

definition single_step :: "par \<Rightarrow> par \<Rightarrow> bool" where
  "single_step s t \<longleftrightarrow> par_step s t \<and> length (readers t) \<le> 1 \<and>
     (\<forall>r \<in> set (readers t). r_size r \<noteq> 0xFFFFFFFF)"

lemma word_max: "(n :: 32 word) \<le> 0xFFFFFFFF"
proof -
  have "(- 1 :: 32 word) = 0xFFFFFFFF" by simp
  then show ?thesis using word_n1_ge [of n] by metis
qed

text \<open>What the end of a read does: nothing but the flag, the close of the socket, or a reader with the bytes.\<close>

lemma after_read_None:
  assumes "good_reader (readers s ! i)"
  shows "after_read i None s = s\<lparr>overread := True\<rparr>"
proof -
  have "r_size (readers s ! i) < 0xFFFFFFFF"
    using assms word_max [of "r_size (readers s ! i)"] by (simp add: good_reader_def order_less_le)
  then show ?thesis by (simp add: after_read_def read_into_None Let_def)
qed

lemma after_read_Some:
  assumes "readers s ! i = r" "good_reader r" "m = min (length bytes) (unat (r_size r))"
  shows "after_read i (Some bytes) s =
    (if m = 0 then set_reader i (r\<lparr>r_pc := R_close C_operational\<rparr>) s
     else set_reader i (r\<lparr>r_buffer := take m bytes @ drop m (r_buffer r), r_pc := R_push (word_of_nat m)\<rparr>) s)"
proof -
  have buf: "length (r_buffer r) = unat (r_size r)" using assms(2) by (simp add: good_reader_def)
  note into = read_into_Some [OF buf, of bytes, folded assms(3)]
  have "word_of_nat m \<le> r_size r" using into(2) assms(3) by (simp add: word_le_nat_alt)
  then show ?thesis using assms(1) into(1) [of "sock s"]
    by (simp add: after_read_def Let_def not_less)
qed

lemma close_step_keeps [simp]:
  "readers (close_step c s) = readers s" "incoming (close_step c s) = incoming s" "taken (close_step c s) = taken s"
  "m_dataSet (sock (close_step c s)) = m_dataSet (sock s)" "user (close_step c s) = user s"
  "overread (close_step c s) = overread s" "null_thread (close_step c s) = null_thread s"
  by (cases c; simp add: close_step_def)+

lemma after_read_bytes:
  assumes "readers s = [r]" "good_reader r" "in_hand r = []"
    and "t = after_read 0 (Some bytes) (s\<lparr>incoming := left_over (unat (r_size r)) bytes rest\<rparr>)"
    and "incoming s = Some bytes # rest"
  shows "bytes_left t = bytes_left s" "m_dataSet (sock t) = m_dataSet (sock s)"
    "taken t = taken s" "\<exists>r'. readers t = [r'] \<and> good_reader r'"
proof -
  let ?s = "s\<lparr>incoming := left_over (unat (r_size r)) bytes rest\<rparr>"
  define m where "m = min (length bytes) (unat (r_size r))"
  have t: "t = (if m = 0 then ?s\<lparr>readers := [r\<lparr>r_pc := R_close C_operational\<rparr>]\<rparr>
     else ?s\<lparr>readers := [r\<lparr>r_buffer := take m bytes @ drop m (r_buffer r), r_pc := R_push (word_of_nat m)\<rparr>]\<rparr>)"
    using after_read_Some [of ?s 0 r m bytes, OF _ assms(2)] assms(1)
    by (cases "m = 0") (simp_all add: assms(4) m_def [symmetric] set_reader_def)
  have buf: "length (r_buffer r) = unat (r_size r)" using assms(2) by (simp add: good_reader_def)
  have m: "unat (word_of_nat m :: 32 word) = m" unfolding m_def by (rule read_into_Some(2) [OF buf])
  have zero: "flow (left_over (unat (r_size r)) bytes rest) = flow (incoming s)" if "m = 0"
    using that assms(5) by (auto simp: m_def min_def left_over_def split: if_splits)
  have more: "take m bytes @ flow (left_over (unat (r_size r)) bytes rest) = flow (incoming s)" if "m \<noteq> 0"
  proof -
    have "take m bytes = take (unat (r_size r)) bytes" by (simp add: m_def min_def)
    moreover have "bytes \<noteq> []" using that by (auto simp: m_def)
    ultimately show ?thesis using flow_left_over [of bytes "unat (r_size r)" rest] assms(5) by simp
  qed
  show "bytes_left t = bytes_left s"
    using zero more m assms(1, 3) by (cases "m = 0") (simp_all add: t bytes_left_def in_hand_def min_def m_def)
  show "m_dataSet (sock t) = m_dataSet (sock s)" by (cases "m = 0") (simp_all add: t)
  show "taken t = taken s" by (cases "m = 0") (simp_all add: t)
  have "length (take m bytes @ drop m (r_buffer r)) = unat (r_size r)" using buf by (auto simp: m_def)
  then show "\<exists>r'. readers t = [r'] \<and> good_reader r'"
    using assms(2) by (cases "m = 0") (simp_all add: t good_reader_def)
qed

lemma reader_step_laws:
  assumes "readers s = [r]" "good_reader r" "parallel_reading 0 s = Some t"
  shows "bytes_queued t @ bytes_left t = bytes_queued s @ bytes_left s \<and> taken t = taken s \<and>
    (\<exists>r'. readers t = [r'] \<and> good_reader r')"
proof -
  have r: "readers s ! 0 = r" using assms(1) by simp
  note step = assms(3) [unfolded parallel_reading_def r Let_def]
  show ?thesis
  proof (cases "r_pc r")
    case (R_read fd)
    then have hand: "in_hand r = []" by (simp add: in_hand_def)
    show ?thesis
    proof (cases "fd < 0")
      case True
      then show ?thesis using step R_read after_read_None [of s 0] assms(1, 2)
        by (auto simp: bytes_queued_def bytes_left_def)
    next
      case False
      show ?thesis
      proof (cases "incoming s")
        case (Cons x rest)
        show ?thesis
        proof (cases x)
          case None
          then show ?thesis
            using step R_read False Cons after_read_None [of "s\<lparr>incoming := rest\<rparr>" 0] assms(1, 2)
            by (auto simp: bytes_queued_def bytes_left_def)
        next
          case (Some bytes)
          have t: "t = after_read 0 (Some bytes) (s\<lparr>incoming := left_over (unat (r_size r)) bytes rest\<rparr>)"
            using step R_read False Cons Some by simp
          have inc: "incoming s = Some bytes # rest" using Cons Some by simp
          from after_read_bytes [OF assms(1, 2) hand t inc] show ?thesis
            by (auto simp: bytes_queued_def)
        qed
      qed (use step R_read False in simp)
    qed
  next
    case (R_close c)
    then show ?thesis using step assms(1, 2)
      by (cases "close_next c")
        (auto simp: bytes_queued_def bytes_left_def set_reader_def in_hand_def good_reader_def)
  next
    case (R_push n)
    then show ?thesis using step assms(1, 2)
      by (auto simp: bytes_queued_def bytes_left_def set_reader_def in_hand_def good_reader_def)
  qed (use step assms(1, 2) in \<open>auto simp: bytes_queued_def bytes_left_def set_reader_def in_hand_def
    good_reader_def split: if_splits\<close>)
qed

lemma user_call_laws:
  "bytes_taken (user_call m s) @ bytes_queued (user_call m s) = bytes_taken s @ bytes_queued s \<and>
   bytes_left (user_call m s) = bytes_left s \<and> (\<exists>bs. taken (user_call m s) = taken s @ bs) \<and>
   readers (user_call m s) = readers s"
  by (cases m) (auto simp: user_call_def bytes_taken_def bytes_queued_def bytes_left_def retrieve_def
    killParallel_def split: list.splits)

lemma wait_data_laws:
  "wait_data s = Some t \<Longrightarrow> sock t = sock s \<and> readers t = readers s \<and> incoming t = incoming s \<and>
     taken t = taken s \<and> overread t = overread s"
  by (cases "user s") (auto simp: wait_data_def split: if_splits)

lemma closing_laws:
  "closing s = Some t \<Longrightarrow> m_dataSet (sock t) = m_dataSet (sock s) \<and> readers t = readers s \<and>
     incoming t = incoming s \<and> taken t = taken s"
  by (cases "user s") (auto simp: closing_def)

lemma turning_on_laws:
  "turning_on s = Some t \<Longrightarrow> m_dataSet (sock t) = m_dataSet (sock s) \<and> incoming t = incoming s \<and> taken t = taken s \<and>
     (readers t = readers s \<or> (\<exists>n. readers t = readers s @ [new_reader n]))"
  by (cases "user s") (auto simp: turning_on_def)

lemma par_step_cases:
  assumes "par_step s t"
  obtains (reader) i where "i < length (readers s)" "parallel_reading i s = Some t"
  | (call) m where "user s = U_idle" "t = user_call m s"
  | (wait) "wait_data s = Some t"
  | (closing) "closing s = Some t"
  | (turning_on) "turning_on s = Some t"
  | (woken) p where "t = s\<lparr>m_cv := p\<rparr>"
  using assms by (auto elim!: par_stepE par_actE)

lemma new_reader_laws: "n \<noteq> 0xFFFFFFFF \<Longrightarrow> good_reader (new_reader n)" "in_hand (new_reader n) = []"
  "r_size (new_reader n) = n"
  by (simp_all add: good_reader_def new_reader_def in_hand_def)

lemma single_step_laws:
  assumes "par_inv s" "single_step s t"
  shows "bytes_taken t @ bytes_queued t @ bytes_left t = bytes_taken s @ bytes_queued s @ bytes_left s \<and>
    (\<exists>bs. taken t = taken s @ bs) \<and> par_inv t"
proof -
  have step: "par_step s t" and one: "length (readers t) \<le> 1"
    and sizes: "\<forall>r \<in> set (readers t). r_size r \<noteq> 0xFFFFFFFF"
    using assms(2) by (auto simp: single_step_def)
  from step show ?thesis
  proof (cases rule: par_step_cases)
    case (reader i)
    then obtain r where r: "readers s = [r]" "good_reader r" "i = 0"
      using assms(1) by (auto simp: par_inv_def)
    from reader_step_laws [OF r(1, 2)] reader(2) r(3) show ?thesis
      by (auto simp: bytes_taken_def par_inv_def)
  next
    case (call m)
    with user_call_laws [of m s] assms(1) show ?thesis by (auto simp: par_inv_def simp flip: append_assoc)
  next
    case turning_on
    note laws = turning_on_laws [OF turning_on]
    then have "par_inv t \<and> bytes_left t = bytes_left s"
      using one sizes assms(1) new_reader_laws by (auto simp: par_inv_def bytes_left_def)
    with laws show ?thesis by (simp add: bytes_taken_def bytes_queued_def)
  next
    case wait
    from wait_data_laws [OF wait] show ?thesis using assms(1)
      by (simp add: bytes_taken_def bytes_queued_def bytes_left_def par_inv_def)
  next
    case closing
    from closing_laws [OF closing] show ?thesis using assms(1)
      by (simp add: bytes_taken_def bytes_queued_def bytes_left_def par_inv_def)
  next
    case (woken p)
    then show ?thesis using assms(1)
      by (simp add: bytes_taken_def bytes_queued_def bytes_left_def par_inv_def)
  qed
qed

interpretation socket_stream: fifo_channel single_step par_inv bytes_left bytes_queued bytes_taken
proof unfold_locales
  fix s t
  assume "par_inv s" "single_step s t"
  note laws = single_step_laws [OF this]
  show "par_inv t" using laws by simp
  show "bytes_taken t @ bytes_queued t @ bytes_left t = bytes_taken s @ bytes_queued s @ bytes_left s"
    using laws by simp
  show "\<exists>xs. bytes_taken t = bytes_taken s @ xs"
    using laws by (auto simp: bytes_taken_def)
qed

text \<open>Threads are only added, and keep the size of their buffer.\<close>

lemma reader_sizes: "parallel_reading i s = Some t \<Longrightarrow> i < length (readers s) \<Longrightarrow>
    map r_size (readers t) = map r_size (readers s)"
proof -
  assume step: "parallel_reading i s = Some t" and i: "i < length (readers s)"
  have same: "map r_size (xs[i := r]) = map r_size xs" if "r_size r = r_size (xs ! i)" "i < length xs" for xs r
    using that by (simp add: map_update) (metis length_map list_update_id nth_map)
  show ?thesis
    using step i by (auto simp: parallel_reading_def after_read_def set_reader_def same Let_def
      split: reader_pc.splits if_splits list.splits option.splits prod.splits)
qed

lemma step_sizes: "par_step s t \<Longrightarrow> \<exists>ns. map r_size (readers t) = map r_size (readers s) @ ns"
proof (erule par_step_cases)
  show "\<exists>ns. map r_size (readers t) = map r_size (readers s) @ ns" if "turning_on s = Some t"
    using turning_on_laws [OF that] by auto
qed (use reader_sizes user_call_laws wait_data_laws closing_laws in auto)

lemma single_run:
  assumes "par_step\<^sup>*\<^sup>* s t" "length (readers t) \<le> 1" "\<forall>r \<in> set (readers t). r_size r \<noteq> 0xFFFFFFFF"
  shows "single_step\<^sup>*\<^sup>* s t"
  using assms
proof (induction rule: rtranclp_induct)
  case (step u t)
  obtain ns where ns: "map r_size (readers t) = map r_size (readers u) @ ns" using step_sizes [OF step.hyps(2)] by blast
  have "length (readers u) \<le> 1" using arg_cong [OF ns, of length] step.prems(1) by simp
  moreover have "\<forall>r \<in> set (readers u). r_size r \<noteq> 0xFFFFFFFF" proof -
    have "0xFFFFFFFF \<notin> r_size ` set (readers t)" using step.prems(2) by auto
    moreover have "r_size ` set (readers u) \<subseteq> r_size ` set (readers t)" using arg_cong [OF ns, of set] by auto
    ultimately show ?thesis by auto
  qed
  ultimately have "single_step\<^sup>*\<^sup>* s u" by (rule step.IH)
  moreover have "single_step u t" using step.hyps(2) step.prems by (simp add: single_step_def)
  ultimately show ?case by (rule rtranclp.rtrancl_into_rtrancl)
qed simp

text \<open>C36: In every interleaving of the threads and the user in which no more than one reading thread has been
  started, with a buffer of less than 4294967295 bytes: what the user has retrieved, what is in the data set,
  what the thread has in hand and what is still to come are together the bytes of the peer, in their order.\<close>

theorem bytes_in_order:
  assumes "par_step\<^sup>*\<^sup>* (connected fd ins) s" "length (readers s) \<le> 1" "\<forall>r \<in> set (readers s). r_size r \<noteq> 0xFFFFFFFF"
  shows "concat (taken s) @ concat (m_dataSet (sock s)) @ concat (map in_hand (readers s)) @
      flow (incoming s) = flow ins"
proof -
  have "par_inv (connected fd ins)" by (simp add: par_inv_def connected_def)
  from socket_stream.run_conserves [OF single_run [OF assms] this] show ?thesis
    by (simp add: bytes_taken_def bytes_queued_def bytes_left_def connected_def socket_new_def)
qed

text \<open>Runs by evaluation: a list of the threads to run, a reader, a call of the user or the next step of the call.\<close>

datatype turn = Reader nat | Call user_op | User

definition user_goes :: "par \<Rightarrow> par option" where
  "user_goes s = (case user s of
     U_idle \<Rightarrow> None
   | U_close c \<Rightarrow> closing s
   | U_flag n \<Rightarrow> turning_on s | U_make n \<Rightarrow> turning_on s | U_assign \<Rightarrow> turning_on s | U_detach \<Rightarrow> turning_on s
   | _ \<Rightarrow> wait_data s)"

definition par_turn :: "turn \<Rightarrow> par \<Rightarrow> par option" where
  "par_turn x s = (if faulted s then None else case x of
     Reader i \<Rightarrow> if i < length (readers s) then parallel_reading i s else None
   | Call m \<Rightarrow> if user s = U_idle then Some (user_call m s) else None
   | User \<Rightarrow> user_goes s)"

fun par_run :: "turn list \<Rightarrow> par \<Rightarrow> par option" where
  "par_run [] s = Some s"
| "par_run (x # xs) s = (case par_turn x s of None \<Rightarrow> None | Some t \<Rightarrow> par_run xs t)"

lemma par_turn_act: "par_turn x s = Some t \<Longrightarrow> par_act s t"
  by (auto simp: par_turn_def user_goes_def intro: par_act.intros split: turn.splits if_splits user_pc.splits)

lemma par_run_act: "par_run xs s = Some t \<Longrightarrow> par_act\<^sup>*\<^sup>* s t"
proof (induction xs arbitrary: s)
  case (Cons x xs)
  then show ?case by (auto dest!: par_turn_act split: option.splits intro: converse_rtranclp_into_rtranclp)
qed simp

lemma par_act_steps: "par_act\<^sup>*\<^sup>* s t \<Longrightarrow> par_step\<^sup>*\<^sup>* s t"
  by (induction rule: rtranclp_induct) (auto intro: par_step.act rtranclp.rtrancl_into_rtrancl)


lemmas run_eval = par_turn_def faulted_def parallel_reading_def user_call_def user_goes_def wait_data_def closing_def
  turning_on_def close_step_def set_reader_def retrieve_def record_event_def data_available_def Let_def

lemmas step_eval = run_eval after_read_def read_into_def read_result_def left_over_def new_reader_def
  connected_def socket_new_def killParallel_def

theorem bytes_in_order_witness:
  "\<exists>s. par_step\<^sup>*\<^sup>* (connected 3 [Some ''ab'', Some ''cdef'']) s \<and> taken s = [''ab''] \<and>
     ''ab'' @ concat (m_dataSet (sock s)) @ concat (map in_hand (readers s)) @ flow (incoming s) = ''abcdef''"
proof -
  let ?xs = "[Call (Parallel_start 4), User, User, User, User, Reader 0, Reader 0, Reader 0, Reader 0, Reader 0, Reader 0,
    Call Retrieve_data]"
  have "\<exists>s. par_run ?xs (connected 3 [Some ''ab'', Some ''cdef'']) = Some s \<and> taken s = [''ab''] \<and>
      length (readers s) \<le> 1 \<and> (\<forall>r \<in> set (readers s). r_size r \<noteq> 0xFFFFFFFF)"
    by (simp add: step_eval)
  then obtain s where s: "par_run ?xs (connected 3 [Some ''ab'', Some ''cdef'']) = Some s"
    "taken s = [''ab'']" "length (readers s) \<le> 1" "\<forall>r \<in> set (readers s). r_size r \<noteq> 0xFFFFFFFF" by blast
  note run = par_act_steps [OF par_run_act [OF s(1)]]
  from bytes_in_order [OF run s(3,4)] s(2) run show ?thesis by auto
qed

section \<open>Races\<close>

lemmas new_size [simp] = new_reader_laws(3)

text \<open>The thread in \<open>read\<close>, with its buffer untouched, after \<open>parallel_on\<close> has returned.\<close>

definition reading :: "int \<Rightarrow> 32 word \<Rightarrow> byte list option list \<Rightarrow> par" where
  "reading fd n ins = (connected fd ins)
     \<lparr>sock := socket_new\<lparr>m_fd := fd, m_operational := True, m_parallel := True, m_thread := True\<rparr>,
      readers := [(new_reader n)\<lparr>r_pc := R_read fd\<rparr>]\<rparr>"






text \<open>A piece that fits into the buffer.\<close>

definition pushing :: "int \<Rightarrow> 32 word \<Rightarrow> byte list \<Rightarrow> byte list option list \<Rightarrow> par" where
  "pushing fd n bytes ins = (reading fd n ins)
     \<lparr>readers := [(new_reader n)\<lparr>r_buffer := bytes @ drop (length bytes) (r_buffer (new_reader n)),
         r_pc := R_push (word_of_nat (length bytes))\<rparr>]\<rparr>"













section \<open>The end of a reader\<close>

text \<open>A step of the only thread, and a step of a user who does nothing but wait and retrieve.\<close>

inductive reader_step :: "par \<Rightarrow> par \<Rightarrow> bool" where
  "\<not> faulted s \<Longrightarrow> parallel_reading 0 s = Some t \<Longrightarrow> reader_step s t"

inductive quiet_step :: "par \<Rightarrow> par \<Rightarrow> bool" where
  "\<not> faulted s \<Longrightarrow> user s = U_idle \<Longrightarrow> m = Wait_data \<or> m = Retrieve_data \<Longrightarrow> quiet_step s (user_call m s)"
| "\<not> faulted s \<Longrightarrow> wait_data s = Some t \<Longrightarrow> quiet_step s t"
| "\<not> faulted s \<Longrightarrow> wake 0 (m_cv s) p \<Longrightarrow> quiet_step s (s\<lparr>m_cv := p\<rparr>)"

definition end_step :: "par \<Rightarrow> par \<Rightarrow> bool" where
  "end_step s t \<longleftrightarrow> reader_step s t \<or> quiet_step s t"

text \<open>A socket in use, and how far its \<open>close_socket\<close> has come; \<open>es\<close> are the system calls before it.\<close>

definition in_use :: "int \<Rightarrow> event list \<Rightarrow> socket \<Rightarrow> bool" where
  "in_use fd es sk \<longleftrightarrow> m_parallel sk \<and> m_operational sk \<and> m_fd sk = fd \<and> events sk = es"

definition shut :: "int \<Rightarrow> event list \<Rightarrow> socket \<Rightarrow> bool" where
  "shut fd es sk \<longleftrightarrow> \<not> m_parallel sk \<and> \<not> m_operational sk \<and> \<not> m_thread sk \<and> m_fd sk = -1 \<and>
     events sk = es @ [Closed fd, Notified]"

fun closed_up_to :: "close_pc \<Rightarrow> int \<Rightarrow> event list \<Rightarrow> socket \<Rightarrow> bool" where
  "closed_up_to C_operational fd es sk = in_use fd es sk"
| "closed_up_to C_close fd es sk = (m_parallel sk \<and> \<not> m_operational sk \<and> m_fd sk = fd \<and> events sk = es)"
| "closed_up_to C_fd fd es sk = (m_parallel sk \<and> \<not> m_operational sk \<and> m_fd sk = fd \<and> events sk = es @ [Closed fd])"
| "closed_up_to C_parallel fd es sk = (m_parallel sk \<and> \<not> m_operational sk \<and> m_fd sk = -1 \<and> events sk = es @ [Closed fd])"
| "closed_up_to C_thread fd es sk = (\<not> m_parallel sk \<and> \<not> m_operational sk \<and> m_fd sk = -1 \<and> events sk = es @ [Closed fd])"
| "closed_up_to C_notify fd es sk = (\<not> m_parallel sk \<and> \<not> m_operational sk \<and> \<not> m_thread sk \<and> m_fd sk = -1 \<and>
     events sk = es @ [Closed fd])"

fun sock_at :: "reader_pc \<Rightarrow> int \<Rightarrow> event list \<Rightarrow> socket \<Rightarrow> bool" where
  "sock_at R_parallel fd es sk = (in_use fd es sk \<or> shut fd es sk)"
| "sock_at R_notify fd es sk = (in_use fd es sk \<or> shut fd es sk)"
| "sock_at R_done fd es sk = shut fd es sk"
| "sock_at (R_close c) fd es sk = closed_up_to c fd es sk"
| "sock_at (R_read fd') fd es sk = (fd' = fd \<and> in_use fd es sk)"
| "sock_at pc fd es sk = in_use fd es sk"

fun quiet_user :: "user_pc \<Rightarrow> bool" where
  "quiet_user U_idle = True"
| "quiet_user U_wait_data = True"
| "quiet_user U_check = True"
| "quiet_user U_wait = True"
| "quiet_user U_blocked = True"
| "quiet_user pc = False"

definition end_inv :: "int \<Rightarrow> event list \<Rightarrow> byte list \<Rightarrow> par \<Rightarrow> bool" where
  "end_inv fd es data s \<longleftrightarrow> incoming s = [Some []] \<and> \<not> faulted s \<and> quiet_user (user s) \<and>
     (\<exists>r. readers s = [r] \<and> good_reader r \<and> sock_at (r_pc r) fd es (sock s) \<and>
        concat (taken s) @ concat (m_dataSet (sock s)) @ in_hand r = data)"

text \<open>A bound on the steps left to the thread.\<close>

fun close_rank :: "close_pc \<Rightarrow> nat" where
  "close_rank C_operational = 8"
| "close_rank C_close = 7"
| "close_rank C_fd = 6"
| "close_rank C_parallel = 5"
| "close_rank C_thread = 4"
| "close_rank C_notify = 3"

fun reader_rank :: "bool \<Rightarrow> reader_pc \<Rightarrow> nat" where
  "reader_rank on R_done = 0"
| "reader_rank on R_parallel = (if on then 13 else 1)"
| "reader_rank on R_notify = (if on then 14 else 2)"
| "reader_rank on (R_close c) = close_rank c"
| "reader_rank on (R_read fd) = 9"
| "reader_rank on R_call = 10"
| "reader_rank on R_enter = 11"
| "reader_rank on R_operational = 12"
| "reader_rank on (R_push n) = 15"

definition rank_of :: "par \<Rightarrow> nat" where
  "rank_of s = reader_rank (m_parallel (sock s)) (r_pc (readers s ! 0))"

lemma in_use_irrelevant [simp]:
  "in_use fd es (sk\<lparr>m_dataSet := d\<rparr>) = in_use fd es sk" "shut fd es (sk\<lparr>m_dataSet := d\<rparr>) = shut fd es sk"
  by (simp_all add: in_use_def shut_def)

lemma sock_at_irrelevant [simp]: "sock_at pc fd es (sk\<lparr>m_dataSet := d\<rparr>) = sock_at pc fd es sk"
proof (cases pc)
  case (R_close c)
  then show ?thesis by (cases c) simp_all
qed simp_all

lemma quiet_step_inv:
  assumes "end_inv fd es data s" "quiet_step s t"
  shows "end_inv fd es data t \<and> rank_of t = rank_of s"
  using assms(2,1)
proof cases
  case (1 m)
  then show ?thesis using assms(1)
    by (auto simp: end_inv_def user_call_def retrieve_def rank_of_def faulted_def split: list.splits)
next
  case 2
  then show ?thesis using assms(1)
    by (cases "user s") (auto simp: end_inv_def wait_data_def rank_of_def faulted_def split: if_splits)
next
  case (3 p)
  then show ?thesis using assms(1) by (auto simp: end_inv_def rank_of_def faulted_def)
qed

lemma reader_step_inv:
  assumes "end_inv fd es data s" "reader_step s t" "0 \<le> fd"
  shows "end_inv fd es data t \<and> rank_of t < rank_of s"
proof -
  obtain r where s: "incoming s = [Some []]" "\<not> faulted s" "quiet_user (user s)" "readers s = [r]" "good_reader r"
      "sock_at (r_pc r) fd es (sock s)" "concat (taken s) @ concat (m_dataSet (sock s)) @ in_hand r = data"
    using assms(1) by (auto simp: end_inv_def)
  have step: "parallel_reading 0 s = Some t" using assms(2) by (cases rule: reader_step.cases)
  show ?thesis
  proof (cases "r_pc r")
    case (R_read fd')
    have "after_read 0 (Some []) (s\<lparr>incoming := [Some []]\<rparr>) = s\<lparr>incoming := [Some []], readers := [r\<lparr>r_pc := R_close C_operational\<rparr>]\<rparr>"
      using after_read_Some [of "s\<lparr>incoming := [Some []]\<rparr>" 0 r 0 "[]"] s(4,5) by (simp add: set_reader_def)
    then have "t = s\<lparr>incoming := [Some []], readers := [r\<lparr>r_pc := R_close C_operational\<rparr>]\<rparr>"
      using step R_read s assms(3) by (simp add: parallel_reading_def left_over_def Let_def)
    then show ?thesis using s R_read by (simp add: end_inv_def rank_of_def faulted_def in_hand_def good_reader_def)
  next
    case (R_close c)
    then show ?thesis using step s assms(3)
      by (cases c) (auto simp: parallel_reading_def end_inv_def rank_of_def faulted_def in_hand_def good_reader_def
        set_reader_def close_step_def in_use_def shut_def Let_def)
  next
    case (R_push n)
    then show ?thesis using step s
      by (auto simp: parallel_reading_def end_inv_def rank_of_def faulted_def in_hand_def good_reader_def
        set_reader_def Let_def in_use_def)
  qed (use step s assms(3) in \<open>auto simp: parallel_reading_def end_inv_def rank_of_def faulted_def in_hand_def good_reader_def
        set_reader_def Let_def in_use_def shut_def split: if_splits\<close>)
qed

lemma reader_not_blocked:
  assumes "end_inv fd es data s" "0 \<le> fd" "readers s = [r]" "r_pc r \<noteq> R_done"
  shows "\<exists>t. reader_step s t"
proof -
  have "\<not> faulted s" "incoming s = [Some []]" using assms(1) by (simp_all add: end_inv_def)
  moreover from this(2) have "\<exists>t. parallel_reading 0 s = Some t"
    using assms(3,4) by (cases "r_pc r") (simp_all add: parallel_reading_def Let_def)
  ultimately show ?thesis by (auto intro: reader_step.intros)
qed

lemma reader_steps_bounded:
  assumes "\<forall>i < k. end_step (f i) (f (Suc i))" "end_inv fd es data (f 0)" "0 \<le> fd"
  shows "card {i. i < k \<and> reader_step (f i) (f (Suc i))} + rank_of (f k) \<le> rank_of (f 0) \<and> end_inv fd es data (f k)"
  using assms(1)
proof (induction k)
  case (Suc k)
  let ?R = "\<lambda>k. {i. i < k \<and> reader_step (f i) (f (Suc i))}"
  have IH: "card (?R k) + rank_of (f k) \<le> rank_of (f 0)" "end_inv fd es data (f k)" using Suc by simp_all
  have fin: "finite (?R k)" by simp
  show ?case
  proof (cases "reader_step (f k) (f (Suc k))")
    case True
    have "?R (Suc k) = insert k (?R k)" using True by (auto simp: less_Suc_eq)
    then have "card (?R (Suc k)) = Suc (card (?R k))" by simp
    with reader_step_inv [OF IH(2) True assms(3)] IH(1) show ?thesis by simp
  next
    case False
    have "?R (Suc k) = ?R k" using False by (auto simp: less_Suc_eq)
    moreover have "quiet_step (f k) (f (Suc k))" using Suc.prems False by (auto simp: end_step_def)
    ultimately show ?thesis using quiet_step_inv [OF IH(2)] IH(1) by simp
  qed
qed (use assms(2) in simp)

text \<open>C38: The peer has closed its end, and the only thread is anywhere in its loop, with data in hand or not, of a socket that
  is in use and read in parallel; the user only waits and retrieves. Then in every interleaving, wake-ups included, the thread
  takes at most fifteen more steps, nothing blocks it before it ends, and when it has ended, the socket is closed, its
  descriptor once, reading is off, and what the user has retrieved with what is in the data set is all that was
  there or in hand.\<close>

theorem reader_ends:
  assumes "readers s = [r]" "good_reader r" "incoming s = [Some []]" "\<not> faulted s" "quiet_user (user s)"
    and "m_parallel (sock s)" "m_operational (sock s)" "0 \<le> m_fd (sock s)"
    and "r_pc r \<noteq> R_done" "\<forall>c. r_pc r \<noteq> R_close c" "\<forall>fd. r_pc r = R_read fd \<longrightarrow> fd = m_fd (sock s)"
    and "f 0 = s" "\<forall>i < k. end_step (f i) (f (Suc i))"
  shows "card {i. i < k \<and> reader_step (f i) (f (Suc i))} \<le> 15 \<and>
    (\<exists>r'. readers (f k) = [r'] \<and>
      (if r_pc r' \<noteq> R_done then \<exists>t. reader_step (f k) t
       else m_fd (sock (f k)) = -1 \<and> \<not> m_operational (sock (f k)) \<and> \<not> m_parallel (sock (f k)) \<and>
         events (sock (f k)) = events (sock s) @ [Closed (m_fd (sock s)), Notified] \<and>
         concat (taken (f k)) @ concat (m_dataSet (sock (f k))) = concat (taken s) @ concat (m_dataSet (sock s)) @ in_hand r))"
proof -
  let ?data = "concat (taken s) @ concat (m_dataSet (sock s)) @ in_hand r"
  have "sock_at (r_pc r) (m_fd (sock s)) (events (sock s)) (sock s)"
    using assms(6,7,9-11) by (cases "r_pc r") (simp_all add: in_use_def)
  then have inv: "end_inv (m_fd (sock s)) (events (sock s)) ?data (f 0)"
    using assms(1-5,12) by (simp add: end_inv_def)
  note bound = reader_steps_bounded [OF assms(13) inv assms(8)]
  have "rank_of (f 0) \<le> 15" using assms(1,10,12) by (cases "r_pc r") (simp_all add: rank_of_def)
  moreover obtain r' where r': "readers (f k) = [r']" "sock_at (r_pc r') (m_fd (sock s)) (events (sock s)) (sock (f k))"
      "concat (taken (f k)) @ concat (m_dataSet (sock (f k))) @ in_hand r' = ?data"
    using conjunct2 [OF bound] unfolding end_inv_def by blast
  moreover have "\<exists>t. reader_step (f k) t" if "r_pc r' \<noteq> R_done"
    by (rule reader_not_blocked [OF conjunct2 [OF bound] assms(8) r'(1) that])
  ultimately show ?thesis using bound by (auto simp: shut_def in_hand_def)
qed

theorem reader_ends_witness:
  "\<exists>t u. reader_step (pushing 3 4 ''ab'' [Some []]) t \<and> reader_step t u \<and> length (readers t) = 1"
proof -
  define s where "s = pushing 3 4 ''ab'' [Some []]"
  define t where "t = the (parallel_reading 0 s)"
  have r: "readers s = [(new_reader 4)\<lparr>r_buffer := ''ab'' @ drop 2 (r_buffer (new_reader 4)), r_pc := R_push 2\<rparr>]"
    by (simp add: s_def pushing_def eval_nat_numeral)
  have good: "good_reader ((new_reader 4)\<lparr>r_buffer := ''ab'' @ drop 2 (r_buffer (new_reader 4)), r_pc := R_push 2\<rparr>)"
    by (simp add: good_reader_def new_reader_def)
  have step: "reader_step s t"
    by (rule reader_step.intros) (simp_all add: t_def parallel_reading_def r faulted_def Let_def,
      simp add: s_def pushing_def reading_def connected_def)
  have "(\<exists>r'. readers t = [r'] \<and> (if r_pc r' \<noteq> R_done then \<exists>u. reader_step t u else True))"
    using reader_ends [OF r good, of "\<lambda>i. if i = 0 then s else t" 1] step
    by (auto simp: s_def pushing_def reading_def connected_def faulted_def socket_new_def end_step_def split: if_splits)
  moreover have "\<forall>r'. readers t = [r'] \<longrightarrow> r_pc r' \<noteq> R_done"
    by (simp add: t_def parallel_reading_def r set_reader_def Let_def)
  ultimately show ?thesis using step unfolding s_def by auto
qed

end
