(* ===== verification/Timer.thy ===== *)
theory Timer
  imports Complex_Main
begin

text \<open>
  The timer (src/src/time.cpp, src/include/time.hpp). The clock is an argument of the operations
  that read it, the arithmetic of \<open>double\<close> a parameter: the conversion of an integer and the
  operations the code uses.
\<close>

section \<open>Arithmetic\<close>

record 'd doubles =
  of_long :: "int \<Rightarrow> 'd"
  d_add :: "'d \<Rightarrow> 'd \<Rightarrow> 'd"
  d_sub :: "'d \<Rightarrow> 'd \<Rightarrow> 'd"
  d_mul :: "'d \<Rightarrow> 'd \<Rightarrow> 'd"
  d_div :: "'d \<Rightarrow> 'd \<Rightarrow> 'd"

section \<open>The timer\<close>

record timeval =
  tv_sec :: int
  tv_usec :: int

text \<open>\<open>m_start\<close> and \<open>m_end\<close> hold nothing until they are set.\<close>

record 'd timer =
  m_stopped :: bool
  m_sec :: 'd
  m_start :: "timeval option"
  m_end :: "timeval option"

definition timer_new :: "'d doubles \<Rightarrow> 'd timer" where
  "timer_new d = \<lparr>m_stopped = True, m_sec = of_long d 0, m_start = None, m_end = None\<rparr>"

text \<open>\<open>None\<close> when the start is read before it is set.\<close>

definition time :: "'d doubles \<Rightarrow> timeval \<Rightarrow> 'd timer \<Rightarrow> 'd option" where
  "time d now t = (if m_stopped t then Some (m_sec t)
     else case m_start t of None \<Rightarrow> None | Some s \<Rightarrow>
       Some (d_add d (of_long d (tv_sec now - tv_sec s))
         (d_div d (of_long d (tv_usec now - tv_usec s)) (of_long d 1000000))))"

definition start :: "'d doubles \<Rightarrow> timeval \<Rightarrow> 'd timer \<Rightarrow> 'd timer" where
  "start d now t = t\<lparr>m_sec := of_long d 0, m_start := Some now, m_stopped := False\<rparr>"

definition stop :: "'d doubles \<Rightarrow> timeval \<Rightarrow> 'd timer \<Rightarrow> (bool \<times> 'd timer) option" where
  "stop d now t = (if m_stopped t then Some (False, t)
     else (let t = t\<lparr>m_end := Some now, m_stopped := True\<rparr>
           in case m_start t of None \<Rightarrow> None
              | Some s \<Rightarrow>
                  Some (True, t\<lparr>m_sec := d_add d (of_long d (tv_sec now - tv_sec s))
                    (d_div d (of_long d (tv_usec now - tv_usec s)) (of_long d 1000000))\<rparr>)))"

definition reset :: "'d doubles \<Rightarrow> 'd timer \<Rightarrow> 'd timer" where
  "reset d t = t\<lparr>m_sec := of_long d 0, m_stopped := True\<rparr>"

section \<open>A stopwatch\<close>

text \<open>Exact arithmetic, and a reading of the clock as a moment in seconds.\<close>

definition exact :: "real doubles" where
  "exact = \<lparr>of_long = of_int, d_add = (+), d_sub = (-), d_mul = (*), d_div = (/)\<rparr>"

definition moment :: "timeval \<Rightarrow> real" where
  "moment t = of_int (tv_sec t) + of_int (tv_usec t) / 10 ^ 6"

text \<open>
  What the timer is to be: halted with a time, or going since a moment. The stopwatch knows
  moments only, it has nothing of the fields of the timer.
\<close>

datatype watch = Halted real | Going real

datatype timer_op = Time timeval | Start timeval | Stop timeval | Reset

datatype 'd answer = Seconds 'd | Was_going bool | Done

fun watch_op :: "timer_op \<Rightarrow> watch \<Rightarrow> real answer \<times> watch" where
  "watch_op (Time now) (Halted x) = (Seconds x, Halted x)"
| "watch_op (Time now) (Going since) = (Seconds (moment now - since), Going since)"
| "watch_op (Start now) w = (Done, Going (moment now))"
| "watch_op (Stop now) (Halted x) = (Was_going False, Halted x)"
| "watch_op (Stop now) (Going since) = (Was_going True, Halted (moment now - since))"
| "watch_op Reset w = (Done, Halted 0)"

fun watch_ops :: "timer_op list \<Rightarrow> watch \<Rightarrow> real answer list" where
  "watch_ops [] w = []"
| "watch_ops (m # ms) w = (let (a, w) = watch_op m w in a # watch_ops ms w)"

definition timer_op :: "'d doubles \<Rightarrow> timer_op \<Rightarrow> 'd timer \<Rightarrow> ('d answer \<times> 'd timer) option" where
  "timer_op d m t = (case m of
     Time now \<Rightarrow> (case time d now t of None \<Rightarrow> None | Some x \<Rightarrow> Some (Seconds x, t))
   | Start now \<Rightarrow> Some (Done, start d now t)
   | Stop now \<Rightarrow> (case stop d now t of None \<Rightarrow> None | Some (b, t) \<Rightarrow> Some (Was_going b, t))
   | Reset \<Rightarrow> Some (Done, reset d t))"

fun timer_ops :: "'d doubles \<Rightarrow> timer_op list \<Rightarrow> 'd timer \<Rightarrow> 'd answer list option" where
  "timer_ops d [] t = Some []"
| "timer_ops d (m # ms) t = (case timer_op d m t of None \<Rightarrow> None
     | Some (a, t) \<Rightarrow> map_option (\<lambda>as. a # as) (timer_ops d ms t))"

lemma exact_simps [simp]:
  "of_long exact n = of_int n" "d_add exact x y = x + y" "d_sub exact x y = x - y"
  "d_mul exact x y = x * y" "d_div exact x y = x / y"
  by (simp_all add: exact_def)

fun watch_of :: "real timer \<Rightarrow> watch option" where
  "watch_of t = (if m_stopped t then Some (Halted (m_sec t))
     else map_option (\<lambda>s. Going (moment s)) (m_start t))"

lemma timer_op_refines:
  "watch_of t = Some w \<Longrightarrow>
     \<exists>t'. timer_op exact m t = Some (fst (watch_op m w), t') \<and> watch_of t' = Some (snd (watch_op m w))"
  by (cases m) (auto simp: timer_op_def time_def start_def stop_def reset_def moment_def field_simps split: if_splits)

lemma timer_ops_refine: "watch_of t = Some w \<Longrightarrow> timer_ops exact ms t = Some (watch_ops ms w)"
proof (induction ms arbitrary: t w)
  case (Cons m ms)
  obtain t' where t': "timer_op exact m t = Some (fst (watch_op m w), t')"
    "watch_of t' = Some (snd (watch_op m w))" using timer_op_refines [OF Cons.prems] by blast
  from t'(1) Cons.IH [OF t'(2)] show ?case by (simp add: Let_def split: prod.splits)
qed simp

text \<open>With any arithmetic, a timer that goes has been started.\<close>

definition has_start :: "'d timer \<Rightarrow> bool" where
  "has_start t \<longleftrightarrow> m_stopped t \<or> m_start t \<noteq> None"

lemma timer_op_total: "has_start t \<Longrightarrow> \<exists>a t'. timer_op d m t = Some (a, t') \<and> has_start t'"
  by (cases m) (auto simp: timer_op_def time_def start_def stop_def reset_def has_start_def)

lemma timer_ops_total: "has_start t \<Longrightarrow> timer_ops d ms t \<noteq> None"
proof (induction ms arbitrary: t)
  case (Cons m ms)
  obtain a t' where "timer_op d m t = Some (a, t')" "has_start t'" using timer_op_total [OF Cons.prems] by blast
  with Cons.IH show ?case by simp
qed simp

text \<open>C39: For any sequence of calls at any moments of the clock: with exact arithmetic the timer
  answers as a stopwatch does that knows moments only: while it goes, \<open>time\<close> is the moment of the
  call minus that of its last start, in seconds; then it is the moment of the stop minus that of
  the start, until it is started again or reset to zero; \<open>stop\<close> tells whether it was going. With
  any arithmetic, it never reads a moment that was not set.\<close>

theorem timer_is_stopwatch:
  "timer_ops exact ms (timer_new exact) = Some (watch_ops ms (Halted 0))
    \<and> timer_ops d ms (timer_new d) \<noteq> None"
proof
  show "timer_ops exact ms (timer_new exact) = Some (watch_ops ms (Halted 0))"
    by (rule timer_ops_refine) (simp add: timer_new_def)
  show "timer_ops d ms (timer_new d) \<noteq> None"
    by (rule timer_ops_total) (simp add: timer_new_def has_start_def)
qed

end
