(* ===== verification/Complex_Num.thy ===== *)
theory Complex_Num
  imports Complex_Main Timer
begin

text \<open>
  Complex numbers (src/src/complex.cpp, src/include/complex.hpp). The arithmetic of \<open>double\<close> is a
  parameter, as in the timer; with exact arithmetic the operations are those of the complex
  numbers of the library.
\<close>

section \<open>The operations\<close>

record 'd cnum =
  c_real :: 'd
  c_im :: 'd

definition cnum_i :: "'d doubles \<Rightarrow> 'd cnum" where
  "cnum_i d = \<lparr>c_real = of_long d 0, c_im = of_long d 1\<rparr>"

text \<open>The assignments change their left operand, one component after the other.\<close>

definition add_assign :: "'d doubles \<Rightarrow> 'd cnum \<Rightarrow> 'd cnum \<Rightarrow> 'd cnum" where
  "add_assign d this z =
     (let this = this\<lparr>c_real := d_add d (c_real this) (c_real z)\<rparr>
      in this\<lparr>c_im := d_add d (c_im this) (c_im z)\<rparr>)"

definition sub_assign :: "'d doubles \<Rightarrow> 'd cnum \<Rightarrow> 'd cnum \<Rightarrow> 'd cnum" where
  "sub_assign d this z =
     (let this = this\<lparr>c_real := d_sub d (c_real this) (c_real z)\<rparr>
      in this\<lparr>c_im := d_sub d (c_im this) (c_im z)\<rparr>)"

definition mul_assign :: "'d doubles \<Rightarrow> 'd cnum \<Rightarrow> 'd cnum \<Rightarrow> 'd cnum" where
  "mul_assign d this z =
     (let r = c_real this;
          this = this\<lparr>c_real := d_sub d (d_mul d (c_real this) (c_real z)) (d_mul d (c_im this) (c_im z))\<rparr>
      in this\<lparr>c_im := d_add d (d_mul d r (c_im z)) (d_mul d (c_im this) (c_real z))\<rparr>)"

definition div_assign :: "'d doubles \<Rightarrow> 'd cnum \<Rightarrow> 'd cnum \<Rightarrow> 'd cnum" where
  "div_assign d this z =
     (let r = c_real this;
          dv = d_add d (d_mul d (c_real z) (c_real z)) (d_mul d (c_im z) (c_im z));
          this = this\<lparr>c_real := d_div d (d_add d (d_mul d (c_real this) (c_real z))
                   (d_mul d (c_im this) (c_im z))) dv\<rparr>
      in this\<lparr>c_im := d_div d (d_sub d (d_mul d (c_im this) (c_real z)) (d_mul d r (c_im z))) dv\<rparr>)"

text \<open>The operators copy their left operand and assign to the copy.\<close>

definition add_cnum :: "'d doubles \<Rightarrow> 'd cnum \<Rightarrow> 'd cnum \<Rightarrow> 'd cnum" where
  "add_cnum d z1 z2 = add_assign d z1 z2"

definition sub_cnum :: "'d doubles \<Rightarrow> 'd cnum \<Rightarrow> 'd cnum \<Rightarrow> 'd cnum" where
  "sub_cnum d z1 z2 = sub_assign d z1 z2"

definition mul_cnum :: "'d doubles \<Rightarrow> 'd cnum \<Rightarrow> 'd cnum \<Rightarrow> 'd cnum" where
  "mul_cnum d z1 z2 = mul_assign d z1 z2"

definition div_cnum :: "'d doubles \<Rightarrow> 'd cnum \<Rightarrow> 'd cnum \<Rightarrow> 'd cnum" where
  "div_cnum d z1 z2 = div_assign d z1 z2"

definition mod_cnum :: "('d \<Rightarrow> 'd) \<Rightarrow> 'd doubles \<Rightarrow> 'd cnum \<Rightarrow> 'd" where
  "mod_cnum square_root d z = square_root (d_add d (d_mul d (c_real z) (c_real z)) (d_mul d (c_im z) (c_im z)))"

definition arg_cnum :: "('d \<Rightarrow> 'd \<Rightarrow> 'd) \<Rightarrow> 'd cnum \<Rightarrow> 'd" where
  "arg_cnum atan2 z = atan2 (c_real z) (c_im z)"

definition print_cnum :: "('d \<Rightarrow> string) \<Rightarrow> 'd cnum \<Rightarrow> string" where
  "print_cnum show_double z = show_double (c_real z) @ ''+'' @ show_double (c_im z) @ ''i''"

section \<open>Exact arithmetic\<close>

definition to_complex :: "real cnum \<Rightarrow> complex" where
  "to_complex z = Complex (c_real z) (c_im z)"

text \<open>C40: With exact arithmetic the operations are those of the complex numbers, division by any number included
  (where the library's division by zero gives zero), \<open>i\<close> is the imaginary unit, and \<open>mod\<close> the
  modulus.\<close>

theorem cnum_refines_complex:
  "to_complex (add_cnum exact z w) = to_complex z + to_complex w \<and>
   to_complex (sub_cnum exact z w) = to_complex z - to_complex w \<and>
   to_complex (mul_cnum exact z w) = to_complex z * to_complex w \<and>
   to_complex (div_cnum exact z w) = to_complex z / to_complex w \<and>
   to_complex (cnum_i exact) = \<i> \<and>
   mod_cnum sqrt exact z = cmod (to_complex z)"
  by (simp add: to_complex_def add_cnum_def sub_cnum_def mul_cnum_def div_cnum_def add_assign_def
    sub_assign_def mul_assign_def div_assign_def mod_cnum_def cnum_i_def complex_eq_iff cmod_def
    Re_divide Im_divide power2_eq_square Let_def)

text \<open>
  \<open>arg\<close> gives \<open>atan2\<close> its arguments the wrong way round: it is the argument of the number with
  its parts exchanged, wrong for 1 already.
\<close>

lemma arg_exchanged:
  assumes "\<And>x y. (x, y) \<noteq> (0, 0) \<Longrightarrow> atan2 y x = Arg (Complex x y)"
  shows "to_complex z \<noteq> 0 \<Longrightarrow> arg_cnum atan2 z = Arg (Complex (c_im z) (c_real z))"
    and "arg_cnum atan2 \<lparr>c_real = 1, c_im = 0\<rparr> \<noteq> Arg 1"
proof -
  show "arg_cnum atan2 z = Arg (Complex (c_im z) (c_real z))" if "to_complex z \<noteq> 0"
    using that assms [of "c_im z" "c_real z"] by (auto simp: arg_cnum_def to_complex_def complex_eq_iff)
  have "arg_cnum atan2 \<lparr>c_real = 1, c_im = 0\<rparr> = Arg \<i>"
    using assms [of 0 1] by (simp add: arg_cnum_def imaginary_unit.code)
  moreover have "Arg 1 \<noteq> pi / 2"
  proof
    assume "Arg 1 = pi / 2"
    then have "cos (Arg 1) = 0" by (simp only: cos_pi_half)
    with cis_Arg [of 1] show False by (simp add: complex_eq_iff sgn_eq)
  qed
  ultimately show "arg_cnum atan2 \<lparr>c_real = 1, c_im = 0\<rparr> \<noteq> Arg 1" by simp
qed

end
