(* ===== verification/Spec2Isabelle.thy ===== *)
theory Spec2Isabelle
  imports Prelude StdMap Scanner Chunk Nesting Roundtrip ParseFacts Overread Chunk_Ops Chunk_Laws
    Objects Chunk_Heap Chunk_Heap_Laws Chunk_Refine Chunk_Client Chunk_Faults Chunk_Self Chunk_Text
    Filedat Filedat_Laws Filedat_Store Filedat_Session Options Options_Laws Options_Grammar Color Wait Shell Shc Shc_Laws Socket Socket_Par
    Socket_Par_Laws Timer Complex_Num
begin

text \<open>
  A verification development of ztd (src/), a C++ library of small tools: the ZFD data format
  (\<open>filedat\<close>), command line options, terminal colours, and wrappers for shells, sockets,
  threads and time.

  \<^bold>\<open>The program and the theories.\<close> The centre of the library is the data format. A text is
  scanned by the functions of src/src/filedat.cpp up to line 492 (theory Scanner), parsed
  into a tree of \<open>chunkdat\<close> objects by \<open>chunkdat::set(std::string)\<close> and printed again by
  \<open>chunkdat::strval\<close> (theory Chunk). The objects are changed and searched by the other members
  of \<open>chunkdat\<close> (theory Chunk_Ops, for arguments that are other objects). The same objects as blocks of memory, with every \<open>new\<close>, every \<open>delete\<close> and the
  pointers between them, are in the theories Chunk_Heap (destructors, copies, adding, concatenating, merging,
  erasing) and Chunk_Text (assignment and construction from text), where an argument may be any
  object, the one that is changed as well; Chunk_Client has the programs that use them. The file object \<open>filedat\<close> removes comments, imports a string,
  a file or the standard input through the parser, exports through \<open>strval\<close>, and reports an
  exception with a caret under its position (theory Filedat); the object it owns is on the store
  in the theories Filedat_Store and Filedat_Session, which has the programs that use a file
  object. The command line is read by
  src/src/options.cpp (theory Options) and colours are looked up in src/src/color.cpp (theory
  Color); neither uses the data format.

  The second half of the library wraps the operating system. src/src/shell.cpp runs commands
  (theory Shell: \<open>sh\<close>, \<open>shp\<close>, \<open>eopen\<close>, \<open>eclose\<close>, \<open>exec\<close>, \<open>script\<close>) and, in the class \<open>shc\<close>, runs one in the
  background: a thread of the object puts its lines into a queue (theory Shc). The thread and
  its user wait for each other in the pools of src/src/wait.cpp (theory Wait). src/src/socket.cpp
  is modelled one call at a time (theory Socket), and its parallel reading, where a thread
  appends what it reads to a data set, as an interleaving (theory Socket_Par). The timer of
  src/src/time.cpp and the numbers of src/src/complex.cpp are in the theories Timer and
  Complex_Num. Prelude holds the shared vocabulary: characters, the
  values that stand for exceptions, the string functions of the standard library. StdMap holds
  \<open>std::map\<close>: the contract the development relies on as the locale \<open>std_map\<close>, and the sorted
  association list that models it.

  \<^bold>\<open>How the code is represented.\<close> A class is a record or a datatype: \<open>chunk_abstract\<close> and its three
  subclasses are the constructors \<open>Chunk_string\<close>, \<open>Chunk_map\<close>, \<open>Chunk_list\<close>; a \<open>chunk_abstract*\<close>
  is owned by its \<open>chunkdat\<close>, so objects form trees and a null pointer is \<open>None\<close>. On the store a
  pointer is an address, which is never used again after a \<open>delete\<close>: an access through a pointer to a
  deleted object, or through an iterator an insertion has made invalid, is a \<open>fault\<close>. The
  \<open>filedat*\<close> of an object is an address, looked up in a parameter \<open>files\<close> for messages. A
  function that throws returns the exception; a member function that changes the object
  returns it beside the exception it may leave with, as the call leaves it. Positions in a
  string are represented by the suffix that is still to be read together with the index that is
  returned; \<open>std::string::operator[]\<close> at the end of a string is the terminator (\<open>cur\<close>). The one
  loop of the scanner that has no bound (src/src/filedat.cpp:401) reads a parameter \<open>mem\<close>, the
  bytes behind the terminator, and faults (\<open>Segfault\<close>) when they end; \<open>Undefined\<close> is a
  call without a defined meaning, such as dereferencing null. The nesting counters
  of the scanners, list indices and the blanks of a report are 32-bit words; the positions,
  \<open>int\<close> and \<open>uint32_t\<close> in the code, are unbounded, which theorems about texts state as a length
  below \<open>2 ^ 32\<close>. Files and standard input are parameters; \<open>std::getline\<close> is modelled with
  the two state bits it sets.

  What the operating system answers (the result of a system call, what a command writes, the
  reading of a clock) is an argument of the operation or a record of the host; the arithmetic
  of \<open>double\<close> is a record of operations, instantiated with exact arithmetic where a theorem says
  so, as the timer and the complex numbers do. A thread is a program counter in the state, a step of it a function that gives the next
  state, or none when it is blocked; the step relations \<open>shc_step\<close> and \<open>par_step\<close> interleave the
  threads, one statement per step, and let a thread in a pool wake up on its own. The code
  leaves the fields its threads share unguarded, which is a data race to the language; the
  model reads and writes them in the order of the steps. \<open>shc_act\<close> and \<open>par_act\<close> leave the
  wake-ups out.

  \<^bold>\<open>Termination.\<close> The operations on the store take a fuel, which bounds the nesting of the
  destructors, copies and merges and the loops over maps: the depth of the objects is enough for
  the first (\<open>delete_obj_run\<close>, \<open>pcopy_run\<close>), their \<open>weight\<close> for the others (\<open>merge_refines\<close>), the length
  of the text for a parse (\<open>set_str_obj_run\<close>), and every program has a fuel from which on it
  returns (\<open>programs_refined\<close>; for file objects \<open>file_sessions\<close>, where each call has its own,
  \<open>file_fuel\<close>). Nothing else uses fuel. The scanners recurse on the text that is left, the parser on the
  length of the value it is given (\<open>text_shrinks\<close>, \<open>getstrval_len\<close>, \<open>getkeyval_len\<close>), reading
  lines on the bytes and state bits of the stream, option processing on the arguments left. The
  one loop that may not end, the wait of \<open>eclose\<close>, is a \<open>partial_function\<close>; when it returns is
  shown. Threads end by a bound on the steps left to them.

  \<^bold>\<open>What is shown.\<close>
  \<^item> Scanner, Nesting, Roundtrip, ParseFacts: parsing printed data gives the data back; the
    result of a parse is well formed; it does not depend on memory behind the strings as long
    as a readable character lies there; 32-bit nesting counters decide as unbounded ones; escaped
    text is read back exactly if it does not end in a backslash; the loops end.
  \<^item> Overread: where no readable character lies behind the strings, a text that \<open>strval\<close> has
    printed is read beyond its end exactly if it holds a list that is not empty.
  \<^item> Chunk_Laws, Objects: every object a program can build is well formed (by rule induction
    over the step relation \<open>step\<close>); what adding, adding several, concatenating, merging, erasing and
    looking up do on every branch. The locale \<open>adder\<close> is the contract of the two adding
    operations; the loops over them are reasoned about once, inside it.
  \<^item> Chunk_Heap_Laws, Chunk_Refine, Chunk_Client: each operation on the store refines that on trees
    (\<open>refines\<close>), so every program of calls on objects and their parts, with texts and with parts of
    other objects as arguments, runs without a fault,
    throws the same exceptions, keeps its objects separate and, if it destroys what it made and no
    text failed to parse, leaks nothing. The locale \<open>stored_call\<close> is the contract of a call with an argument; the
    member functions interpret it.
  \<^item> Chunk_Faults, Chunk_Self: arguments that are part of the object: assignment reads a deleted
    object, merging a part differs from merging a copy of it, adding one does not; an object that is
    its own argument: what assigning, concatenating and merging do for each kind of object.
  \<^item> Chunk_Text, Filedat_Store: parsing on the store refines the parser on trees; a constructor
    that throws leaks what it had made; an import deletes what it replaces; a copied file object
    is deleted twice.
  \<^item> Filedat_Session: a program constructs a file object, calls its imports, \<open>clear\<close>, \<open>setFilePath\<close> and
    \<open>set_data\<close> in any order, catches what they throw, and destroys it. On the store it does what it
    does without one; it leaks nothing unless a parse failed (what a failed constructor has made),
    and its only undefined call is \<open>set_data\<close> through the null pointer a failed import leaves. The
    locale \<open>file_member\<close> is the contract of one call; every member interprets it. What the
    standard input holds is an argument of each call that reads it.
  \<^item> Filedat_Laws: importing a printed map or list as a string gives it back, and so does
    importing a file that holds it and a newline (below); a file as \<open>export_file\<close> writes it,
    without that newline, cannot be imported; comments are removed except behind a closing
    quote; what an import leaves behind; the layout of a report.
  \<^item> Options_Laws: what a run of \<open>process\<close> keeps (through the locale \<open>activation_invariant\<close>); the
    spellings of an option that are equivalent; arguments that are not options and \<open>--\<close>; errors;
    the help text; the search by name.
  \<^item> Options_Grammar: the language of \<open>process\<close>: the command lines on which it returns are those
    written as a list of items that fit the options, with an ending; those on which it throws have
    an argument that is \<open>refused\<close> behind such items; with what it returns, activates and throws.
  \<^item> Color: the lookups, and the names that the missing comma of src/src/color.cpp:23 shifts.
  \<^item> Shell: what a command writes is given back up to NUL bytes; when \<open>eclose\<close> returns and with
    what; which ends of a pipe the two processes keep; what \<open>script\<close> does to the files.
  \<^item> Wait, Shc_Laws: the locale \<open>fifo_channel\<close>, an extension of \<open>invariant_system\<close>, is the contract
    of a queue that one thread fills and another empties; the shell and the socket interpret it.
    Under every interleaving \<open>shc\<close> refines a stream of lines; without wake-ups of their own a
    user who finds the command finished has its status and all its lines; the thread ends;
    the races of \<open>run\<close>, \<open>wait_finish\<close> and \<open>kill_int\<close>.
  \<^item> Socket, Socket_Par_Laws: strings come back in whatever pieces they arrive; \<open>read_data\<close> on every
    branch; the descriptor is closed once; what a server and a client must have; parallel
    reading keeps the bytes in order while one thread reads, and that thread ends with its peer under
    every interleaving with a user who waits; the races: reading beyond the buffer, a lost
    notification, pieces out of order, a descriptor closed twice, a null thread pointer.
  \<^item> Timer, Complex_Num: with exact arithmetic the timer refines a stopwatch on the moments the clock
    gives, the operations on complex numbers those of HOL.

  \<^bold>\<open>What is not modelled.\<close> Memory that is used again after it was freed, and running out of it;
  memory other than that of the objects: the C strings \<open>getline\<close> and \<open>malloc\<close> allocate are their
  bytes. The programs a command starts are
  what they write and how they end. Rounding: nothing is said of the values of \<open>double\<close>. The
  variadic overloads of \<open>exec\<close>, \<open>script\<close> and \<open>option_set::add\<close> only build the list of arguments.
  The members that only call another one and return \<open>*this\<close> (\<open>=\<close>, \<open>+=\<close>, \<open>*=\<close>, \<open>-=\<close> of a
  \<open>chunkdat\<close>, \<open>=\<close> of a \<open>filedat\<close>) or that return a field (\<open>filePath\<close>, \<open>im_data\<close>, \<open>fd\<close>, \<open>parallel\<close>)
  have no definition of their own: they are that member or that field.
\<close>

section \<open>Files that end in a newline\<close>

text \<open>C25: A file that holds a printed map or list and a final newline is imported, and the data is the printed one again, on
  the conditions of \<open>import_strval\<close> (theory Filedat_Laws): no empty object inside; keys of visible characters, at
  least one, other than quotes, backslash, hash, slash, brackets, braces and equals sign, and not beginning with a
  semicolon; strings that are empty or end in a visible character other than a backslash, with no quote and no
  opening brace or bracket in the first word; blank indentation; less than \<open>2 ^ 32\<close> characters; and a visible
  character behind the strings in memory.\<close>

theorem import_file_newline:
  assumes "mem_ok mem" "blank ws" "printable c" "clean_keys c" "chunk_type c \<noteq> StringT"
    and "length (strval 0 ws c) + 2 < 2 ^ 32"
    and "fs path = Some (strval 0 ws c @ [newline])" "path \<noteq> []"
  shows "\<exists>c'. import_file mem fs path fd =
      (None, \<lparr>m_filePath = path, m_data = strval 0 ws c @ [newline, newline], m_dataChunk = Some c'\<rparr>)
    \<and> untrace c' = untrace c"
proof -
  let ?d = "strval 0 ws c @ [newline, newline]"
  obtain c' where c': "set_str mem (strval 0 ws c) 0 None = (None, c')" "untrace c' = untrace c"
    using printable_reads_back [OF assms(1-3)] assms(6) by (force simp: reads_back_def)
  have "set_str mem ?d 0 None = (None, c')"
    using assms(3,2,5)
  proof (cases rule: strval_bracketed [where al = 0])
    case (map body)
    with set_str_trailing(1) [OF _ _ map(2), of "[newline]" mem 0 None c'] c'(1) assms(6)
    show ?thesis by simp
  next
    case (list body)
    with set_str_trailing(2) [OF _ _ list(2), of "[newline]" mem 0 None c'] c'(1) assms(6)
    show ?thesis by simp
  qed
  moreover have "rc_passes (strval 0 ws c @ [newline, newline])"
    using rc_passes_strval [OF assms(3,4,2)] assms(5) rc_passes_plain [of "[newline, newline]"]
    by (intro rc_passes_append) (auto simp: rc_plain_def)
  then have "removeComments ?d = Inr ?d" by (rule rc_passes_id)
  moreover have "read_lines (open_stream (strval 0 ws c @ [newline])) [] [] = ?d"
    by (simp add: read_lines_open)
  ultimately show ?thesis using c'(2) assms(7,8)
    by (cases fd) (auto simp: import_file_def generateChunk_clean clear_filedat_def Let_def)
qed

theorem import_file_newline_witness:
  "\<exists>c'. import_file (\<lambda>_. ''x'') [''f'' \<mapsto> strval 0 [tab] sample_chunk @ [newline]] ''f'' (new_filedat []) =
      (None, \<lparr>m_filePath = ''f'', m_data = strval 0 [tab] sample_chunk @ [newline, newline], m_dataChunk = Some c'\<rparr>)
    \<and> untrace c' = untrace sample_chunk"
  by (rule import_file_newline [OF mem_ok_x])
    (use sample_chunk_length in \<open>simp_all add: sample_chunk_ok sample_chunk_clean\<close>)

end
